(* ===== verification/Prelude.thy ===== *)
theory Prelude
  imports Main "HOL-Library.Word"
begin

text \<open>
  Shared vocabulary of the development: the machine types of the Go sources, the
  result of a piece of Go code that may panic, and the generic facts on words,
  lists and finite sets that several components use.
\<close>

section \<open>Machine types\<close>

type_synonym u64 = "64 word"
type_synonym byte = "8 word"
type_synonym bytes = "byte list"
type_synonym go_error = "string option"

abbreviation max_u64 :: nat where
  "max_u64 \<equiv> 18446744073709551615"

abbreviation max_int :: int where
  "max_int \<equiv> 9223372036854775807"

section \<open>Code that may panic\<close>

text \<open>
  A piece of Go code either runs to its end (\<open>Ok\<close>) or panics. A panic keeps the
  memory at the point where it was raised: deferred calls run, but nothing the
  code did before is undone.
\<close>

datatype panic =
    PersistFailed
  | EntriesCompacted
  | TruncateCompacted
  | SliceOutOfRange
  | InvalidRandArgument
  | NilDereference

datatype ('a, 'm) outcome = Ok 'a | Panic panic 'm

fun andThen :: "('a, 'm) outcome \<Rightarrow> ('a \<Rightarrow> ('b, 'm) outcome) \<Rightarrow> ('b, 'm) outcome" where
  "andThen (Ok a) f = f a"
| "andThen (Panic p m) f = Panic p m"

lemma andThen_eq_Panic:
  "andThen m f = Panic p s \<longleftrightarrow> m = Panic p s \<or> (\<exists>a. m = Ok a \<and> f a = Panic p s)"
  by (cases m) auto

lemma andThen_if_Ok [simp]:
  "andThen (if b then Ok x else m) f = (if b then f x else andThen m f)"
  "andThen (if b then m else Ok x) f = (if b then andThen m f else f x)"
  by simp_all

text \<open>What holds of the result of code that runs to its end.\<close>

definition on_Ok :: "('a \<Rightarrow> bool) \<Rightarrow> ('a, 'm) outcome \<Rightarrow> bool" where
  "on_Ok P r = (case r of Ok x \<Rightarrow> P x | Panic p m \<Rightarrow> True)"

lemma on_Ok_simps [simp]:
  "on_Ok P (Ok x) = P x"
  "on_Ok P (Panic p m)"
  "on_Ok P (andThen r f) = on_Ok (\<lambda>x. on_Ok P (f x)) r"
  by (cases r; simp add: on_Ok_def)+

lemma on_Ok_mono: "on_Ok P r \<Longrightarrow> (\<And>x. P x \<Longrightarrow> Q x) \<Longrightarrow> on_Ok Q r"
  by (cases r) auto

lemma on_Ok_andThenI:
  "on_Ok Q r \<Longrightarrow> (\<And>x. Q x \<Longrightarrow> on_Ok P (f x)) \<Longrightarrow> on_Ok P (andThen r f)"
  by (cases r) auto

text \<open>
  A call of code that reads or works on a part of the memory \<open>m\<close>: a panic in it leaves the
  caller's memory as it was at the call.
\<close>

fun within :: "'m \<Rightarrow> ('a, 'l) outcome \<Rightarrow> ('a \<Rightarrow> ('b, 'm) outcome) \<Rightarrow> ('b, 'm) outcome" where
  "within m (Ok a) f = f a"
| "within m (Panic p _) f = Panic p m"

lemma within_cong [fundef_cong]:
  "m = m' \<Longrightarrow> r = r' \<Longrightarrow> (\<And>a. r' = Ok a \<Longrightarrow> f a = f' a) \<Longrightarrow> within m r f = within m' r' f'"
  by (cases r') auto

lemma on_Ok_within [simp]: "on_Ok P (within m r f) = on_Ok (\<lambda>x. on_Ok P (f x)) r"
  by (cases r) auto

lemma within_eq_Ok: "within m r f = Ok b \<longleftrightarrow> (\<exists>a. r = Ok a \<and> f a = Ok b)"
  by (cases r) auto

lemma on_Ok_any: "(\<And>x. P x) \<Longrightarrow> on_Ok P r"
  by (cases r) auto

text \<open>
  Go slices: an index must lie inside the slice, and a slice expression may start at the end
  of it. A slice expression that shortens a slice may in Go reach up to its capacity; the
  model has no capacities and lets it reach up to the length.
\<close>

definition index_at :: "'a list \<Rightarrow> int \<Rightarrow> ('a, unit) outcome" where
  "index_at xs i = (if 0 \<le> i \<and> i < int (length xs) then Ok (xs ! nat i) else Panic SliceOutOfRange ())"

definition slice_from :: "'a list \<Rightarrow> int \<Rightarrow> ('a list, unit) outcome" where
  "slice_from xs i = (if 0 \<le> i \<and> i \<le> int (length xs) then Ok (drop (nat i) xs) else Panic SliceOutOfRange ())"

definition slice_to :: "'a list \<Rightarrow> int \<Rightarrow> ('a list, unit) outcome" where
  "slice_to xs i = (if 0 \<le> i \<and> i \<le> int (length xs) then Ok (take (nat i) xs) else Panic SliceOutOfRange ())"

lemma index_at_Ok [simp]: "n < length xs \<Longrightarrow> index_at xs (int n) = Ok (xs ! n)"
  by (simp add: index_at_def)

lemma index_at_first: "xs \<noteq> [] \<Longrightarrow> index_at xs 0 = Ok (hd xs)"
  by (simp add: index_at_def hd_conv_nth)

lemma index_at_last: "xs \<noteq> [] \<Longrightarrow> index_at xs (int (length xs) - 1) = Ok (last xs)"
  by (cases xs rule: rev_cases) (simp_all add: index_at_def nth_append)

lemma slice_from_Ok [simp]: "n \<le> length xs \<Longrightarrow> slice_from xs (int n) = Ok (drop n xs)"
  by (simp add: slice_from_def)

lemma slice_to_Ok [simp]: "n \<le> length xs \<Longrightarrow> slice_to xs (int n) = Ok (take n xs)"
  by (simp add: slice_to_def)

section \<open>Unsigned 64-bit counters\<close>

lemma unat_u64_le [simp]: "unat (w :: u64) \<le> max_u64"
proof -
  have "unat w < 2 ^ LENGTH(64)" by (rule unsigned_less)
  then show ?thesis by simp
qed

lemma unat_inc [simp]:
  assumes "unat (w :: u64) < max_u64"
  shows "unat (w + 1) = Suc (unat w)"
  using assms by (simp add: unat_word_ariths)

lemma unat_dec:
  "0 < (w :: u64) \<Longrightarrow> unat (w - 1) = unat w - 1"
  by (simp add: unat_minus_one word_gt_0)

lemma unat_pred_less: "(v :: u64) < w \<Longrightarrow> unat (w - 1) < unat w"
  by (simp add: unat_dec word_less_nat_alt word_gt_0_no)

lemma unat_plus_of_nat [simp]:
  assumes "unat (w :: u64) + n \<le> max_u64"
  shows "unat (w + of_nat n) = unat w + n"
  using assms by (simp add: unat_word_ariths unat_of_nat)

lemma unat_of_nat_u64 [simp]: "n \<le> max_u64 \<Longrightarrow> unat (of_nat n :: u64) = n"
  by (simp add: unat_of_nat)

lemma sint_u64: 
  assumes "int (unat (w :: u64)) \<le> max_int"
  shows "sint w = int (unat w)"
proof -
  have "uint w = int (unat w)" by simp
  moreover have "sint w = signed_take_bit 63 (uint w)" by (simp add: sint_uint)
  moreover have "signed_take_bit 63 (int (unat w)) = int (unat w)"
  proof (rule signed_take_bit_int_eq_self)
    have "- (2 ^ 63) \<le> (0 :: int)" by simp
    also have "0 \<le> int (unat w)" by (rule of_nat_0_le_iff)
    finally show "- (2 ^ 63) \<le> int (unat w)" .
    show "int (unat w) < 2 ^ 63" using assms by simp
  qed
  ultimately show ?thesis by simp
qed

lemma u64_eq_iff: "(v :: u64) = w \<longleftrightarrow> unat v = unat w"
  by (simp add: word_unat_eq_iff)

lemmas u64_nat = word_le_nat_alt word_less_nat_alt u64_eq_iff

section \<open>Majorities\<close>

lemma majorities_meet:
  assumes "finite N" "A \<subseteq> N" "B \<subseteq> N" "card N < 2 * card A" "card N < 2 * card B"
  shows "A \<inter> B \<noteq> {}"
proof
  assume "A \<inter> B = {}"
  moreover have "finite A" "finite B" using assms finite_subset by blast+
  ultimately have "card (A \<union> B) = card A + card B" by (simp add: card_Un_disjoint)
  moreover have "card (A \<union> B) \<le> card N" using assms by (intro card_mono) auto
  ultimately show False using assms by linarith
qed

end
