(* ===== verification/Raft_Log.thy ===== *)
theory Raft_Log
  imports Prelude
begin

text \<open>
  The in-memory Raft log (raft/log.go): a slice of entries whose first element is a
  sentinel that stands for everything up to the snapshot index. The operations keep
  the source's order of tests. Every operation that indexes or slices the entries returns an
  \<open>outcome\<close>: an index outside the slice panics (\<open>SliceOutOfRange\<close>), as do the two explicit
  tests for compacted entries. Then the well-formedness of a log (consecutive indexes, no
  wrap-around), under which no lookup leaves the slice, what each operation does to the
  content of the log, and the interface the node relies on as a locale.
\<close>

section \<open>Data and operations\<close>

record Entry =
  Index :: u64
  Term :: u64
  Command :: bytes

record raftLog =
  entries :: "Entry list"

definition sentinel :: "u64 \<Rightarrow> u64 \<Rightarrow> Entry" where
  "sentinel i t = \<lparr>Index = i, Term = t, Command = []\<rparr>"

definition newRaftLog :: raftLog where
  "newRaftLog = \<lparr>entries = [sentinel 0 0]\<rparr>"

definition snapshotIndex :: "raftLog \<Rightarrow> (u64, unit) outcome" where
  "snapshotIndex l = andThen (index_at (entries l) 0) (\<lambda>e. Ok (Index e))"

definition snapshotTerm :: "raftLog \<Rightarrow> (u64, unit) outcome" where
  "snapshotTerm l = andThen (index_at (entries l) 0) (\<lambda>e. Ok (Term e))"

definition lastIndex :: "raftLog \<Rightarrow> (u64, unit) outcome" where
  "lastIndex l = andThen (index_at (entries l) (int (length (entries l)) - 1)) (\<lambda>e. Ok (Index e))"

definition lastTerm :: "raftLog \<Rightarrow> (u64, unit) outcome" where
  "lastTerm l = andThen (index_at (entries l) (int (length (entries l)) - 1)) (\<lambda>e. Ok (Term e))"

text \<open>The conversion to \<open>int\<close> reads the 64-bit difference as a signed number.\<close>

definition pos :: "raftLog \<Rightarrow> u64 \<Rightarrow> (int, unit) outcome" where
  "pos l i = andThen (snapshotIndex l) (\<lambda>s. Ok (sint (i - s)))"

definition term_at :: "raftLog \<Rightarrow> u64 \<Rightarrow> (u64 \<times> bool, unit) outcome" where
  "term_at l i =
     andThen (snapshotIndex l)
       (\<lambda>s. if i < s then Ok (0, False)
            else andThen (lastIndex l)
              (\<lambda>e. if i > e then Ok (0, False)
                   else andThen (pos l i)
                     (\<lambda>p. andThen (index_at (entries l) p) (\<lambda>x. Ok (Term x, True)))))"

definition entriesFrom :: "raftLog \<Rightarrow> u64 \<Rightarrow> int \<Rightarrow> (Entry list, unit) outcome" where
  "entriesFrom l lo limit =
     andThen (snapshotIndex l)
       (\<lambda>s. if lo \<le> s then Panic EntriesCompacted ()
            else andThen (lastIndex l)
              (\<lambda>e. if lo > e then Ok []
                   else andThen (pos l lo)
                     (\<lambda>p. andThen (slice_from (entries l) p)
                       (\<lambda>src. if limit > 0 \<and> int (length src) > limit then slice_to src limit
                              else Ok src))))"

definition append_entries :: "raftLog \<Rightarrow> Entry list \<Rightarrow> raftLog" where
  "append_entries l es = l\<lparr>entries := entries l @ es\<rparr>"

definition truncateFrom :: "raftLog \<Rightarrow> u64 \<Rightarrow> (raftLog, raftLog) outcome" where
  "truncateFrom l i =
     within l (snapshotIndex l)
       (\<lambda>s. if i \<le> s then Panic TruncateCompacted l
            else within l (lastIndex l)
              (\<lambda>e. if i > e then Ok l
                   else within l (pos l i)
                     (\<lambda>p. within l (slice_to (entries l) p)
                       (\<lambda>es. Ok (l\<lparr>entries := es\<rparr>)))))"

definition matches :: "raftLog \<Rightarrow> u64 \<Rightarrow> u64 \<Rightarrow> (bool, unit) outcome" where
  "matches l index t = andThen (term_at l index) (\<lambda>(t', ok). Ok (ok \<and> t' = t))"

definition isUpToDate :: "raftLog \<Rightarrow> u64 \<Rightarrow> u64 \<Rightarrow> (bool, unit) outcome" where
  "isUpToDate l lt li =
     andThen (lastTerm l)
       (\<lambda>t. if lt \<noteq> t then Ok (lt > t)
            else andThen (lastIndex l) (\<lambda>e. Ok (li \<ge> e)))"

text \<open>The loop of \<open>lastIndexOfTerm\<close>, with \<open>p\<close> counting down to 1.\<close>

fun lastIndexOfTerm_loop :: "Entry list \<Rightarrow> u64 \<Rightarrow> nat \<Rightarrow> (u64 \<times> bool, unit) outcome" where
  "lastIndexOfTerm_loop es t 0 = Ok (0, False)"
| "lastIndexOfTerm_loop es t (Suc p) =
     andThen (index_at es (int (Suc p)))
       (\<lambda>e. if Term e = t then Ok (Index e, True)
            else if Term e < t then Ok (0, False)
            else lastIndexOfTerm_loop es t p)"

definition lastIndexOfTerm :: "raftLog \<Rightarrow> u64 \<Rightarrow> (u64 \<times> bool, unit) outcome" where
  "lastIndexOfTerm l t = lastIndexOfTerm_loop (entries l) t (length (entries l) - 1)"

definition compactTo :: "raftLog \<Rightarrow> u64 \<Rightarrow> u64 \<Rightarrow> (raftLog, raftLog) outcome" where
  "compactTo l index t =
     within l (pos l index)
       (\<lambda>p. within l (slice_from (entries l) (p + 1))
         (\<lambda>suffix. Ok (l\<lparr>entries := sentinel index t # suffix\<rparr>)))"

definition reset :: "raftLog \<Rightarrow> u64 \<Rightarrow> u64 \<Rightarrow> raftLog" where
  "reset l index t = l\<lparr>entries := [sentinel index t]\<rparr>"

section \<open>What the operations read\<close>

text \<open>
  The values the lookups read when the indexing does not panic, as total functions. They are
  the vocabulary of the specification; the lemmas below tie every lookup to them.
\<close>

definition first_index :: "raftLog \<Rightarrow> u64" where
  "first_index l = Index (hd (entries l))"

definition first_term :: "raftLog \<Rightarrow> u64" where
  "first_term l = Term (hd (entries l))"

definition end_index :: "raftLog \<Rightarrow> u64" where
  "end_index l = Index (last (entries l))"

definition end_term :: "raftLog \<Rightarrow> u64" where
  "end_term l = Term (last (entries l))"

definition offset :: "raftLog \<Rightarrow> u64 \<Rightarrow> nat" where
  "offset l i = unat (i - first_index l)"

definition term_of :: "raftLog \<Rightarrow> u64 \<Rightarrow> u64 \<times> bool" where
  "term_of l i =
     (if i < first_index l \<or> i > end_index l then (0, False)
      else (Term (entries l ! offset l i), True))"

definition agrees :: "raftLog \<Rightarrow> u64 \<Rightarrow> u64 \<Rightarrow> bool" where
  "agrees l i t \<longleftrightarrow> term_of l i = (t, True)"

definition covered_by :: "raftLog \<Rightarrow> u64 \<Rightarrow> u64 \<Rightarrow> bool" where
  "covered_by l lt li \<longleftrightarrow> lt > end_term l \<or> lt = end_term l \<and> li \<ge> end_index l"

section \<open>Well-formed logs\<close>

text \<open>
  The indexes of a well-formed log count up by one from the sentinel's and do not wrap
  around: the natural number at position \<open>p\<close> is the sentinel's plus \<open>p\<close>. A Go slice
  has at most \<open>2 ^ 63 - 1\<close> elements (its length is an \<open>int\<close>), so the conversion
  \<open>int(i - first_index)\<close> in \<open>offset\<close> is the natural number for every valid position.
\<close>

definition log_wf :: "raftLog \<Rightarrow> bool" where
  "log_wf l \<longleftrightarrow> entries l \<noteq> [] \<and> int (length (entries l)) \<le> max_int \<and>
     (\<forall>p < length (entries l). unat (Index (entries l ! p)) = unat (first_index l) + p)"

definition terms_sorted :: "raftLog \<Rightarrow> bool" where
  "terms_sorted l \<longleftrightarrow> sorted (map Term (entries l))"

text \<open>Entries that continue a log whose last index is \<open>i\<close>.\<close>

definition follow_on :: "u64 \<Rightarrow> Entry list \<Rightarrow> bool" where
  "follow_on i es \<longleftrightarrow> (\<forall>k < length es. unat (Index (es ! k)) = unat i + 1 + k)"

text \<open>The abstract content of a log: which entry, if any, an index holds.\<close>

definition entry_at :: "raftLog \<Rightarrow> nat \<Rightarrow> Entry option" where
  "entry_at l i =
     (if unat (first_index l) < i \<and> i < unat (first_index l) + length (entries l)
      then Some (entries l ! (i - unat (first_index l))) else None)"

lemma log_wf_nonempty [simp]: "log_wf l \<Longrightarrow> entries l \<noteq> []"
  by (simp add: log_wf_def)

lemma log_wf_Index:
  "log_wf l \<Longrightarrow> p < length (entries l) \<Longrightarrow>
   unat (Index (entries l ! p)) = unat (first_index l) + p"
  by (simp add: log_wf_def)

lemma unat_end_index:
  assumes "log_wf l"
  shows "unat (end_index l) = unat (first_index l) + (length (entries l) - 1)"
  using assms log_wf_Index [of l "length (entries l) - 1"]
  by (simp add: end_index_def last_conv_nth)

lemma first_index_le_end_index: "log_wf l \<Longrightarrow> first_index l \<le> end_index l"
  by (simp add: word_le_nat_alt unat_end_index)

lemma offset_eq:
  "first_index l \<le> i \<Longrightarrow> offset l i = unat i - unat (first_index l)"
  by (simp add: offset_def unat_sub)

lemma offset_less:
  assumes "log_wf l" "first_index l \<le> i" "i \<le> end_index l"
  shows "offset l i < length (entries l)"
proof -
  have "unat i \<le> unat (first_index l) + (length (entries l) - 1)"
    using assms by (simp add: word_le_nat_alt unat_end_index)
  moreover have "unat (first_index l) \<le> unat i" using assms by (simp add: word_le_nat_alt)
  moreover have "0 < length (entries l)" using assms by simp
  ultimately have "unat i - unat (first_index l) < length (entries l)" by linarith
  with assms(2) show ?thesis by (simp add: offset_eq)
qed

lemma Index_offset:
  assumes "log_wf l" "first_index l \<le> i" "i \<le> end_index l"
  shows "Index (entries l ! offset l i) = i"
  using assms offset_less [OF assms] log_wf_Index [of l "offset l i"]
  by (simp add: u64_eq_iff offset_eq word_le_nat_alt)

text \<open>A log that is not empty has a first and a last entry to read; only an empty one panics.\<close>

lemma log_ends:
  assumes "entries l \<noteq> []"
  shows "snapshotIndex l = Ok (first_index l)" "snapshotTerm l = Ok (first_term l)"
    "lastIndex l = Ok (end_index l)" "lastTerm l = Ok (end_term l)"
    "pos l i = Ok (sint (i - first_index l))" "isUpToDate l lt li = Ok (covered_by l lt li)"
  using assms
  by (auto simp: snapshotIndex_def snapshotTerm_def lastIndex_def lastTerm_def pos_def isUpToDate_def covered_by_def
      index_at_first index_at_last first_index_def first_term_def end_index_def end_term_def)

lemma empty_log_panics:
  assumes "entries l = []"
  shows "snapshotIndex l = Panic SliceOutOfRange ()" "lastIndex l = Panic SliceOutOfRange ()"
    "lastTerm l = Panic SliceOutOfRange ()" "term_at l i = Panic SliceOutOfRange ()"
    "entriesFrom l i k = Panic SliceOutOfRange ()" "truncateFrom l i = Panic SliceOutOfRange l"
  using assms
  by (simp_all add: snapshotIndex_def lastIndex_def lastTerm_def term_at_def entriesFrom_def truncateFrom_def index_at_def)

lemma on_Ok_log_ends:
  "on_Ok (\<lambda>i. i = end_index l) (lastIndex l)" "on_Ok (\<lambda>t. t = end_term l) (lastTerm l)"
  "on_Ok (\<lambda>b. b = covered_by l lt li) (isUpToDate l lt li)"
proof -
  have "on_Ok (\<lambda>i. i = end_index l) (lastIndex l) \<and> on_Ok (\<lambda>t. t = end_term l) (lastTerm l) \<and>
    on_Ok (\<lambda>b. b = covered_by l lt li) (isUpToDate l lt li)"
    by (cases "entries l = []") (auto simp: log_ends empty_log_panics isUpToDate_def covered_by_def)
  then show "on_Ok (\<lambda>i. i = end_index l) (lastIndex l)" "on_Ok (\<lambda>t. t = end_term l) (lastTerm l)"
    "on_Ok (\<lambda>b. b = covered_by l lt li) (isUpToDate l lt li)" by simp_all
qed

text \<open>On a well-formed log no position leaves the slice.\<close>

lemma pos_wf:
  assumes "log_wf l" "first_index l \<le> i" "i \<le> end_index l"
  shows "pos l i = Ok (int (offset l i))"
proof -
  have "offset l i < length (entries l)" using assms by (rule offset_less)
  moreover have "int (length (entries l)) \<le> max_int" using assms(1) by (simp add: log_wf_def)
  ultimately have "int (unat (i - first_index l)) \<le> max_int" unfolding offset_def by linarith
  with assms(1) show ?thesis by (simp add: log_ends offset_def sint_u64)
qed

lemma term_at_inside:
  assumes "entries l \<noteq> []" "first_index l \<le> i" "i \<le> end_index l"
    and "offset l i < length (entries l)" "int (offset l i) \<le> max_int"
  shows "term_at l i = Ok (Term (entries l ! offset l i), True)"
proof -
  have "sint (i - first_index l) = int (offset l i)" using assms(5) by (simp add: offset_def sint_u64)
  then show ?thesis using assms(1-4) by (simp add: term_at_def log_ends not_less)
qed

lemma term_at_wf: "log_wf l \<Longrightarrow> term_at l i = Ok (term_of l i)"
  by (auto simp: term_at_def term_of_def log_ends(1,3) pos_wf offset_less)

lemma matches_wf: "log_wf l \<Longrightarrow> matches l i t = Ok (agrees l i t)"
  by (auto simp: matches_def agrees_def term_at_wf split: prod.split)

lemma entriesFrom_wf:
  assumes "log_wf l"
  shows "entriesFrom l lo limit =
     (if lo \<le> first_index l then Panic EntriesCompacted ()
      else if lo > end_index l then Ok []
      else let src = drop (offset l lo) (entries l)
           in Ok (if limit > 0 \<and> int (length src) > limit then take (nat limit) src else src))"
proof (cases "first_index l < lo \<and> lo \<le> end_index l")
  case True
  then have "pos l lo = Ok (int (offset l lo))" "offset l lo \<le> length (entries l)"
    using assms less_imp_le [OF offset_less, of l lo] by (auto simp: pos_wf)
  with True assms show ?thesis by (auto simp: entriesFrom_def log_ends(1,3) Let_def slice_to_def)
qed (use assms in \<open>auto simp: entriesFrom_def log_ends(1,3)\<close>)

lemma truncateFrom_wf:
  assumes "log_wf l"
  shows "truncateFrom l i =
     (if i \<le> first_index l then Panic TruncateCompacted l
      else if i > end_index l then Ok l
      else Ok (l\<lparr>entries := take (offset l i) (entries l)\<rparr>))"
proof (cases "first_index l < i \<and> i \<le> end_index l")
  case True
  then have "pos l i = Ok (int (offset l i))" "offset l i \<le> length (entries l)"
    using assms less_imp_le [OF offset_less, of l i] by (auto simp: pos_wf)
  with True assms show ?thesis by (auto simp: truncateFrom_def log_ends(1,3))
qed (use assms in \<open>auto simp: truncateFrom_def log_ends(1,3)\<close>)

lemmas log_reads = log_ends(3,4,6) term_at_wf matches_wf

lemma first_index_append [simp]:
  "entries l \<noteq> [] \<Longrightarrow> first_index (append_entries l es) = first_index l"
  by (simp add: first_index_def append_entries_def)

lemma log_wf_append:
  assumes "log_wf l" "follow_on (end_index l) es" "int (length (entries l) + length es) \<le> max_int"
  shows "log_wf (append_entries l es)"
proof -
  have ne: "entries l \<noteq> []" using assms by simp
  have "unat (Index ((entries l @ es) ! p)) = unat (first_index l) + p"
    if "p < length (entries l) + length es" for p
  proof (cases "p < length (entries l)")
    case True
    then show ?thesis using assms by (simp add: nth_append log_wf_Index)
  next
    case False
    then have "unat (Index (es ! (p - length (entries l)))) =
        unat (end_index l) + 1 + (p - length (entries l))"
      using that assms(2) by (simp add: follow_on_def)
    moreover have "0 < length (entries l)" using ne by simp
    ultimately show ?thesis using False assms(1) by (simp add: nth_append unat_end_index)
  qed
  with ne assms(3) show ?thesis
    by (simp add: log_wf_def) (simp add: append_entries_def)
qed

lemma log_wf_take:
  assumes "log_wf l" "0 < n"
  shows "log_wf (l\<lparr>entries := take n (entries l)\<rparr>)"
  using assms by (auto simp: log_wf_def first_index_def hd_take)

section \<open>What each operation does to the content\<close>

lemma first_index_take [simp]:
  "0 < n \<Longrightarrow> first_index (l\<lparr>entries := take n (entries l)\<rparr>) = first_index l"
  by (simp add: first_index_def hd_take)

lemma entry_at_None_beyond:
  "log_wf l \<Longrightarrow> unat (end_index l) < i \<Longrightarrow> entry_at l i = None"
  by (auto simp: entry_at_def unat_end_index)

lemma entry_at_Index:
  "log_wf l \<Longrightarrow> entry_at l i = Some e \<Longrightarrow> unat (Index e) = i"
  by (auto simp: entry_at_def log_wf_Index split: if_splits)

lemma entry_at_SomeI:
  assumes "log_wf l" "unat (first_index l) < i" "i \<le> unat (end_index l)"
  shows "entry_at l i = Some (entries l ! (i - unat (first_index l)))"
proof -
  have "0 < length (entries l)" using assms by simp
  then show ?thesis using assms by (auto simp: entry_at_def unat_end_index)
qed

lemma entry_at_append:
  assumes "log_wf l" "follow_on (end_index l) es"
  shows "entry_at (append_entries l es) i =
    (if unat (end_index l) < i \<and> i \<le> unat (end_index l) + length es
     then Some (es ! (i - unat (end_index l) - 1)) else entry_at l i)"
proof -
  obtain n where n: "length (entries l) = Suc n"
    using assms(1) by (cases "entries l") auto
  then have last: "unat (end_index l) = unat (first_index l) + n"
    using assms(1) by (simp add: unat_end_index)
  have es: "entries (append_entries l es) = entries l @ es" by (simp add: append_entries_def)
  show ?thesis
    using assms(1) n by (auto simp: entry_at_def es last nth_append)
qed

lemma truncateFrom_Ok:
  assumes "log_wf l" "first_index l < i"
  shows "\<exists>l'. truncateFrom l i = Ok l' \<and> log_wf l' \<and> first_index l' = first_index l \<and>
     (\<forall>k. entry_at l' k = (if k < unat i then entry_at l k else None))"
proof (cases "i > end_index l")
  case True
  then have "entry_at l k = None" if "unat i \<le> k" for k
    using that assms(1) by (intro entry_at_None_beyond) (auto simp: word_less_nat_alt)
  with True assms show ?thesis by (auto simp: truncateFrom_wf)
next
  case False
  let ?l = "l\<lparr>entries := take (offset l i) (entries l)\<rparr>"
  have si: "unat (first_index l) < unat i" using assms(2) by (simp add: word_less_nat_alt)
  have p: "offset l i = unat i - unat (first_index l)" using assms(2) by (simp add: offset_eq)
  then have offset: "0 < offset l i" using si by simp
  have len: "offset l i < length (entries l)" using False assms by (intro offset_less) auto
  have "entry_at ?l k = (if k < unat i then entry_at l k else None)" for k
    using offset len si by (auto simp: entry_at_def p)
  moreover have "log_wf ?l" using assms(1) offset by (rule log_wf_take)
  moreover have "first_index ?l = first_index l" using offset by simp
  ultimately show ?thesis using False assms by (simp add: truncateFrom_wf)
qed

lemma truncateFrom_end_index:
  assumes "log_wf l" "first_index l < i" "i \<le> end_index l" "truncateFrom l i = Ok l'"
  shows "unat (end_index l') = unat i - 1"
proof -
  have l': "l' = l\<lparr>entries := take (offset l i) (entries l)\<rparr>" and wf: "log_wf l'"
    using assms truncateFrom_Ok [of l i] by (auto simp: truncateFrom_wf split: if_splits)
  have "offset l i < length (entries l)" using assms by (intro offset_less) auto
  moreover have "offset l i = unat i - unat (first_index l)" using assms(2) by (simp add: offset_eq)
  moreover have "unat (first_index l) < unat i" using assms(2) by (simp add: word_less_nat_alt)
  ultimately show ?thesis using wf by (simp add: unat_end_index) (simp add: l')
qed

lemma term_of_entry_at:
  assumes "log_wf l"
  shows "term_of l i =
    (if i = first_index l then (first_term l, True)
     else case entry_at l (unat i) of None \<Rightarrow> (0, False) | Some e \<Rightarrow> (Term e, True))"
proof (cases "i < first_index l \<or> i > end_index l")
  case True
  then have "entry_at l (unat i) = None"
    using assms by (auto simp: entry_at_def unat_end_index word_less_nat_alt)
  moreover have "i \<noteq> first_index l"
    using True first_index_le_end_index [OF assms] by auto
  ultimately show ?thesis using True by (auto simp: term_of_def)
next
  case False
  show ?thesis
  proof (cases "i = first_index l")
    case True
    then show ?thesis using False assms
      by (simp add: term_of_def offset_def first_term_def hd_conv_nth)
  next
    case ne: False
    then have "entry_at l (unat i) = Some (entries l ! (unat i - unat (first_index l)))"
      using False assms by (intro entry_at_SomeI) (auto simp: word_le_nat_alt word_less_nat_alt u64_eq_iff)
    moreover have "offset l i = unat i - unat (first_index l)"
      using False by (intro offset_eq) (simp add: not_less)
    ultimately show ?thesis using False ne by (simp add: term_of_def)
  qed
qed

lemma entriesFrom_Ok:
  assumes "log_wf l" "first_index l < lo"
  obtains es where "entriesFrom l lo limit = Ok es"
    "length es = (if limit > 0 then min (unat (end_index l) + 1 - unat lo) (nat limit)
                  else unat (end_index l) + 1 - unat lo)"
    "\<And>k. k < length es \<Longrightarrow> entry_at l (unat lo + k) = Some (es ! k)"
proof (cases "lo > end_index l")
  case True
  then have "unat (end_index l) + 1 - unat lo = 0" by (simp add: word_less_nat_alt)
  then show thesis using True assms by (intro that [of "[]"]) (auto simp: entriesFrom_wf)
next
  case False
  let ?src = "drop (offset l lo) (entries l)"
  let ?es = "if limit > 0 \<and> int (length ?src) > limit then take (nat limit) ?src else ?src"
  have s: "unat (first_index l) < unat lo" using assms(2) by (simp add: word_less_nat_alt)
  have p: "offset l lo = unat lo - unat (first_index l)" using assms(2) by (simp add: offset_eq)
  have len: "offset l lo < length (entries l)" using False assms by (intro offset_less) auto
  have src: "length ?src = unat (end_index l) + 1 - unat lo"
    using len s p assms(1) by (simp add: unat_end_index)
  have "entry_at l (unat lo + k) = Some (?es ! k)" if "k < length ?es" for k
  proof -
    have k: "k < length ?src" using that by (auto split: if_splits)
    then have "entry_at l (unat lo + k) = Some (entries l ! (unat lo + k - unat (first_index l)))"
      using s p by (auto simp: entry_at_def)
    also have "unat lo + k - unat (first_index l) = offset l lo + k" using s p by simp
    finally show ?thesis using k that by auto
  qed
  moreover have "entriesFrom l lo limit = Ok ?es"
    using False assms by (simp add: entriesFrom_wf Let_def)
  moreover have "length ?es = (if limit > 0 then min (unat (end_index l) + 1 - unat lo) (nat limit)
                  else unat (end_index l) + 1 - unat lo)"
    using src by (auto simp: min_def)
  ultimately show thesis by (intro that) auto
qed

lemma lastIndexOfTerm_loop_found:
  "lastIndexOfTerm_loop es t p = Ok (i, True) \<Longrightarrow> p < length es \<Longrightarrow>
   \<exists>q. 1 \<le> q \<and> q \<le> p \<and> Term (es ! q) = t \<and> i = Index (es ! q) \<and>
       (\<forall>r. q < r \<and> r \<le> p \<longrightarrow> Term (es ! r) \<noteq> t)"
proof (induction p)
  case (Suc p)
  show ?case
  proof (cases "Term (es ! Suc p) = t")
    case True
    with Suc.prems show ?thesis by (intro exI [of _ "Suc p"]) (auto simp del: of_nat_Suc)
  next
    case False
    with Suc.prems have "lastIndexOfTerm_loop es t p = Ok (i, True)" by (auto simp del: of_nat_Suc split: if_splits)
    from Suc.IH [OF this] Suc.prems(2) False show ?thesis by (auto simp: le_Suc_eq)
  qed
qed simp

lemma lastIndexOfTerm_loop_not_found:
  assumes "sorted (map Term es)" "p < length es" "lastIndexOfTerm_loop es t p = Ok (i, False)"
  shows "i = 0 \<and> (\<forall>q. 1 \<le> q \<and> q \<le> p \<longrightarrow> Term (es ! q) \<noteq> t)"
  using assms(2,3)
proof (induction p)
  case (Suc p)
  have ne: "Term (es ! Suc p) \<noteq> t" using Suc.prems by (auto simp del: of_nat_Suc)
  show ?case
  proof (cases "Term (es ! Suc p) < t")
    case True
    have "Term (es ! q) \<le> Term (es ! Suc p)" if "q \<le> Suc p" for q
      using sorted_nth_mono [OF assms(1), of q "Suc p"] that Suc.prems(1) by simp
    with True have "Term (es ! q) \<noteq> t" if "q \<le> Suc p" for q
      using that leD by blast
    with True ne Suc.prems show ?thesis by (auto simp del: of_nat_Suc)
  next
    case False
    with ne Suc.prems have "lastIndexOfTerm_loop es t p = Ok (i, False)" by (auto simp del: of_nat_Suc)
    with Suc.IH Suc.prems(1) ne show ?thesis by (auto simp: le_Suc_eq)
  qed
qed simp

lemma lastIndexOfTerm_loop_Ok:
  "p < length es \<Longrightarrow> \<exists>r. lastIndexOfTerm_loop es t p = Ok r"
  by (induction p) (auto simp del: of_nat_Suc)

lemma entry_at_position:
  assumes "log_wf l"
  shows "entry_at l k = Some e \<longleftrightarrow>
    (\<exists>q. 1 \<le> q \<and> q < length (entries l) \<and> k = unat (first_index l) + q \<and> e = entries l ! q)"
proof
  assume "entry_at l k = Some e"
  then show "\<exists>q. 1 \<le> q \<and> q < length (entries l) \<and> k = unat (first_index l) + q \<and> e = entries l ! q"
    by (intro exI [of _ "k - unat (first_index l)"]) (auto simp: entry_at_def split: if_splits)
qed (auto simp: entry_at_def)

section \<open>The interface the node relies on\<close>

text \<open>
  A log indexed by natural numbers: a lookup, appending at the end, and cutting off
  everything from an index on. The laws are what the node's reconciliation of its own
  log with a leader's needs; \<open>overwrite_at\<close> is its step.
\<close>

locale indexed_log =
  fixes inv :: "'l \<Rightarrow> bool"
    and base :: "'l \<Rightarrow> nat"
    and lst :: "'l \<Rightarrow> nat"
    and at :: "'l \<Rightarrow> nat \<Rightarrow> 'e option"
    and fits :: "'l \<Rightarrow> 'e list \<Rightarrow> bool"
    and app :: "'l \<Rightarrow> 'e list \<Rightarrow> 'l"
    and cut :: "'l \<Rightarrow> nat \<Rightarrow> 'l"
  assumes at_dom: "inv l \<Longrightarrow> at l i \<noteq> None \<longleftrightarrow> base l < i \<and> i \<le> lst l"
    and inv_app: "inv l \<Longrightarrow> fits l es \<Longrightarrow> inv (app l es)"
    and at_app: "inv l \<Longrightarrow> fits l es \<Longrightarrow>
          at (app l es) i = (if lst l < i \<and> i \<le> lst l + length es
                             then Some (es ! (i - lst l - 1)) else at l i)"
    and inv_cut: "inv l \<Longrightarrow> base l < i \<Longrightarrow> i \<le> lst l \<Longrightarrow> inv (cut l i)"
    and lst_cut: "inv l \<Longrightarrow> base l < i \<Longrightarrow> i \<le> lst l \<Longrightarrow> lst (cut l i) = i - 1"
    and at_cut: "inv l \<Longrightarrow> base l < i \<Longrightarrow> i \<le> lst l \<Longrightarrow>
          at (cut l i) k = (if k < i then at l k else None)"
begin

lemma overwrite_at:
  assumes "inv l" "base l < i" "i \<le> lst l" "fits (cut l i) es"
  shows "inv (app (cut l i) es)"
    and "at (app (cut l i) es) k =
      (if k < i then at l k else if k < i + length es then Some (es ! (k - i)) else None)"
proof -
  have c: "inv (cut l i)" "lst (cut l i) = i - 1"
    using assms inv_cut lst_cut by auto
  with assms show "inv (app (cut l i) es)" by (simp add: inv_app)
  show "at (app (cut l i) es) k =
      (if k < i then at l k else if k < i + length es then Some (es ! (k - i)) else None)"
    using assms c by (auto simp: at_app at_cut)
qed

lemma extend_at:
  assumes "inv l" "fits l es" "at l k = Some e"
  shows "at (app l es) k = Some e"
  using assms at_dom [of l k] by (auto simp: at_app)

end

definition log_fits :: "raftLog \<Rightarrow> Entry list \<Rightarrow> bool" where
  "log_fits l es \<longleftrightarrow> follow_on (end_index l) es \<and> int (length (entries l) + length es) \<le> max_int"

definition log_cut :: "raftLog \<Rightarrow> nat \<Rightarrow> raftLog" where
  "log_cut l i = (case truncateFrom l (of_nat i) of Ok l' \<Rightarrow> l' | Panic _ l' \<Rightarrow> l')"

lemma log_cut_facts:
  assumes "log_wf l" "unat (first_index l) < i" "i \<le> unat (end_index l)"
  shows "truncateFrom l (of_nat i) = Ok (log_cut l i)" "log_wf (log_cut l i)"
    "unat (end_index (log_cut l i)) = i - 1"
    "entry_at (log_cut l i) k = (if k < i then entry_at l k else None)"
proof -
  have i: "unat (of_nat i :: u64) = i"
    using assms(3) unat_u64_le [of "end_index l"] by (intro unat_of_nat_u64) linarith
  then have lt: "first_index l < of_nat i" and le: "of_nat i \<le> end_index l"
    using assms by (simp_all add: word_less_nat_alt word_le_nat_alt)
  from truncateFrom_Ok [OF assms(1) lt] obtain l' where
    l': "truncateFrom l (of_nat i) = Ok l'" "log_wf l'"
      "\<And>k. entry_at l' k = (if k < i then entry_at l k else None)"
    by (auto simp: i)
  then have c: "log_cut l i = l'" by (simp add: log_cut_def)
  show "truncateFrom l (of_nat i) = Ok (log_cut l i)" "log_wf (log_cut l i)"
    "entry_at (log_cut l i) k = (if k < i then entry_at l k else None)"
    using l' c by simp_all
  show "unat (end_index (log_cut l i)) = i - 1"
    using truncateFrom_end_index [OF assms(1) lt le l'(1)] c i by simp
qed

interpretation rlog: indexed_log log_wf "\<lambda>l. unat (first_index l)" "\<lambda>l. unat (end_index l)"
  entry_at log_fits append_entries log_cut
proof
  fix l :: raftLog and i
  assume "log_wf l"
  then show "entry_at l i \<noteq> None \<longleftrightarrow> unat (first_index l) < i \<and> i \<le> unat (end_index l)"
    using entry_at_SomeI [of l i] entry_at_None_beyond [of l i]
    by (cases "unat (end_index l) < i") (auto simp: entry_at_def)
next
  fix l :: raftLog and i and es :: "Entry list"
  assume wf: "log_wf l" and fits: "log_fits l es"
  from wf fits show "log_wf (append_entries l es)" by (simp add: log_fits_def log_wf_append)
  from wf fits show "entry_at (append_entries l es) i =
      (if unat (end_index l) < i \<and> i \<le> unat (end_index l) + length es
       then Some (es ! (i - unat (end_index l) - 1)) else entry_at l i)"
    by (simp add: log_fits_def entry_at_append)
qed (simp_all add: log_cut_facts)

section \<open>Properties\<close>

definition example_log :: raftLog where
  "example_log = \<lparr>entries =
     [sentinel 0 0, \<lparr>Index = 1, Term = 1, Command = [7]\<rparr>,
      \<lparr>Index = 2, Term = 1, Command = [8]\<rparr>, \<lparr>Index = 3, Term = 2, Command = [9]\<rparr>]\<rparr>"

lemma example_log_wf: "log_wf example_log" "terms_sorted example_log"
  by code_simp+

lemma example_log_facts:
  "first_index example_log = 0" "end_index example_log = 3"
  "length (entries example_log) = 4"
  "entry_at example_log 3 = Some \<lparr>Index = 3, Term = 2, Command = [9]\<rparr>"
  by code_simp+

text \<open>
  Lookups never leave the slice: on a well-formed log every index between the
  snapshot index and the last index has a position inside the slice, the entry there
  carries that index, and \<open>term\<close> answers exactly from the log's content (with the
  sentinel's term at the snapshot index) and "not found" everywhere else.
\<close>

lemma term_of_correct:
  assumes "log_wf l"
  shows "(first_index l \<le> i \<and> i \<le> end_index l \<longrightarrow>
            offset l i < length (entries l) \<and> Index (entries l ! offset l i) = i) \<and>
         term_at l i = Ok
           (if i = first_index l then (first_term l, True)
            else case entry_at l (unat i) of
                None \<Rightarrow> (0, False) | Some e \<Rightarrow> (Term e, True))"
  using assms by (simp add: offset_less Index_offset term_at_wf term_of_entry_at)

text \<open>
  C15. \<open>entriesFrom\<close> returns a copy of the log's content: above the snapshot index it
  never panics, it returns all entries from \<open>lo\<close> on, cut to \<open>limit\<close> when the limit is
  positive, and the k-th returned entry is the one stored at index \<open>lo + k\<close>. At or below
  the snapshot index it panics.
\<close>

theorem entriesFrom_correct:
  assumes "log_wf l"
  shows "if lo \<le> first_index l then entriesFrom l lo limit = Panic EntriesCompacted ()
         else \<exists>es. entriesFrom l lo limit = Ok es \<and>
           length es = (if limit > 0 then min (unat (end_index l) + 1 - unat lo) (nat limit)
                        else unat (end_index l) + 1 - unat lo) \<and>
           (\<forall>k < length es. entry_at l (unat lo + k) = Some (es ! k))"
proof (cases "lo \<le> first_index l")
  case True
  then show ?thesis using assms by (simp add: entriesFrom_wf)
next
  case False
  then have "first_index l < lo" by simp
  from assms this obtain es where "entriesFrom l lo limit = Ok es"
    "length es = (if limit > 0 then min (unat (end_index l) + 1 - unat lo) (nat limit)
                  else unat (end_index l) + 1 - unat lo)"
    "\<And>k. k < length es \<Longrightarrow> entry_at l (unat lo + k) = Some (es ! k)"
    by (rule entriesFrom_Ok [where limit = limit]) blast
  with False show ?thesis by (auto intro!: exI [of _ es])
qed

theorem entriesFrom_correct_witness:
  "log_wf example_log \<and> (\<exists>es. entriesFrom example_log 2 1 = Ok es \<and> length es = 1 \<and>
     entry_at example_log (Suc (Suc 0)) = Some (es ! 0))"
proof -
  have "\<not> (2 :: u64) \<le> first_index example_log" by (simp add: example_log_facts)
  with entriesFrom_correct [OF example_log_wf(1), of 2 1] example_log_wf(1)
  show ?thesis by (auto simp: example_log_facts)
qed

text \<open>
  C16. Replacing a suffix: cutting a well-formed log at an index above the snapshot and
  appending entries that continue it keeps the log well-formed, leaves every entry below
  the cut unchanged, and holds exactly the new entries from the cut on. This is the step
  \<open>HandleAppendEntries\<close> takes on a conflict.
\<close>

theorem truncate_append_correct:
  assumes "log_wf l" "first_index l < i" "i \<le> end_index l"
    and "follow_on (i - 1) es" "int (unat i - unat (first_index l) + length es) \<le> max_int"
  shows "\<exists>l1. truncateFrom l i = Ok l1 \<and> log_wf (append_entries l1 es) \<and>
    (\<forall>k. entry_at (append_entries l1 es) k =
      (if k < unat i then entry_at l k
       else if k < unat i + length es then Some (es ! (k - unat i)) else None))"
proof -
  have b: "unat (first_index l) < unat i" "unat i \<le> unat (end_index l)"
    using assms by (simp_all add: word_less_nat_alt word_le_nat_alt)
  have i: "of_nat (unat i) = i" by simp
  note cut = log_cut_facts [OF assms(1) b, unfolded i]
  have "unat (end_index (log_cut l (unat i))) = unat (i - 1)"
    using cut(3) b by (simp add: unat_dec word_gt_0_no word_less_nat_alt)
  then have li: "end_index (log_cut l (unat i)) = i - 1" by (simp add: u64_eq_iff)
  have len: "length (entries (log_cut l (unat i))) = unat i - unat (first_index l)"
    using cut(1) assms offset_less [OF assms(1) less_imp_le [OF assms(2)] assms(3)]
    by (auto simp: truncateFrom_wf offset_eq dest!: sym [of _ "log_cut l (unat i)"] split: if_splits)
  have "log_fits (log_cut l (unat i)) es"
    using assms li len by (simp add: log_fits_def)
  from rlog.overwrite_at [OF assms(1) b this] cut(1) show ?thesis by blast
qed

theorem truncate_append_correct_witness:
  "\<exists>l1. truncateFrom example_log 2 = Ok l1 \<and>
     entry_at (append_entries l1 [\<lparr>Index = 2, Term = 3, Command = []\<rparr>]) 1 =
       entry_at example_log 1 \<and>
     entry_at (append_entries l1 [\<lparr>Index = 2, Term = 3, Command = []\<rparr>]) 3 = None"
proof -
  have "\<exists>l1. truncateFrom example_log 2 = Ok l1 \<and>
      log_wf (append_entries l1 [\<lparr>Index = 2, Term = 3, Command = []\<rparr>]) \<and>
      (\<forall>k. entry_at (append_entries l1 [\<lparr>Index = 2, Term = 3, Command = []\<rparr>]) k =
        (if k < unat (2 :: u64) then entry_at example_log k
         else if k < unat (2 :: u64) + length [\<lparr>Index = 2 :: u64, Term = 3 :: u64, Command = [] :: bytes\<rparr>]
         then Some ([\<lparr>Index = 2, Term = 3, Command = []\<rparr>] ! (k - unat (2 :: u64))) else None))"
    using example_log_wf(1)
    by (rule truncate_append_correct)
      (simp_all add: example_log_facts follow_on_def)
  then show ?thesis by auto
qed

text \<open>
  \<open>lastIndexOfTerm\<close>, which stops scanning at the first smaller term, is correct on
  logs whose terms do not decrease: it finds the highest in-memory index that holds the
  term, and reports "not found" exactly when no entry holds it.
\<close>

lemma lastIndexOfTerm_correct:
  assumes "log_wf l" "terms_sorted l"
  shows "(case lastIndexOfTerm l t of
      Panic p m \<Rightarrow> False
    | Ok (i, True) \<Rightarrow> (\<exists>e. entry_at l (unat i) = Some e \<and> Term e = t) \<and>
                   (\<forall>k e. entry_at l k = Some e \<and> Term e = t \<longrightarrow> k \<le> unat i)
    | Ok (i, False) \<Rightarrow> i = 0 \<and> (\<forall>k e. entry_at l k = Some e \<longrightarrow> Term e \<noteq> t))"
proof -
  have len: "0 < length (entries l)" using assms(1) by simp
  then obtain i b where r: "lastIndexOfTerm l t = Ok (i, b)"
    using lastIndexOfTerm_loop_Ok [of "length (entries l) - 1" "entries l" t] by (auto simp: lastIndexOfTerm_def)
  show ?thesis
  proof (cases b)
    case True
    with r have "lastIndexOfTerm_loop (entries l) t (length (entries l) - 1) = Ok (i, True)"
      by (simp add: lastIndexOfTerm_def)
    from lastIndexOfTerm_loop_found [OF this diff_less [OF zero_less_one len]] obtain q where
      q: "1 \<le> q" "q \<le> length (entries l) - 1" "Term (entries l ! q) = t" "i = Index (entries l ! q)"
        "\<And>r. q < r \<Longrightarrow> r \<le> length (entries l) - 1 \<Longrightarrow> Term (entries l ! r) \<noteq> t"
      by blast
    then have i: "unat i = unat (first_index l) + q"
      using len assms(1) by (simp add: log_wf_Index)
    have "k \<le> unat i" if e: "entry_at l k = Some e" "Term e = t" for k e
    proof -
      obtain r where "r < length (entries l)" "k = unat (first_index l) + r" "e = entries l ! r"
        using e(1) assms(1) by (auto simp: entry_at_position)
      moreover from this have "\<not> q < r" using q(5) [of r] e(2) by fastforce
      ultimately show ?thesis using i by simp
    qed
    then show ?thesis using r True q i len assms(1) by (auto simp: entry_at_position)
  next
    case False
    with r have "lastIndexOfTerm_loop (entries l) t (length (entries l) - 1) = Ok (i, False)"
      by (simp add: lastIndexOfTerm_def)
    then have "i = 0 \<and> (\<forall>q. 1 \<le> q \<and> q \<le> length (entries l) - 1 \<longrightarrow> Term (entries l ! q) \<noteq> t)"
      using len assms(2) by (intro lastIndexOfTerm_loop_not_found) (auto simp: terms_sorted_def)
    then show ?thesis using r False assms(1) by (auto simp: entry_at_position)
  qed
qed

text \<open>
  \<open>compactTo\<close> at an index of the log keeps exactly the content above that index: the
  new sentinel carries the given index and term, the last index is unchanged, and no
  entry above the index is lost or altered.
\<close>

lemma compactTo_correct:
  assumes "log_wf l" "first_index l \<le> index" "index \<le> end_index l"
  shows "\<exists>l'. compactTo l index t = Ok l' \<and> log_wf l' \<and>
     first_index l' = index \<and> first_term l' = t \<and> end_index l' = end_index l \<and>
     (\<forall>k. entry_at l' k = (if k \<le> unat index then None else entry_at l k))"
proof -
  let ?l = "l\<lparr>entries := sentinel index t # drop (Suc (offset l index)) (entries l)\<rparr>"
  have p: "offset l index < length (entries l)" using assms by (rule offset_less)
  have pe: "unat index = unat (first_index l) + offset l index"
    using assms by (simp add: offset_eq word_le_nat_alt)
  have s: "first_index ?l = index" "first_term ?l = t"
    by (simp_all add: first_index_def first_term_def sentinel_def)
  have "unat (Index ((sentinel index t # drop (Suc (offset l index)) (entries l)) ! q)) = unat index + q"
    if "q < Suc (length (entries l) - (Suc (offset l index)))" for q
    using that assms(1) pe by (cases q) (auto simp: sentinel_def log_wf_Index)
  moreover have "int (Suc (length (entries l) - (Suc (offset l index)))) \<le> max_int"
    using assms(1) p by (auto simp: log_wf_def)
  ultimately have wf: "log_wf ?l"
    unfolding log_wf_def s by simp
  have "unat (end_index ?l) = unat index + (length (entries l) - (Suc (offset l index)))"
    using unat_end_index [OF wf, unfolded s] by simp
  then have "unat (end_index ?l) = unat (end_index l)"
    using assms(1) p by (simp add: unat_end_index pe)
  moreover have "entry_at ?l k = (if k \<le> unat index then None else entry_at l k)" for k
  proof (cases "unat index < k")
    case True
    then obtain d where k: "k = unat index + Suc d" using less_iff_Suc_add by auto
    have "entry_at l k = (if offset l index + Suc d < length (entries l)
        then Some (entries l ! (offset l index + Suc d)) else None)"
      by (simp add: entry_at_def k pe)
    moreover have "entry_at ?l k = (if offset l index + Suc d < length (entries l)
        then Some (entries l ! (offset l index + Suc d)) else None)"
      using p by (auto simp: entry_at_def s k)
    ultimately show ?thesis using True by simp
  qed (simp add: entry_at_def s)
  ultimately show ?thesis using p wf s slice_from_Ok [of "Suc (offset l index)" "entries l"] assms
    by (simp add: compactTo_def pos_wf u64_eq_iff add.commute)
qed

end
