(* ===== verification/Raft_Message.thy ===== *)
theory Raft_Message
  imports Raft_Log
begin

text \<open>
  The data that crosses a node's boundary: node identifiers and roles, the four RPC
  messages (raft/message.go), the message that delivers a committed entry, the status
  view, the errors of the public methods, and the persistent state with the interface
  of stable storage (raft/persist.go). Go's interface type \<open>Storage\<close> is the locale
  \<open>stable_storage\<close>: what a node may rely on after a save that succeeded, and after one
  that failed.
\<close>

section \<open>Identifiers, roles, messages\<close>

type_synonym NodeID = string

datatype Role = Follower | Candidate | Leader

text \<open>
  In Go a \<open>Role\<close> is an \<open>int\<close> and the three roles are constants of that type; the node only
  ever stores one of the three. \<open>String\<close> is a method of every \<open>int\<close> of the type.
\<close>

fun Role_int :: "Role \<Rightarrow> int" where
  "Role_int Follower = 0"
| "Role_int Candidate = 1"
| "Role_int Leader = 2"

definition Role_String :: "int \<Rightarrow> string" where
  "Role_String r =
     (if r = Role_int Follower then ''Follower''
      else if r = Role_int Candidate then ''Candidate''
      else if r = Role_int Leader then ''Leader''
      else ''Unknown'')"

lemma Role_String_known: "Role_String r = ''Unknown'' \<longleftrightarrow> r \<notin> range Role_int"
proof -
  have "UNIV = {Follower, Candidate, Leader}" using Role.exhaust by blast
  then have "range Role_int = Role_int ` {Follower, Candidate, Leader}" by (rule arg_cong)
  also have "\<dots> = {0, 1, 2}" by simp
  finally have "range Role_int = {0, 1, 2}" .
  then show ?thesis by (simp add: Role_String_def)
qed

record RequestVoteArgs =
  rvTerm :: u64
  CandidateID :: NodeID
  LastLogIndex :: u64
  LastLogTerm :: u64

record RequestVoteReply =
  rvrTerm :: u64
  VoteGranted :: bool

record AppendEntriesArgs =
  aeTerm :: u64
  LeaderID :: NodeID
  PrevLogIndex :: u64
  PrevLogTerm :: u64
  Entries :: "Entry list"
  LeaderCommit :: u64

record AppendEntriesReply =
  aerTerm :: u64
  Success :: bool

record ApplyMsg =
  amIndex :: u64
  amTerm :: u64
  amCommand :: bytes

record Status =
  sID :: NodeID
  sRole :: Role
  sTerm :: u64
  sLeaderID :: NodeID
  sCommitIndex :: u64
  sLastApplied :: u64
  sLastLogIndex :: u64

datatype node_error = ErrNotLeader | ErrStopped | ErrEmptyCommand

section \<open>Persistent state and stable storage\<close>

record PersistentState =
  CurrentTerm :: u64
  VotedFor :: NodeID
  SavedEntries :: "Entry list"

text \<open>The zero value of Go's struct, which \<open>Load\<close> returns on fresh storage.\<close>

definition zeroState :: PersistentState where
  "zeroState = \<lparr>CurrentTerm = 0, VotedFor = [], SavedEntries = []\<rparr>"

text \<open>
  \<open>content s\<close> is the state that a restart finds on storage \<open>s\<close>. A successful save
  makes the saved state the content. A save that reports an error may or may not have
  taken effect (a failed directory sync comes after the rename), but it never leaves
  anything else. A load that succeeds returns the content.
\<close>

locale stable_storage =
  fixes sinv :: "'s \<Rightarrow> bool"
    and content :: "'s \<Rightarrow> PersistentState"
    and save :: "PersistentState \<Rightarrow> 's \<Rightarrow> 's \<times> go_error"
    and load :: "'s \<Rightarrow> 's \<times> PersistentState \<times> go_error"
  assumes save_inv: "sinv s \<Longrightarrow> sinv (fst (save p s))"
    and save_ok: "sinv s \<Longrightarrow> save p s = (s', None) \<Longrightarrow> content s' = p"
    and save_err: "sinv s \<Longrightarrow> save p s = (s', Some e) \<Longrightarrow> content s' \<in> {content s, p}"
    and load_inv: "sinv s \<Longrightarrow> sinv (fst (load s))"
    and load_keeps: "sinv s \<Longrightarrow> content (fst (load s)) = content s"
    and load_ok: "sinv s \<Longrightarrow> load s = (s', st, None) \<Longrightarrow> st = content s"
begin

lemma save_content: "sinv s \<Longrightarrow> content (fst (save p s)) \<in> {content s, p}"
  using save_ok [of s p] save_err [of s p] by (cases "save p s"; cases "snd (save p s)") auto

end

text \<open>
  Storage on a host whose environment (other processes, a power loss, the next faults of
  the disk) may act on it while the process that owns it is down, without losing what was
  saved.
\<close>

locale hosted_storage = stable_storage +
  fixes disturb :: "'d \<Rightarrow> 's \<Rightarrow> 's"
  assumes disturb_inv: "sinv s \<Longrightarrow> sinv (disturb d s)"
    and disturb_content: "sinv s \<Longrightarrow> content (disturb d s) = content s"

end
