(* ===== verification/Raft_Node.thy ===== *)
theory Raft_Node
  imports Raft_Message
begin

text \<open>
  One Raft node: its state (the struct \<open>Node\<close> of raft/node.go), its configuration, and
  every piece of code that runs with the node's mutex held, as a function from node to
  node (raft/role.go, raft/election.go, raft/replication.go, raft/apply.go,
  raft/persist.go). The mutex makes each of these atomic; a method that unlocks to wait
  for the network is split at that point (\<open>requestVote\<close> and \<open>replicateTo\<close> into
  the part before the call and the part after it, \<open>applier\<close> into taking a batch and
  recording it).

  Conventions. The storage is a parameter: \<open>sv\<close> is its \<open>Save\<close> method and the field
  \<open>storage\<close> its state. A clock reading and a random draw are the argument \<open>ev\<close> of
  everything that may reset the election timer. Goroutines that \<open>spawn\<close> starts are
  recorded in \<open>threads\<close>; the shared counter \<open>votes\<close> that the goroutines of one election
  share is the field \<open>votes\<close>, indexed by the election's term (a node starts at most one
  election per term). Log lines are left out, but for the lookups in the Raft log that their
  arguments make. A panic of a called method is passed on by \<open>within\<close>.
\<close>

section \<open>State\<close>

record 's Config =
  cfgID :: NodeID
  Peers :: "NodeID list"
  Transport :: "unit option"
  Storage :: "'s option"
  ApplyCh :: "unit option"
  ElectionTimeoutMin :: int
  ElectionTimeoutMax :: int
  HeartbeatInterval :: int
  RPCTimeout :: int
  MaxEntriesPerAppend :: int

datatype thread =
    Ticker
  | Applier
  | LeaderLoop u64
  | RequestVoteTo NodeID RequestVoteArgs
  | ReplicateTo NodeID u64

record 's Node =
  id :: NodeID
  peers :: "NodeID list"
  cfg :: "'s Config"
  storage :: 's
  currentTerm :: u64
  votedFor :: NodeID
  log :: raftLog
  commitIndex :: u64
  lastApplied :: u64
  nextIndex :: "NodeID \<rightharpoonup> u64"
  matchIndex :: "NodeID \<rightharpoonup> u64"
  role :: Role
  leaderID :: NodeID
  electionDeadline :: int
  kickCh :: "bool option"
  started :: bool
  stopped :: bool
  votes :: "u64 \<Rightarrow> nat"
  threads :: "thread list"

type_synonym 's node_result = "('s Node, 's Node) outcome"
type_synonym 's saver = "PersistentState \<Rightarrow> 's \<Rightarrow> 's \<times> go_error"

record env =
  now :: int
  draw :: nat

text \<open>Indexing a Go map: a missing key reads as the zero value.\<close>

definition map_get :: "(NodeID \<rightharpoonup> u64) \<Rightarrow> NodeID \<Rightarrow> u64" where
  "map_get m k = (case m k of None \<Rightarrow> 0 | Some v \<Rightarrow> v)"

section \<open>Configuration\<close>

definition DefaultElectionTimeoutMin :: int where "DefaultElectionTimeoutMin = 150000000"
definition DefaultElectionTimeoutMax :: int where "DefaultElectionTimeoutMax = 300000000"
definition DefaultHeartbeatInterval :: int where "DefaultHeartbeatInterval = 50000000"
definition DefaultRPCTimeout :: int where "DefaultRPCTimeout = 1000000000"
definition DefaultMaxEntriesPerAppend :: int where "DefaultMaxEntriesPerAppend = 1000"

definition withDefaults :: "'s Config \<Rightarrow> 's Config" where
  "withDefaults c = c\<lparr>
     ElectionTimeoutMin :=
       (if ElectionTimeoutMin c = 0 then DefaultElectionTimeoutMin else ElectionTimeoutMin c),
     ElectionTimeoutMax :=
       (if ElectionTimeoutMax c = 0 then DefaultElectionTimeoutMax else ElectionTimeoutMax c),
     HeartbeatInterval :=
       (if HeartbeatInterval c = 0 then DefaultHeartbeatInterval else HeartbeatInterval c),
     RPCTimeout := (if RPCTimeout c = 0 then DefaultRPCTimeout else RPCTimeout c),
     MaxEntriesPerAppend :=
       (if MaxEntriesPerAppend c = 0 then DefaultMaxEntriesPerAppend else MaxEntriesPerAppend c)\<rparr>"

datatype config_error =
    IDEmpty
  | PeerEmpty
  | PeerDuplicate
  | PeersLackOwnID
  | TransportNil
  | StorageNil
  | ApplyChNil
  | BadElectionTimeout
  | BadHeartbeatInterval
  | BadRPCTimeout
  | NegativeMaxEntries

fun validate_peers :: "NodeID list \<Rightarrow> NodeID list \<Rightarrow> config_error + NodeID list" where
  "validate_peers seen [] = Inr seen"
| "validate_peers seen (p # ps) =
     (if p = [] then Inl PeerEmpty
      else if p \<in> set seen then Inl PeerDuplicate
      else validate_peers (p # seen) ps)"

definition validate :: "'s Config \<Rightarrow> config_error option" where
  "validate c =
     (if cfgID c = [] then Some IDEmpty
      else case validate_peers [] (Peers c) of
        Inl e \<Rightarrow> Some e
      | Inr seen \<Rightarrow>
          if cfgID c \<notin> set seen then Some PeersLackOwnID
          else if Transport c = None then Some TransportNil
          else if Storage c = None then Some StorageNil
          else if ApplyCh c = None then Some ApplyChNil
          else if ElectionTimeoutMin c \<le> 0 \<or> ElectionTimeoutMax c \<le> ElectionTimeoutMin c
            then Some BadElectionTimeout
          else if HeartbeatInterval c \<le> 0 \<or> HeartbeatInterval c \<ge> ElectionTimeoutMin c
            then Some BadHeartbeatInterval
          else if RPCTimeout c \<le> 0 then Some BadRPCTimeout
          else if MaxEntriesPerAppend c < 0 then Some NegativeMaxEntries
          else None)"

section \<open>Timers, goroutines, persistence\<close>

definition resetElectionTimer :: "env \<Rightarrow> 's Node \<Rightarrow> 's node_result" where
  "resetElectionTimer ev n =
     (let spread = ElectionTimeoutMax (cfg n) - ElectionTimeoutMin (cfg n)
      in if spread \<le> 0 then Panic InvalidRandArgument n
         else Ok (n\<lparr>electionDeadline :=
                now ev + (ElectionTimeoutMin (cfg n) + int (draw ev) mod spread)\<rparr>))"

definition spawn :: "thread \<Rightarrow> 's Node \<Rightarrow> 's Node" where
  "spawn t n = (if stopped n then n else n\<lparr>threads := threads n @ [t]\<rparr>)"

definition kick :: "'s Node \<Rightarrow> 's Node" where
  "kick n = n\<lparr>kickCh := map_option (\<lambda>_. True) (kickCh n)\<rparr>"

definition quorum :: "'s Node \<Rightarrow> nat" where
  "quorum n = (length (peers n) + 1) div 2 + 1"

definition persistent :: "'s Node \<Rightarrow> PersistentState" where
  "persistent n =
     \<lparr>CurrentTerm = currentTerm n, VotedFor = votedFor n, SavedEntries = entries (log n)\<rparr>"

definition persist :: "'s saver \<Rightarrow> 's Node \<Rightarrow> 's node_result" where
  "persist sv n =
     (case sv (persistent n) (storage n) of
        (s, None) \<Rightarrow> Ok (n\<lparr>storage := s\<rparr>)
      | (s, Some e) \<Rightarrow> Panic PersistFailed (n\<lparr>storage := s\<rparr>))"

text \<open>The check of consecutive indexes in \<open>restoreState\<close>, from position 1 on.\<close>

fun consecutive :: "Entry list \<Rightarrow> bool" where
  "consecutive (a # b # es) = (Index b = Index a + 1 \<and> consecutive (b # es))"
| "consecutive es = True"

definition restoreState :: "PersistentState \<Rightarrow> 's Node \<Rightarrow> string + 's Node" where
  "restoreState st n =
     (let n = n\<lparr>currentTerm := CurrentTerm st, votedFor := VotedFor st\<rparr>
      in if SavedEntries st = [] then Inr (n\<lparr>log := newRaftLog\<rparr>)
         else if \<not> consecutive (SavedEntries st) then Inl ''raft: corrupt log in storage''
         else Inr (n\<lparr>log := \<lparr>entries = SavedEntries st\<rparr>\<rparr>))"

section \<open>Roles\<close>

definition becomeFollower :: "'s saver \<Rightarrow> env \<Rightarrow> u64 \<Rightarrow> 's Node \<Rightarrow> 's node_result" where
  "becomeFollower sv ev t n =
     (let wasLeader = (role n = Leader)
      in andThen
           (if t > currentTerm n
            then persist sv (n\<lparr>currentTerm := t, votedFor := [], leaderID := []\<rparr>)
            else Ok n)
           (\<lambda>n. let n = n\<lparr>role := Follower\<rparr>
                in if wasLeader then resetElectionTimer ev n else Ok n))"

definition observeTerm ::
  "'s saver \<Rightarrow> env \<Rightarrow> u64 \<Rightarrow> 's Node \<Rightarrow> ('s Node \<times> bool, 's Node) outcome" where
  "observeTerm sv ev t n =
     (if t \<le> currentTerm n then Ok (n, False)
      else andThen (becomeFollower sv ev t n) (\<lambda>n. Ok (n, True)))"

definition becomeCandidate :: "'s saver \<Rightarrow> env \<Rightarrow> 's Node \<Rightarrow> 's node_result" where
  "becomeCandidate sv ev n =
     andThen
       (persist sv (n\<lparr>role := Candidate, currentTerm := currentTerm n + 1,
                      votedFor := id n, leaderID := []\<rparr>))
       (resetElectionTimer ev)"

section \<open>Commit index\<close>

definition replica_count :: "'s Node \<Rightarrow> u64 \<Rightarrow> nat" where
  "replica_count n i = 1 + length (filter (\<lambda>p. map_get (matchIndex n) p \<ge> i) (peers n))"

function advance_loop :: "'s Node \<Rightarrow> u64 \<Rightarrow> 's node_result" where
  "advance_loop n i =
     (if i > commitIndex n then
        within n (term_at (log n) i)
          (\<lambda>(t, _). if t \<noteq> currentTerm n then Ok n
                    else if replica_count n i \<ge> quorum n then Ok (n\<lparr>commitIndex := i\<rparr>)
                    else advance_loop n (i - 1))
      else Ok n)"
  by pat_completeness auto
termination
  by (relation "measure (\<lambda>(n, i). unat i)") (auto intro: unat_pred_less)

declare advance_loop.simps [simp del]

definition advanceCommitIndex :: "'s Node \<Rightarrow> 's node_result" where
  "advanceCommitIndex n = within n (lastIndex (log n)) (advance_loop n)"

section \<open>Leadership\<close>

definition fill_map :: "NodeID list \<Rightarrow> u64 \<Rightarrow> (NodeID \<rightharpoonup> u64)" where
  "fill_map ps v = fold (\<lambda>p m. m(p \<mapsto> v)) ps Map.empty"

definition becomeLeader :: "'s saver \<Rightarrow> 's Node \<Rightarrow> 's node_result" where
  "becomeLeader sv n =
     (let n = n\<lparr>role := Leader, leaderID := id n,
                nextIndex := Map.empty, matchIndex := Map.empty\<rparr>
      in within n (lastIndex (log n))
           (\<lambda>li. let n = n\<lparr>nextIndex := fill_map (peers n) (li + 1),
                            matchIndex := fill_map (peers n) 0,
                            log := append_entries (log n)
                              [\<lparr>Index = li + 1, Term = currentTerm n, Command = []\<rparr>]\<rparr>
                 in andThen (persist sv n)
                      (\<lambda>n. andThen (advanceCommitIndex n)
                      (\<lambda>n. within n (lastIndex (log n))
                      (\<lambda>_. let n = n\<lparr>kickCh := Some False\<rparr>
                           in Ok (spawn (LeaderLoop (currentTerm n)) n))))))"

section \<open>Elections\<close>

definition startElection :: "'s saver \<Rightarrow> env \<Rightarrow> 's Node \<Rightarrow> 's node_result" where
  "startElection sv ev n =
     andThen (becomeCandidate sv ev n)
       (\<lambda>n. let n = n\<lparr>votes := (votes n)(currentTerm n := 1)\<rparr>
            in if votes n (currentTerm n) \<ge> quorum n then becomeLeader sv n
               else within n (lastIndex (log n))
                 (\<lambda>li. within n (lastTerm (log n))
                 (\<lambda>lt. let args = \<lparr>rvTerm = currentTerm n, CandidateID = id n,
                                    LastLogIndex = li, LastLogTerm = lt\<rparr>
                       in Ok (fold (\<lambda>peer. spawn (RequestVoteTo peer args)) (peers n) n))))"

definition ticker :: "'s saver \<Rightarrow> env \<Rightarrow> 's Node \<Rightarrow> 's node_result" where
  "ticker sv ev n =
     (if \<not> stopped n \<and> role n \<noteq> Leader \<and> now ev > electionDeadline n
      then startElection sv ev n else Ok n)"

text \<open>\<open>requestVote\<close> after its RPC has returned without error.\<close>

definition requestVote ::
  "'s saver \<Rightarrow> env \<Rightarrow> RequestVoteArgs \<Rightarrow> RequestVoteReply \<Rightarrow> 's Node \<Rightarrow> 's node_result" where
  "requestVote sv ev args reply n =
     (if stopped n then Ok n
      else andThen (observeTerm sv ev (rvrTerm reply) n)
        (\<lambda>(n, steppedDown).
           if steppedDown then Ok n
           else if role n \<noteq> Candidate \<or> rvTerm args \<noteq> currentTerm n then Ok n
           else if \<not> VoteGranted reply then Ok n
           else let n = n\<lparr>votes := (votes n)(rvTerm args := votes n (rvTerm args) + 1)\<rparr>
                in if votes n (rvTerm args) \<ge> quorum n then becomeLeader sv n else Ok n))"

definition HandleRequestVote ::
  "'s saver \<Rightarrow> env \<Rightarrow> RequestVoteArgs \<Rightarrow> 's Node \<Rightarrow>
   ('s Node \<times> (node_error + RequestVoteReply), 's Node) outcome" where
  "HandleRequestVote sv ev args n =
     (if stopped n then Ok (n, Inl ErrStopped)
      else andThen (observeTerm sv ev (rvTerm args) n)
        (\<lambda>(n, _).
           let reply = \<lparr>rvrTerm = currentTerm n, VoteGranted = False\<rparr>
           in if rvTerm args < currentTerm n then Ok (n, Inr reply)
              else let canVote = (votedFor n = [] \<or> votedFor n = CandidateID args)
                   in if \<not> canVote then Ok (n, Inr reply)
                      else within n (isUpToDate (log n) (LastLogTerm args) (LastLogIndex args))
                        (\<lambda>upToDate.
                           if upToDate
                           then andThen (persist sv (n\<lparr>votedFor := CandidateID args\<rparr>))
                                  (\<lambda>n. andThen (resetElectionTimer ev n)
                                  (\<lambda>n. Ok (n, Inr (reply\<lparr>VoteGranted := True\<rparr>))))
                           else Ok (n, Inr reply))))"

section \<open>Replication\<close>

text \<open>One turn of \<open>leaderLoop\<close>: \<open>False\<close> when the loop returns.\<close>

definition leaderLoop :: "u64 \<Rightarrow> 's Node \<Rightarrow> 's Node \<times> bool" where
  "leaderLoop t n =
     (if stopped n \<or> role n \<noteq> Leader \<or> currentTerm n \<noteq> t then (n, False)
      else (fold (\<lambda>peer. spawn (ReplicateTo peer t)) (peers n) n, True))"

text \<open>\<open>replicateTo\<close> up to its RPC: the request to send, if the node still leads \<open>t\<close>.\<close>

definition replicateTo_request ::
  "NodeID \<Rightarrow> u64 \<Rightarrow> 's Node \<Rightarrow> (AppendEntriesArgs option, 's Node) outcome" where
  "replicateTo_request peer t n =
     (if role n \<noteq> Leader \<or> currentTerm n \<noteq> t then Ok None
      else let prev = map_get (nextIndex n) peer - 1
           in within n (term_at (log n) prev)
                (\<lambda>(prevTerm, _).
                   within n (entriesFrom (log n) (prev + 1) (MaxEntriesPerAppend (cfg n)))
                     (\<lambda>es. Ok (Some \<lparr>aeTerm = t, LeaderID = id n, PrevLogIndex = prev,
                                      PrevLogTerm = prevTerm, Entries = es,
                                      LeaderCommit = commitIndex n\<rparr>))))"

text \<open>\<open>replicateTo\<close> after its RPC has returned without error.\<close>

definition replicateTo_reply ::
  "'s saver \<Rightarrow> env \<Rightarrow> NodeID \<Rightarrow> u64 \<Rightarrow> AppendEntriesArgs \<Rightarrow> AppendEntriesReply \<Rightarrow>
   's Node \<Rightarrow> 's node_result" where
  "replicateTo_reply sv ev peer t args reply n =
     (if stopped n then Ok n
      else andThen (observeTerm sv ev (aerTerm reply) n)
        (\<lambda>(n, steppedDown).
           if steppedDown then Ok n
           else if role n \<noteq> Leader \<or> currentTerm n \<noteq> t then Ok n
           else let prev = PrevLogIndex args
                in if Success reply then
                     let match = prev + of_nat (length (Entries args));
                         n = n\<lparr>matchIndex := (matchIndex n)
                                 (peer \<mapsto> max (map_get (matchIndex n) peer) match)\<rparr>;
                         n = n\<lparr>nextIndex := (nextIndex n)
                                 (peer \<mapsto> max (map_get (nextIndex n) peer) (match + 1))\<rparr>
                     in advanceCommitIndex n
                   else if map_get (nextIndex n) peer = prev + 1 \<and> prev > 0 then
                     Ok (spawn (ReplicateTo peer t) (n\<lparr>nextIndex := (nextIndex n)(peer \<mapsto> prev)\<rparr>))
                   else Ok n))"

text \<open>The loop over the entries of an AppendEntries request.\<close>

fun store_entries :: "'s saver \<Rightarrow> Entry list \<Rightarrow> 's Node \<Rightarrow> 's node_result" where
  "store_entries sv [] n = Ok n"
| "store_entries sv (e # es) n =
     within n (term_at (log n) (Index e))
       (\<lambda>(t, ok).
          if ok \<and> t = Term e then store_entries sv es n
          else within n (if ok then truncateFrom (log n) (Index e) else Ok (log n))
                 (\<lambda>l. persist sv (n\<lparr>log := append_entries l (e # es)\<rparr>)))"

definition HandleAppendEntries ::
  "'s saver \<Rightarrow> env \<Rightarrow> AppendEntriesArgs \<Rightarrow> 's Node \<Rightarrow>
   ('s Node \<times> (node_error + AppendEntriesReply), 's Node) outcome" where
  "HandleAppendEntries sv ev args n =
     (if stopped n then Ok (n, Inl ErrStopped)
      else andThen (observeTerm sv ev (aeTerm args) n)
        (\<lambda>(n, _).
           let reply = \<lparr>aerTerm = currentTerm n, Success = False\<rparr>
           in if aeTerm args < currentTerm n then Ok (n, Inr reply)
              else andThen (if role n \<noteq> Follower then becomeFollower sv ev (aeTerm args) n else Ok n)
                (\<lambda>n. andThen (resetElectionTimer ev (n\<lparr>leaderID := LeaderID args\<rparr>))
                (\<lambda>n. within n (matches (log n) (PrevLogIndex args) (PrevLogTerm args))
                (\<lambda>ok. if \<not> ok then Ok (n, Inr reply)
                      else andThen (store_entries sv (Entries args) n)
                        (\<lambda>n. let lastNew = PrevLogIndex args + of_nat (length (Entries args));
                                 commit = min (LeaderCommit args) lastNew;
                                 n = (if commit > commitIndex n then n\<lparr>commitIndex := commit\<rparr> else n)
                             in Ok (n, Inr (reply\<lparr>Success := True\<rparr>))))))))"

section \<open>Delivering committed entries\<close>

text \<open>
  One turn of \<open>applier\<close>: \<open>applier_batch\<close> is the part under the lock, \<open>None\<close> while it
  waits or when it returns; after the batch has been sent on the channel,
  \<open>applier_done\<close> records it.
\<close>

definition applier_batch :: "'s Node \<Rightarrow> (Entry list option, 's Node) outcome" where
  "applier_batch n =
     (if stopped n \<or> lastApplied n \<ge> commitIndex n then Ok None
      else within n (entriesFrom (log n) (lastApplied n + 1) (sint (commitIndex n - lastApplied n)))
             (\<lambda>batch. Ok (Some batch)))"

definition apply_msg :: "Entry \<Rightarrow> ApplyMsg" where
  "apply_msg e = \<lparr>amIndex = Index e, amTerm = Term e, amCommand = Command e\<rparr>"

definition applier_done :: "Entry list \<Rightarrow> 's Node \<Rightarrow> 's node_result" where
  "applier_done batch n =
     within n (index_at batch (int (length batch) - 1)) (\<lambda>e. Ok (n\<lparr>lastApplied := Index e\<rparr>))"

section \<open>Public methods\<close>

datatype new_error = ConfigError config_error | LoadError string | RestoreError string

definition New ::
  "('s \<Rightarrow> 's \<times> PersistentState \<times> go_error) \<Rightarrow> env \<Rightarrow> 's Config \<Rightarrow>
   (new_error + 's Node, unit) outcome" where
  "New ld ev c =
     (let c = withDefaults c
      in case validate c of
           Some e \<Rightarrow> Ok (Inl (ConfigError e))
         | None \<Rightarrow>
             (case ld (the (Storage c)) of
                (s, st, Some e) \<Rightarrow> Ok (Inl (LoadError e))
              | (s, st, None) \<Rightarrow>
                  let n = \<lparr>id = cfgID c, peers = filter (\<lambda>p. p \<noteq> cfgID c) (Peers c), cfg = c,
                           storage = s, currentTerm = 0, votedFor = [], log = \<lparr>entries = []\<rparr>,
                           commitIndex = 0, lastApplied = 0, nextIndex = Map.empty,
                           matchIndex = Map.empty, role = Follower, leaderID = [],
                           electionDeadline = 0, kickCh = None, started = False, stopped = False,
                           votes = (\<lambda>_. 0), threads = []\<rparr>
                  in case restoreState st n of
                       Inl e \<Rightarrow> Ok (Inl (RestoreError e))
                     | Inr n \<Rightarrow>
                         within () (resetElectionTimer ev n)
                           (\<lambda>n. within () (lastIndex (log n))
                           (\<lambda>_. within () (lastTerm (log n)) (\<lambda>_. Ok (Inr n))))))"

definition Start :: "env \<Rightarrow> 's Node \<Rightarrow> 's node_result" where
  "Start ev n =
     (if started n \<or> stopped n then Ok n
      else andThen (resetElectionTimer ev (n\<lparr>started := True\<rparr>))
             (\<lambda>n. Ok (spawn Applier (spawn Ticker n))))"

definition Stop :: "'s Node \<Rightarrow> 's Node" where
  "Stop n = (if stopped n then n else n\<lparr>stopped := True\<rparr>)"

definition Propose ::
  "'s saver \<Rightarrow> bytes \<Rightarrow> 's Node \<Rightarrow> ('s Node \<times> (node_error + u64 \<times> u64), 's Node) outcome" where
  "Propose sv cmd n =
     (if stopped n then Ok (n, Inl ErrStopped)
      else if role n \<noteq> Leader then Ok (n, Inl ErrNotLeader)
      else if cmd = [] then Ok (n, Inl ErrEmptyCommand)
      else within n (lastIndex (log n))
        (\<lambda>li. let index = li + 1;
                  n = n\<lparr>log := append_entries (log n)
                          [\<lparr>Index = index, Term = currentTerm n, Command = cmd\<rparr>]\<rparr>
              in andThen (persist sv n)
                   (\<lambda>n. andThen (advanceCommitIndex n)
                   (\<lambda>n. let n = kick n
                        in Ok (n, Inr (index, currentTerm n))))))"

definition Node_Status :: "'s Node \<Rightarrow> (Status, 's Node) outcome" where
  "Node_Status n = within n (lastIndex (log n)) (\<lambda>li. Ok \<lparr>sID = id n, sRole = role n, sTerm = currentTerm n, sLeaderID = leaderID n,
     sCommitIndex = commitIndex n, sLastApplied = lastApplied n,
     sLastLogIndex = li\<rparr>)"

section \<open>The code on a well-formed log\<close>

text \<open>
  On a well-formed log every lookup returns, and the code reduces to the same code over the
  values it reads. \<open>advance_scan\<close> and \<open>advance_commit\<close> are \<open>advanceCommitIndex\<close> without its
  panics.
\<close>

function advance_scan :: "'s Node \<Rightarrow> u64 \<Rightarrow> 's Node" where
  "advance_scan n i =
     (if i > commitIndex n then
        if fst (term_of (log n) i) \<noteq> currentTerm n then n
        else if replica_count n i \<ge> quorum n then n\<lparr>commitIndex := i\<rparr>
        else advance_scan n (i - 1)
      else n)"
  by pat_completeness auto
termination
  by (relation "measure (\<lambda>(n, i). unat i)") (auto intro: unat_pred_less)

declare advance_scan.simps [simp del]

definition advance_commit :: "'s Node \<Rightarrow> 's Node" where
  "advance_commit n = advance_scan n (end_index (log n))"

lemma advance_loop_wf:
  assumes "log_wf (log n)"
  shows "advance_loop n i = Ok (advance_scan n i)"
  using assms
proof (induction n i rule: advance_scan.induct)
  case (1 n i)
  then show ?case
    by (subst advance_loop.simps, subst advance_scan.simps)
      (cases "term_of (log n) i", auto simp: term_at_wf)
qed

lemma advanceCommitIndex_wf: "log_wf (log n) \<Longrightarrow> advanceCommitIndex n = Ok (advance_commit n)"
  by (simp add: advanceCommitIndex_def advance_commit_def log_ends advance_loop_wf)

lemma log_advance [simp]: "log (advance_scan n i) = log n" "log (advance_commit n) = log n"
proof -
  show *: "log (advance_scan n i) = log n" for i
    by (induction n i rule: advance_scan.induct) (subst advance_scan.simps, simp)
  show "log (advance_commit n) = log n" by (simp add: advance_commit_def *)
qed

lemma Node_Status_wf: "log_wf (log n) \<Longrightarrow> \<exists>st. Node_Status n = Ok st"
  by (simp add: Node_Status_def log_ends)

end
