(* ===== verification/Raft_Cluster.thy ===== *)
theory Raft_Cluster
  imports Raft_Node
begin

text \<open>
  A cluster of nodes, each with its goroutines, its storage and its delivery channel, and
  the network between them, as an executable transition function: \<open>perform D a c\<close> is the
  state after action \<open>a\<close>, or \<open>None\<close> when the action is not possible in \<open>c\<close>.

  An action is one critical section of one goroutine, one RPC arriving, or something the
  environment does. The network may delay, duplicate, reorder and drop: requests and
  replies stay in the sets \<open>rvreq\<close>, \<open>rvrep\<close>, \<open>aereq\<close>, \<open>aerep\<close> and may be delivered any
  number of times or never; it does not forge messages. A reply reaches only the goroutine
  that waits for it. A process may crash at any point between two actions, and a panic
  ends it; it comes back by \<open>New\<close> on the storage it left. While it is down, the storage's
  environment may act on the storage (\<open>dDisturb\<close>).

  The delivery channel of a process belongs to the service that embeds the node. \<open>room\<close> is
  the number of messages it takes without making the sender wait: free places of its buffer,
  or receivers that wait at it. \<open>Receive\<close> is the service becoming ready for one more; the
  applier's send (\<open>Deliver\<close>) is not possible while there is no room. A channel with any
  capacity and any service, also one that never receives, is a choice of \<open>Receive\<close> actions.
\<close>

section \<open>State\<close>

record 's proc =
  node :: "'s Node"
  calls :: "(NodeID \<times> u64 \<times> AppendEntriesArgs) list"
  applying :: "(Entry list \<times> Entry list) option"
  sent :: "ApplyMsg list"
  room :: nat

datatype 's server = Running "'s proc" | Down 's

record 's cluster =
  servers :: "NodeID \<Rightarrow> 's server"
  rvreq :: "(NodeID \<times> NodeID \<times> RequestVoteArgs) set"
  rvrep :: "(NodeID \<times> NodeID \<times> RequestVoteArgs \<times> RequestVoteReply) set"
  aereq :: "(NodeID \<times> NodeID \<times> AppendEntriesArgs) set"
  aerep :: "(NodeID \<times> NodeID \<times> AppendEntriesArgs \<times> AppendEntriesReply) set"
  delivered :: "(NodeID \<times> ApplyMsg) set"

record ('s, 'd) deployment =
  dMembers :: "NodeID list"
  dConf :: "NodeID \<Rightarrow> 's Config"
  dSave :: "'s saver"
  dLoad :: "'s \<Rightarrow> 's \<times> PersistentState \<times> go_error"
  dDisturb :: "'d \<Rightarrow> 's \<Rightarrow> 's"

datatype 'd action =
    Boot NodeID env
  | BootFails NodeID
  | Crash NodeID
  | Disturb NodeID 'd
  | StartUp NodeID env
  | ShutDown NodeID
  | Tick NodeID env
  | SendVote NodeID NodeID RequestVoteArgs
  | RecvVote NodeID NodeID RequestVoteArgs env
  | VoteReply NodeID NodeID RequestVoteArgs RequestVoteReply env
  | VoteFails NodeID NodeID RequestVoteArgs
  | Heartbeat NodeID u64
  | Replicate NodeID NodeID u64
  | RecvAppend NodeID NodeID AppendEntriesArgs env
  | AppendReply NodeID NodeID u64 AppendEntriesArgs AppendEntriesReply env
  | AppendFails NodeID NodeID u64 AppendEntriesArgs
  | TakeBatch NodeID
  | Receive NodeID
  | Deliver NodeID
  | ApplierStops NodeID
  | BatchDone NodeID
  | ProposeCmd NodeID bytes

section \<open>Actions\<close>

definition set_server :: "NodeID \<Rightarrow> 's server \<Rightarrow> 's cluster \<Rightarrow> 's cluster" where
  "set_server n v c = c\<lparr>servers := (servers c)(n := v)\<rparr>"

definition running :: "'s cluster \<Rightarrow> NodeID \<Rightarrow> 's proc option" where
  "running c n = (case servers c n of Running p \<Rightarrow> Some p | Down s \<Rightarrow> None)"

text \<open>A critical section that ends puts the node back; one that panics ends the process.\<close>

definition settle :: "NodeID \<Rightarrow> 's proc \<Rightarrow> 's node_result \<Rightarrow> 's cluster \<Rightarrow> 's cluster" where
  "settle n p r c = set_server n
     (case r of Ok nd \<Rightarrow> Running (p\<lparr>node := nd\<rparr>) | Panic e nd \<Rightarrow> Down (storage nd)) c"

definition end_thread :: "thread \<Rightarrow> 's proc \<Rightarrow> 's proc" where
  "end_thread t p = p\<lparr>node := (node p)\<lparr>threads := remove1 t (threads (node p))\<rparr>\<rparr>"

definition boot_config :: "('s, 'd) deployment \<Rightarrow> NodeID \<Rightarrow> 's \<Rightarrow> 's Config" where
  "boot_config D n s = (dConf D n)\<lparr>Storage := Some s\<rparr>"

definition boot :: "('s, 'd) deployment \<Rightarrow> NodeID \<Rightarrow> env \<Rightarrow> 's cluster \<Rightarrow> 's cluster option" where
  "boot D n ev c =
     (case servers c n of
        Running _ \<Rightarrow> None
      | Down s \<Rightarrow>
          (case New (dLoad D) ev (boot_config D n s) of
             Ok (Inr nd) \<Rightarrow>
               Some (set_server n (Running \<lparr>node = nd, calls = [], applying = None, sent = [], room = 0\<rparr>) c)
           | _ \<Rightarrow> None))"

definition recv_vote ::
  "('s, 'd) deployment \<Rightarrow> NodeID \<Rightarrow> NodeID \<Rightarrow> RequestVoteArgs \<Rightarrow> env \<Rightarrow> 's proc \<Rightarrow>
   's cluster \<Rightarrow> 's cluster" where
  "recv_vote D m n args ev p c =
     (case HandleRequestVote (dSave D) ev args (node p) of
        Ok (nd, Inr reply) \<Rightarrow>
          (settle n p (Ok nd) c)\<lparr>rvrep := insert (m, n, args, reply) (rvrep c)\<rparr>
      | Ok (nd, Inl e) \<Rightarrow> settle n p (Ok nd) c
      | Panic e nd \<Rightarrow> settle n p (Panic e nd) c)"

definition recv_append ::
  "('s, 'd) deployment \<Rightarrow> NodeID \<Rightarrow> NodeID \<Rightarrow> AppendEntriesArgs \<Rightarrow> env \<Rightarrow> 's proc \<Rightarrow>
   's cluster \<Rightarrow> 's cluster" where
  "recv_append D m n args ev p c =
     (case HandleAppendEntries (dSave D) ev args (node p) of
        Ok (nd, Inr reply) \<Rightarrow>
          (settle n p (Ok nd) c)\<lparr>aerep := insert (m, n, args, reply) (aerep c)\<rparr>
      | Ok (nd, Inl e) \<Rightarrow> settle n p (Ok nd) c
      | Panic e nd \<Rightarrow> settle n p (Panic e nd) c)"

definition heartbeat :: "NodeID \<Rightarrow> u64 \<Rightarrow> 's proc \<Rightarrow> 's cluster \<Rightarrow> 's cluster" where
  "heartbeat n t p c =
     (let (nd, more) = leaderLoop t (node p);
          p = p\<lparr>node := nd\<rparr>
      in set_server n (Running (if more then p else end_thread (LeaderLoop t) p)) c)"

definition replicate_call ::
  "NodeID \<Rightarrow> NodeID \<Rightarrow> u64 \<Rightarrow> 's proc \<Rightarrow> 's cluster \<Rightarrow> 's cluster" where
  "replicate_call n peer t p c =
     (let q = end_thread (ReplicateTo peer t) p
      in case replicateTo_request peer t (node p) of
           Ok None \<Rightarrow> set_server n (Running q) c
         | Ok (Some args) \<Rightarrow>
             (set_server n (Running (q\<lparr>calls := calls q @ [(peer, t, args)]\<rparr>)) c)
               \<lparr>aereq := insert (n, peer, args) (aereq c)\<rparr>
         | Panic e nd \<Rightarrow> settle n p (Panic e nd) c)"

definition take_batch :: "NodeID \<Rightarrow> 's proc \<Rightarrow> 's cluster \<Rightarrow> 's cluster" where
  "take_batch n p c =
     (case applier_batch (node p) of
        Ok None \<Rightarrow> c
      | Ok (Some batch) \<Rightarrow> set_server n (Running (p\<lparr>applying := Some (batch, batch)\<rparr>)) c
      | Panic e nd \<Rightarrow> settle n p (Panic e nd) c)"

definition deliver :: "NodeID \<Rightarrow> 's proc \<Rightarrow> 's cluster \<Rightarrow> 's cluster option" where
  "deliver n p c =
     (case applying p of
        Some (batch, e # rest) \<Rightarrow>
          if room p = 0 then None
          else Some ((set_server n (Running (p\<lparr>applying := Some (batch, rest),
                        sent := sent p @ [apply_msg e], room := room p - 1\<rparr>)) c)
                     \<lparr>delivered := insert (n, apply_msg e) (delivered c)\<rparr>)
      | _ \<Rightarrow> None)"

definition batch_done :: "NodeID \<Rightarrow> 's proc \<Rightarrow> 's cluster \<Rightarrow> 's cluster option" where
  "batch_done n p c =
     (case applying p of
        Some (batch, []) \<Rightarrow> Some (settle n (p\<lparr>applying := None\<rparr>) (applier_done batch (node p)) c)
      | _ \<Rightarrow> None)"

definition propose :: "('s, 'd) deployment \<Rightarrow> NodeID \<Rightarrow> bytes \<Rightarrow> 's proc \<Rightarrow> 's cluster \<Rightarrow> 's cluster" where
  "propose D n cmd p c =
     settle n p (andThen (Propose (dSave D) cmd (node p)) (\<lambda>(nd, _). Ok nd)) c"

definition proc_action ::
  "('s, 'd) deployment \<Rightarrow> 'd action \<Rightarrow> 's proc \<Rightarrow> 's cluster \<Rightarrow> 's cluster option" where
  "proc_action D a p c =
     (case a of
        Crash n \<Rightarrow> Some (set_server n (Down (storage (node p))) c)
      | StartUp n ev \<Rightarrow> Some (settle n p (Start ev (node p)) c)
      | ShutDown n \<Rightarrow> Some (settle n p (Ok (Stop (node p))) c)
      | Tick n ev \<Rightarrow>
          if Ticker \<in> set (threads (node p)) then Some (settle n p (ticker (dSave D) ev (node p)) c)
          else None
      | SendVote n peer args \<Rightarrow>
          if RequestVoteTo peer args \<in> set (threads (node p))
          then Some (c\<lparr>rvreq := insert (n, peer, args) (rvreq c)\<rparr>) else None
      | RecvVote m n args ev \<Rightarrow>
          if (m, n, args) \<in> rvreq c then Some (recv_vote D m n args ev p c) else None
      | VoteReply n peer args reply ev \<Rightarrow>
          if RequestVoteTo peer args \<in> set (threads (node p)) \<and> (n, peer, args, reply) \<in> rvrep c
          then let q = end_thread (RequestVoteTo peer args) p
               in Some (settle n q (requestVote (dSave D) ev args reply (node q)) c)
          else None
      | VoteFails n peer args \<Rightarrow> Some (set_server n (Running (end_thread (RequestVoteTo peer args) p)) c)
      | Heartbeat n t \<Rightarrow>
          if LeaderLoop t \<in> set (threads (node p)) then Some (heartbeat n t p c) else None
      | Replicate n peer t \<Rightarrow>
          if ReplicateTo peer t \<in> set (threads (node p)) then Some (replicate_call n peer t p c)
          else None
      | RecvAppend m n args ev \<Rightarrow>
          if (m, n, args) \<in> aereq c then Some (recv_append D m n args ev p c) else None
      | AppendReply n peer t args reply ev \<Rightarrow>
          if (peer, t, args) \<in> set (calls p) \<and> (n, peer, args, reply) \<in> aerep c
          then let q = p\<lparr>calls := remove1 (peer, t, args) (calls p)\<rparr>
               in Some (settle n q (replicateTo_reply (dSave D) ev peer t args reply (node q)) c)
          else None
      | AppendFails n peer t args \<Rightarrow>
          Some (set_server n (Running (p\<lparr>calls := remove1 (peer, t, args) (calls p)\<rparr>)) c)
      | TakeBatch n \<Rightarrow>
          if Applier \<in> set (threads (node p)) \<and> applying p = None then Some (take_batch n p c) else None
      | Receive n \<Rightarrow> Some (set_server n (Running (p\<lparr>room := Suc (room p)\<rparr>)) c)
      | Deliver n \<Rightarrow> deliver n p c
      | ApplierStops n \<Rightarrow>
          if stopped (node p)
          then Some (set_server n (Running (end_thread Applier (p\<lparr>applying := None\<rparr>))) c) else None
      | BatchDone n \<Rightarrow> batch_done n p c
      | ProposeCmd n cmd \<Rightarrow> Some (propose D n cmd p c)
      | _ \<Rightarrow> None)"

fun actor :: "'d action \<Rightarrow> NodeID" where
  "actor (Boot n ev) = n"
| "actor (BootFails n) = n"
| "actor (Crash n) = n"
| "actor (Disturb n d) = n"
| "actor (StartUp n ev) = n"
| "actor (ShutDown n) = n"
| "actor (Tick n ev) = n"
| "actor (SendVote n peer args) = n"
| "actor (RecvVote m n args ev) = n"
| "actor (VoteReply n peer args reply ev) = n"
| "actor (VoteFails n peer args) = n"
| "actor (Heartbeat n t) = n"
| "actor (Replicate n peer t) = n"
| "actor (RecvAppend m n args ev) = n"
| "actor (AppendReply n peer t args reply ev) = n"
| "actor (AppendFails n peer t args) = n"
| "actor (TakeBatch n) = n"
| "actor (Receive n) = n"
| "actor (Deliver n) = n"
| "actor (ApplierStops n) = n"
| "actor (BatchDone n) = n"
| "actor (ProposeCmd n cmd) = n"

definition perform :: "('s, 'd) deployment \<Rightarrow> 'd action \<Rightarrow> 's cluster \<Rightarrow> 's cluster option" where
  "perform D a c =
     (if actor a \<notin> set (dMembers D) then None
      else case servers c (actor a) of
        Running p \<Rightarrow> proc_action D a p c
      | Down s \<Rightarrow>
          (case a of
             Boot n ev \<Rightarrow> boot D n ev c
           | BootFails n \<Rightarrow> Some (set_server n (Down (fst (dLoad D s))) c)
           | Disturb n d \<Rightarrow> Some (set_server n (Down (dDisturb D d s)) c)
           | _ \<Rightarrow> None))"

text \<open>
  The critical sections that may run next at a running process, each with the panic it
  raises: \<open>section_panic D c n p e\<close> when one of them panics with \<open>e\<close>.
\<close>

inductive section_panic ::
  "('s, 'd) deployment \<Rightarrow> 's cluster \<Rightarrow> NodeID \<Rightarrow> 's proc \<Rightarrow> panic \<Rightarrow> bool"
  for D :: "('s, 'd) deployment" and c :: "'s cluster" and n :: NodeID and p :: "'s proc" where
  PStart: "Start ev (node p) = Panic e x \<Longrightarrow> section_panic D c n p e"
| PTicker: "Ticker \<in> set (threads (node p)) \<Longrightarrow> ticker (dSave D) ev (node p) = Panic e x \<Longrightarrow>
    section_panic D c n p e"
| PRecvVote: "(m, n, vargs) \<in> rvreq c \<Longrightarrow> HandleRequestVote (dSave D) ev vargs (node p) = Panic e x \<Longrightarrow>
    section_panic D c n p e"
| PVoteReply: "RequestVoteTo peer vargs \<in> set (threads (node p)) \<Longrightarrow> (n, peer, vargs, vreply) \<in> rvrep c \<Longrightarrow>
    requestVote (dSave D) ev vargs vreply (node (end_thread (RequestVoteTo peer vargs) p)) = Panic e x \<Longrightarrow>
    section_panic D c n p e"
| PReplicate: "ReplicateTo peer t \<in> set (threads (node p)) \<Longrightarrow>
    replicateTo_request peer t (node p) = Panic e x \<Longrightarrow> section_panic D c n p e"
| PRecvAppend: "(m, n, args) \<in> aereq c \<Longrightarrow> HandleAppendEntries (dSave D) ev args (node p) = Panic e x \<Longrightarrow>
    section_panic D c n p e"
| PAppendReply: "(peer, t, args) \<in> set (calls p) \<Longrightarrow> (n, peer, args, reply) \<in> aerep c \<Longrightarrow>
    replicateTo_reply (dSave D) ev peer t args reply (node p) = Panic e x \<Longrightarrow> section_panic D c n p e"
| PTakeBatch: "applier_batch (node p) = Panic e x \<Longrightarrow> section_panic D c n p e"
| PBatchDone: "applying p = Some (batch, []) \<Longrightarrow> applier_done batch (node p) = Panic e x \<Longrightarrow>
    section_panic D c n p e"
| PPropose: "Propose (dSave D) cmd (node p) = Panic e x \<Longrightarrow> section_panic D c n p e"
| PStatus: "Node_Status (node p) = Panic e x \<Longrightarrow> section_panic D c n p e"

section \<open>Runs\<close>

definition cinit :: "(NodeID \<Rightarrow> 's) \<Rightarrow> 's cluster" where
  "cinit st = \<lparr>servers = (\<lambda>n. Down (st n)), rvreq = {}, rvrep = {}, aereq = {}, aerep = {},
     delivered = {}\<rparr>"

text \<open>
  A node in bounds can still count: its term is below the largest 64-bit number, and its
  log below the largest length of a Go slice.
\<close>

definition node_bounded :: "'s Node \<Rightarrow> bool" where
  "node_bounded n \<longleftrightarrow>
     unat (currentTerm n) < max_u64 \<and> int (length (entries (log n))) < max_int"

definition bounded :: "('s, 'd) deployment \<Rightarrow> 's cluster \<Rightarrow> bool" where
  "bounded D c \<longleftrightarrow> (\<forall>n\<in>set (dMembers D).
     case servers c n of Running p \<Rightarrow> node_bounded (node p) | Down s \<Rightarrow> True)"

inductive creachable :: "('s, 'd) deployment \<Rightarrow> (NodeID \<Rightarrow> 's) \<Rightarrow> 's cluster \<Rightarrow> bool"
  for D :: "('s, 'd) deployment" and st :: "NodeID \<Rightarrow> 's" where
  start: "creachable D st (cinit st)"
| act: "creachable D st c \<Longrightarrow> bounded D c \<Longrightarrow> perform D a c = Some c' \<Longrightarrow> creachable D st c'"

text \<open>A run of given actions, each taken in a cluster that is in bounds.\<close>

fun run :: "('s, 'd) deployment \<Rightarrow> 'd action list \<Rightarrow> 's cluster \<Rightarrow> 's cluster option" where
  "run D [] c = Some c"
| "run D (a # as) c =
     (if bounded D c then case perform D a c of None \<Rightarrow> None | Some c' \<Rightarrow> run D as c' else None)"

lemma run_reachable: "run D as c = Some c' \<Longrightarrow> creachable D st c \<Longrightarrow> creachable D st c'"
  by (induction as arbitrary: c) (auto intro: creachable.act split: if_splits option.splits)

lemma run_append: "run D (as @ bs) c = (case run D as c of None \<Rightarrow> None | Some c' \<Rightarrow> run D bs c')"
  by (induction as arbitrary: c) (simp_all split: option.splits)

end
