(* ===== verification/Raft_Abstract.thy ===== *)
theory Raft_Abstract
  imports Raft_Message
begin

text \<open>
  The consensus protocol that the nodes implement, as a transition system over whole
  logs and unbounded terms, with the history a safety argument needs: who voted for whom
  in every term and with which logs, the log of every term's leader, and how much of it
  each node has stored while in that term. Messages do not appear: what an AppendEntries
  request carries is a segment of its leader's log, which only grows, and what a reply
  acknowledges is recorded in the history.

  The theory proves, for any family of quorums that pairwise intersect, that at most one
  leader is elected per term, that logs that agree on an entry agree on everything before
  it, that committed entries are in the log of every later leader, and that no two
  nodes ever apply different entries at the same index.
\<close>

section \<open>States and steps\<close>

type_synonym 'c alog = "(nat \<times> 'c) list"

record ('n, 'c) araft =
  ct :: "'n \<Rightarrow> nat"
  rl :: "'n \<Rightarrow> Role"
  lg :: "'n \<Rightarrow> 'c alog"
  ci :: "'n \<Rightarrow> nat"
  vt :: "nat \<Rightarrow> 'n \<Rightarrow> 'n option"
  vl :: "nat \<Rightarrow> 'n \<Rightarrow> 'c alog"
  cl :: "nat \<Rightarrow> 'n \<Rightarrow> 'c alog option"
  ld :: "nat \<Rightarrow> 'n option"
  ll :: "nat \<Rightarrow> 'c alog"
  ak :: "nat \<Rightarrow> 'n \<Rightarrow> nat"
  lc :: "nat \<Rightarrow> nat"
  ap :: "(nat \<times> nat \<times> 'c) set"

definition last_term :: "'c alog \<Rightarrow> nat" where
  "last_term l = (if l = [] then 0 else fst (last l))"

definition up_to_date :: "'c alog \<Rightarrow> 'c alog \<Rightarrow> bool" where
  "up_to_date l m \<longleftrightarrow>
     (if last_term l \<noteq> last_term m then last_term m < last_term l else length m \<le> length l)"

definition adopt_prefix :: "'c alog \<Rightarrow> 'c alog \<Rightarrow> nat \<Rightarrow> 'c alog" where
  "adopt_prefix l L m = (if take m l = take m L then l else take m L)"

definition ainit :: "('n, 'c) araft" where
  "ainit = \<lparr>ct = (\<lambda>_. 0), rl = (\<lambda>_. Follower), lg = (\<lambda>_. []), ci = (\<lambda>_. 0),
     vt = (\<lambda>_ _. None), vl = (\<lambda>_ _. []), cl = (\<lambda>_ _. None), ld = (\<lambda>_. None), ll = (\<lambda>_. []),
     ak = (\<lambda>_ _. 0), lc = (\<lambda>_. 0), ap = {}\<rparr>"

definition set_vote :: "('n, 'c) araft \<Rightarrow> nat \<Rightarrow> 'n \<Rightarrow> 'n \<Rightarrow> ('n, 'c) araft" where
  "set_vote s t n c =
     s\<lparr>vt := (vt s)(t := (vt s t)(n := Some c)), vl := (vl s)(t := (vl s t)(n := lg s n))\<rparr>"

definition set_ack :: "('n, 'c) araft \<Rightarrow> nat \<Rightarrow> 'n \<Rightarrow> nat \<Rightarrow> ('n, 'c) araft" where
  "set_ack s t n i = s\<lparr>ak := (ak s)(t := (ak s t)(n := max (ak s t n) i))\<rparr>"

definition set_leader_log :: "('n, 'c) araft \<Rightarrow> nat \<Rightarrow> 'n \<Rightarrow> 'c alog \<Rightarrow> ('n, 'c) araft" where
  "set_leader_log s t n l =
     set_ack (s\<lparr>lg := (lg s)(n := l), ll := (ll s)(t := l)\<rparr>) t n (length l)"

inductive astep :: "('n set \<Rightarrow> bool) \<Rightarrow> ('n, 'c) araft \<Rightarrow> ('n, 'c) araft \<Rightarrow> bool"
  for qu :: "'n set \<Rightarrow> bool" where
  Adopt: "ct s n < t \<Longrightarrow>
     astep qu s (s\<lparr>ct := (ct s)(n := t), rl := (rl s)(n := Follower)\<rparr>)"
| StepDown: "astep qu s (s\<lparr>rl := (rl s)(n := Follower)\<rparr>)"
| Crash: "astep qu s (s\<lparr>rl := (rl s)(n := Follower), ci := (ci s)(n := 0)\<rparr>)"
| Stand: "t = Suc (ct s n) \<Longrightarrow>
     astep qu s (set_vote (s\<lparr>ct := (ct s)(n := t), rl := (rl s)(n := Candidate),
        cl := (cl s)(t := (cl s t)(n := Some (lg s n)))\<rparr>) t n n)"
| Vote: "cl s t c = Some l \<Longrightarrow> ct s n = t \<Longrightarrow> vt s t n = None \<Longrightarrow> up_to_date l (lg s n) \<Longrightarrow>
     astep qu s (set_vote s t n c)"
| Elect: "rl s n = Candidate \<Longrightarrow> ct s n = t \<Longrightarrow> qu Q \<Longrightarrow> \<forall>q\<in>Q. vt s t q = Some n \<Longrightarrow>
     astep qu s (set_leader_log (s\<lparr>rl := (rl s)(n := Leader), ld := (ld s)(t := Some n),
        lc := (lc s)(t := ci s n)\<rparr>) t n (lg s n @ [(t, x)]))"
| Append: "rl s n = Leader \<Longrightarrow> ct s n = t \<Longrightarrow>
     astep qu s (set_leader_log s t n (lg s n @ [(t, x)]))"
| Store: "ld s t \<noteq> None \<Longrightarrow> ct s n = t \<Longrightarrow> rl s n \<noteq> Leader \<Longrightarrow> m \<le> length (ll s t) \<Longrightarrow>
     astep qu s (set_ack (s\<lparr>rl := (rl s)(n := Follower),
        lg := (lg s)(n := adopt_prefix (lg s n) (ll s t) m)\<rparr>) t n m)"
| Commit: "rl s n = Leader \<Longrightarrow> ct s n = t \<Longrightarrow> 0 < i \<Longrightarrow> i \<le> length (ll s t) \<Longrightarrow>
     fst (ll s t ! (i - 1)) = t \<Longrightarrow> qu Q \<Longrightarrow> \<forall>q\<in>Q. i \<le> ak s t q \<Longrightarrow> ci s n \<le> i \<Longrightarrow>
     astep qu s (s\<lparr>ci := (ci s)(n := i), lc := (lc s)(t := max (lc s t) i)\<rparr>)"
| Learn: "ld s t \<noteq> None \<Longrightarrow> ct s n = t \<Longrightarrow> rl s n \<noteq> Leader \<Longrightarrow> i \<le> lc s t \<Longrightarrow>
     i \<le> length (lg s n) \<Longrightarrow> take i (lg s n) = take i (ll s t) \<Longrightarrow> ci s n \<le> i \<Longrightarrow>
     astep qu s (s\<lparr>ci := (ci s)(n := i)\<rparr>)"
| Apply: "0 < k \<Longrightarrow> k \<le> ci s n \<Longrightarrow>
     astep qu s (s\<lparr>ap := insert (k, lg s n ! (k - 1)) (ap s)\<rparr>)"

inductive areachable :: "('n set \<Rightarrow> bool) \<Rightarrow> ('n, 'c) araft \<Rightarrow> bool"
  for qu :: "'n set \<Rightarrow> bool" where
  init: "areachable qu ainit"
| step: "areachable qu s \<Longrightarrow> astep qu s s' \<Longrightarrow> areachable qu s'"

lemmas aupdates = set_vote_def set_ack_def set_leader_log_def

section \<open>Elections\<close>

definition votes_bounded :: "('n, 'c) araft \<Rightarrow> bool" where
  "votes_bounded s \<longleftrightarrow> (\<forall>t n. vt s t n \<noteq> None \<longrightarrow> t \<le> ct s n)"

definition stands_self :: "('n, 'c) araft \<Rightarrow> bool" where
  "stands_self s \<longleftrightarrow> (\<forall>t n. cl s t n \<noteq> None \<longrightarrow> 0 < t \<and> vt s t n = Some n)"

definition candidates_ok :: "('n, 'c) araft \<Rightarrow> bool" where
  "candidates_ok s \<longleftrightarrow> (\<forall>n. rl s n = Candidate \<longrightarrow>
     cl s (ct s n) n = Some (lg s n) \<and> ld s (ct s n) \<noteq> Some n)"

definition votes_ok :: "('n, 'c) araft \<Rightarrow> bool" where
  "votes_ok s \<longleftrightarrow> (\<forall>t n c. vt s t n = Some c \<longrightarrow>
     (\<exists>l. cl s t c = Some l \<and> up_to_date l (vl s t n)))"

definition leaders_elected :: "('n set \<Rightarrow> bool) \<Rightarrow> ('n, 'c) araft \<Rightarrow> bool" where
  "leaders_elected qu s \<longleftrightarrow> (\<forall>t n. ld s t = Some n \<longrightarrow>
     t \<le> ct s n \<and> (\<exists>Q. qu Q \<and> (\<forall>q\<in>Q. vt s t q = Some n)))"

definition leader_logs :: "('n, 'c) araft \<Rightarrow> bool" where
  "leader_logs s \<longleftrightarrow> (\<forall>t n. ld s t = Some n \<longrightarrow>
     (\<exists>l x z. cl s t n = Some l \<and> ll s t = l @ (t, x) # z))"

definition unled_terms :: "('n, 'c) araft \<Rightarrow> bool" where
  "unled_terms s \<longleftrightarrow> (\<forall>t. ld s t = None \<longrightarrow> ll s t = [] \<and> (\<forall>n. ak s t n = 0))"

definition leaders_ok :: "('n, 'c) araft \<Rightarrow> bool" where
  "leaders_ok s \<longleftrightarrow> (\<forall>n. rl s n = Leader \<longrightarrow>
     ld s (ct s n) = Some n \<and> lg s n = ll s (ct s n))"

definition election_inv :: "('n set \<Rightarrow> bool) \<Rightarrow> ('n, 'c) araft \<Rightarrow> bool" where
  "election_inv qu s \<longleftrightarrow> votes_bounded s \<and> stands_self s \<and> candidates_ok s \<and> votes_ok s \<and>
     leaders_elected qu s \<and> leader_logs s \<and> unled_terms s \<and> leaders_ok s"

lemmas election_defs = votes_bounded_def stands_self_def candidates_ok_def votes_ok_def
  leaders_elected_def leader_logs_def unled_terms_def leaders_ok_def

lemma up_to_date_refl [simp]: "up_to_date l l"
  by (simp add: up_to_date_def)

lemma election_inv_init: "election_inv qu ainit"
  by (simp add: election_inv_def election_defs ainit_def)

lemma election_invD:
  assumes "election_inv qu s"
  shows "vt s t n = Some c \<Longrightarrow> t \<le> ct s n"
    and "cl s t n = Some l \<Longrightarrow> 0 < t"
    and "cl s t n = Some l \<Longrightarrow> vt s t n = Some n"
    and "rl s n = Candidate \<Longrightarrow> cl s (ct s n) n = Some (lg s n)"
    and "rl s n = Candidate \<Longrightarrow> ld s (ct s n) \<noteq> Some n"
    and "vt s t n = Some c \<Longrightarrow> \<exists>l. cl s t c = Some l \<and> up_to_date l (vl s t n)"
    and "ld s t = Some n \<Longrightarrow> t \<le> ct s n"
    and "ld s t = Some n \<Longrightarrow> \<exists>Q. qu Q \<and> (\<forall>q\<in>Q. vt s t q = Some n)"
    and "ld s t = Some n \<Longrightarrow> \<exists>l x z. cl s t n = Some l \<and> ll s t = l @ (t, x) # z"
    and "ld s t = None \<Longrightarrow> ll s t = []"
    and "ld s t = None \<Longrightarrow> ak s t n = 0"
    and "rl s n = Leader \<Longrightarrow> ld s (ct s n) = Some n"
    and "rl s n = Leader \<Longrightarrow> lg s n = ll s (ct s n)"
proof -
  have i: "votes_bounded s" "stands_self s" "candidates_ok s" "votes_ok s"
    "leaders_elected qu s" "leader_logs s" "unled_terms s" "leaders_ok s"
    using assms by (simp_all add: election_inv_def)
  show "vt s t n = Some c \<Longrightarrow> t \<le> ct s n" using i(1) by (simp add: votes_bounded_def)
  show "cl s t n = Some l \<Longrightarrow> 0 < t" "cl s t n = Some l \<Longrightarrow> vt s t n = Some n"
    using i(2) by (auto simp: stands_self_def)
  show "rl s n = Candidate \<Longrightarrow> cl s (ct s n) n = Some (lg s n)"
    "rl s n = Candidate \<Longrightarrow> ld s (ct s n) \<noteq> Some n"
    using i(3) by (simp_all add: candidates_ok_def)
  show "vt s t n = Some c \<Longrightarrow> \<exists>l. cl s t c = Some l \<and> up_to_date l (vl s t n)"
    using i(4) by (simp add: votes_ok_def)
  show "ld s t = Some n \<Longrightarrow> t \<le> ct s n"
    "ld s t = Some n \<Longrightarrow> \<exists>Q. qu Q \<and> (\<forall>q\<in>Q. vt s t q = Some n)"
    using i(5) by (simp_all add: leaders_elected_def)
  show "ld s t = Some n \<Longrightarrow> \<exists>l x z. cl s t n = Some l \<and> ll s t = l @ (t, x) # z"
    using i(6) by (simp add: leader_logs_def)
  show "ld s t = None \<Longrightarrow> ll s t = []" "ld s t = None \<Longrightarrow> ak s t n = 0"
    using i(7) by (simp_all add: unled_terms_def)
  show "rl s n = Leader \<Longrightarrow> ld s (ct s n) = Some n" "rl s n = Leader \<Longrightarrow> lg s n = ll s (ct s n)"
    using i(8) by (simp_all add: leaders_ok_def)
qed

lemma fresh_term:
  assumes "election_inv qu s" "ct s n < t"
  shows "vt s t n = None" "cl s t n = None" "ld s t \<noteq> Some n"
  using assms election_invD(1,3,7) [OF assms(1)] by (metis leD not_None_eq)+

lemma one_leader:
  "election_inv qu s \<Longrightarrow> rl s n = Leader \<Longrightarrow> rl s m = Leader \<Longrightarrow> ct s m = ct s n \<Longrightarrow> m = n"
  by (metis election_invD(12) option.inject)

text \<open>
  Quorums: any family of sets of which every two have a member in common. The majorities
  that the nodes count are an instance (theory Raft-Cluster).
\<close>

locale quorum_system =
  fixes qu :: "'n set \<Rightarrow> bool"
  assumes quorums_meet: "qu A \<Longrightarrow> qu B \<Longrightarrow> A \<inter> B \<noteq> {}"
begin

lemma one_winner:
  assumes "qu Q" "\<forall>q\<in>Q. vt s t q = Some n" "qu R" "\<forall>q\<in>R. vt s t q = Some m"
  shows "n = m"
  using assms quorums_meet [of Q R] by fastforce

lemma no_leader_yet:
  assumes "election_inv qu s" "rl s n = Candidate"
    and "qu Q" "\<forall>q\<in>Q. vt s (ct s n) q = Some n"
  shows "ld s (ct s n) = None"
proof (cases "ld s (ct s n)")
  case (Some m)
  then obtain R where "qu R" "\<forall>q\<in>R. vt s (ct s n) q = Some m"
    using election_invD(8) [OF assms(1)] by blast
  then have "m = n" using assms(3,4) one_winner by metis
  then show ?thesis using Some assms(2) election_invD(5) [OF assms(1)] by simp
qed

lemma step_votes:
  assumes "astep qu s s'" "election_inv qu s"
  shows "votes_bounded s'" "stands_self s'"
proof -
  have a: "votes_bounded s" "stands_self s"
    using assms(2) by (simp_all add: election_inv_def)
  show "votes_bounded s'"
    using assms(1)
  proof cases
    case (Adopt n t)
    then show ?thesis using a(1) by (fastforce simp: votes_bounded_def)
  next
    case (Stand t n)
    then show ?thesis using a(1) by (fastforce simp: votes_bounded_def aupdates)
  qed (use a(1) in \<open>auto simp: votes_bounded_def aupdates\<close>)
  show "stands_self s'"
    using assms(1)
    by cases (use a(2) in \<open>auto simp: stands_self_def aupdates\<close>)
qed

lemma step_candidates:
  assumes "astep qu s s'" "election_inv qu s"
  shows "candidates_ok s'"
proof -
  have a: "candidates_ok s" using assms(2) by (simp add: election_inv_def)
  show ?thesis
    using assms(1)
  proof cases
    case (Stand t n)
    then show ?thesis
      using a fresh_term(3) [OF assms(2), of n t] by (auto simp: candidates_ok_def aupdates)
  next
    case (Vote t c l n)
    then show ?thesis using a by (simp add: candidates_ok_def aupdates)
  qed (use a in \<open>auto simp: candidates_ok_def aupdates\<close>)
qed

lemma step_votes_ok:
  assumes "astep qu s s'" "election_inv qu s"
  shows "votes_ok s'"
proof -
  have a: "votes_ok s" using assms(2) by (simp add: election_inv_def)
  show ?thesis
    using assms(1)
  proof cases
    case (Stand t n)
    have "cl s t n = None" using fresh_term(2) [OF assms(2), of n t] Stand by simp
    with Stand a show ?thesis by (fastforce simp: votes_ok_def aupdates)
  next
    case (Vote t c l n)
    then show ?thesis using a by (auto simp: votes_ok_def aupdates)
  qed (use a in \<open>auto simp: votes_ok_def aupdates\<close>)
qed

lemma step_leaders_elected:
  assumes "astep qu s s'" "election_inv qu s"
  shows "leaders_elected qu s'"
proof -
  have a: "leaders_elected qu s" using assms(2) by (simp add: election_inv_def)
  have keep: "leaders_elected qu s'"
    if "ld s' = ld s" "\<And>n. ct s n \<le> ct s' n" "\<And>t n c. vt s t n = Some c \<Longrightarrow> vt s' t n = Some c"
    unfolding leaders_elected_def
  proof (intro allI impI)
    fix t n assume "ld s' t = Some n"
    then have "t \<le> ct s n" "\<exists>Q. qu Q \<and> (\<forall>q\<in>Q. vt s t q = Some n)"
      using a that(1) by (simp_all add: leaders_elected_def)
    then show "t \<le> ct s' n \<and> (\<exists>Q. qu Q \<and> (\<forall>q\<in>Q. vt s' t q = Some n))"
      using that(2) [of n] that(3) by (meson le_trans)
  qed
  show ?thesis
    using assms(1)
  proof cases
    case (Stand t n)
    then show ?thesis
      using fresh_term(1) [OF assms(2), of n t] by (intro keep) (auto simp: aupdates)
  next
    case (Vote t c l n)
    then show ?thesis by (intro keep) (auto simp: aupdates)
  next
    case (Elect n t Q x)
    then show ?thesis using a by (auto simp: leaders_elected_def aupdates)
  qed (rule keep; auto simp: aupdates)+
qed

lemma step_leader_logs:
  assumes "astep qu s s'" "election_inv qu s"
  shows "leader_logs s'"
proof -
  have a: "leader_logs s" using assms(2) by (simp add: election_inv_def)
  show ?thesis
    using assms(1)
  proof cases
    case (Stand t n)
    then show ?thesis
      using a fresh_term(2,3) [OF assms(2), of n t] by (auto simp: leader_logs_def aupdates)
  next
    case (Elect n t Q x)
    then show ?thesis
      using a election_invD(4) [OF assms(2), of n] by (auto simp: leader_logs_def aupdates)
  next
    case (Append n t x)
    obtain l y z where l: "cl s t n = Some l" "ll s t = l @ (t, y) # z"
      using election_invD(9,12) [OF assms(2)] Append by blast
    moreover have "lg s n = ll s t" "ld s t = Some n"
      using election_invD(12,13) [OF assms(2)] Append by auto
    ultimately show ?thesis using a Append by (auto simp: leader_logs_def aupdates)
  qed (use a in \<open>auto simp: leader_logs_def aupdates\<close>)
qed

lemma step_unled_terms:
  assumes "astep qu s s'" "election_inv qu s"
  shows "unled_terms s'"
proof -
  have a: "unled_terms s" using assms(2) by (simp add: election_inv_def)
  show ?thesis
    using assms(1)
  proof cases
    case (Append n t x)
    then show ?thesis
      using a election_invD(12) [OF assms(2), of n] by (auto simp: unled_terms_def aupdates)
  qed (use a in \<open>auto simp: unled_terms_def aupdates\<close>)
qed

lemma step_leaders_ok:
  assumes "astep qu s s'" "election_inv qu s"
  shows "leaders_ok s'"
proof -
  have a: "leaders_ok s" using assms(2) by (simp add: election_inv_def)
  show ?thesis
    using assms(1)
  proof cases
    case (Elect n t Q x)
    then have "ld s t = None" using no_leader_yet [OF assms(2), of n] by simp
    then show ?thesis using a Elect by (auto simp: leaders_ok_def aupdates)
  next
    case (Append n t x)
    show ?thesis
      unfolding leaders_ok_def
    proof (intro allI impI)
      fix m assume "rl s' m = Leader"
      then have m: "rl s m = Leader" using Append by (simp add: aupdates)
      then have "m \<noteq> n \<Longrightarrow> ct s m \<noteq> ct s n"
        using one_leader [OF assms(2) Append(2) m] by blast
      then show "ld s' (ct s' m) = Some m \<and> lg s' m = ll s' (ct s' m)"
        using Append m election_invD(12,13) [OF assms(2), of m] by (cases "m = n") (simp_all add: aupdates)
    qed
  qed (use a in \<open>auto simp: leaders_ok_def aupdates\<close>)
qed

lemma election_inv_step:
  assumes "astep qu s s'" "election_inv qu s"
  shows "election_inv qu s'"
  unfolding election_inv_def
  using assms by (simp add: step_votes step_candidates step_votes_ok step_leaders_elected
      step_leader_logs step_unled_terms step_leaders_ok)

end

section \<open>What no step undoes\<close>

definition extends :: "('n, 'c) araft \<Rightarrow> ('n, 'c) araft \<Rightarrow> bool" where
  "extends s s' \<longleftrightarrow>
     (\<forall>n. ct s n \<le> ct s' n) \<and>
     (\<forall>t m. ld s t = Some m \<longrightarrow> ld s' t = Some m) \<and>
     (\<forall>t. \<exists>z. ll s' t = ll s t @ z) \<and>
     (\<forall>t n. ak s t n \<le> ak s' t n) \<and>
     (\<forall>t n. t < ct s n \<longrightarrow> ak s' t n = ak s t n)"

lemma extendsD:
  assumes "extends s s'"
  shows "ct s n \<le> ct s' n"
    and "ld s t = Some m \<Longrightarrow> ld s' t = Some m"
    and "\<exists>z. ll s' t = ll s t @ z"
    and "ak s t n \<le> ak s' t n"
    and "t < ct s n \<Longrightarrow> ak s' t n = ak s t n"
  using assms by (simp_all add: extends_def)

lemma extends_take:
  "extends s s' \<Longrightarrow> i \<le> length (ll s t) \<Longrightarrow> take i (ll s' t) = take i (ll s t)"
  using extendsD(3) [of s s' t] by auto

lemma extends_nth:
  "extends s s' \<Longrightarrow> i < length (ll s t) \<Longrightarrow> ll s' t ! i = ll s t ! i"
  using extendsD(3) [of s s' t] by (auto simp: nth_append)

lemma extends_length: "extends s s' \<Longrightarrow> length (ll s t) \<le> length (ll s' t)"
  using extendsD(3) [of s s' t] by auto

context quorum_system
begin

lemma step_extends:
  assumes "astep qu s s'" "election_inv qu s"
  shows "extends s s'"
  using assms(1)
proof cases
  case (Elect n t Q x)
  then have "ld s t = None" using no_leader_yet [OF assms(2), of n] by simp
  moreover from this have "ll s t = []" using election_invD(10) [OF assms(2)] by blast
  ultimately show ?thesis using Elect by (auto simp: extends_def aupdates)
next
  case (Append n t x)
  then have "lg s n = ll s t" using election_invD(13) [OF assms(2)] by blast
  then show ?thesis using Append by (auto simp: extends_def aupdates)
qed (auto simp: extends_def aupdates)

end

section \<open>Log matching\<close>

text \<open>
  Every prefix of a log that ends in an entry of term \<open>u\<close> is a prefix of the log of the
  leader of \<open>u\<close>.
\<close>

definition log_ok :: "('n, 'c) araft \<Rightarrow> 'c alog \<Rightarrow> bool" where
  "log_ok s l \<longleftrightarrow> (\<forall>i < length l. let u = fst (l ! i) in
     ld s u \<noteq> None \<and> i < length (ll s u) \<and> take (Suc i) l = take (Suc i) (ll s u))"

definition matching_inv :: "('n, 'c) araft \<Rightarrow> bool" where
  "matching_inv s \<longleftrightarrow> (\<forall>n. log_ok s (lg s n)) \<and> (\<forall>t. log_ok s (ll s t)) \<and>
     (\<forall>t n l. cl s t n = Some l \<longrightarrow> log_ok s l) \<and> (\<forall>t n. log_ok s (vl s t n))"

definition terms_inv :: "('n, 'c) araft \<Rightarrow> bool" where
  "terms_inv s \<longleftrightarrow> (\<forall>n. \<forall>e\<in>set (lg s n). fst e \<le> ct s n) \<and>
     (\<forall>t. (\<forall>e\<in>set (ll s t). fst e \<le> t) \<and> sorted (map fst (ll s t))) \<and>
     (\<forall>t n l. cl s t n = Some l \<longrightarrow> (\<forall>e\<in>set l. fst e < t))"

lemma log_okD:
  assumes "log_ok s l" "i < length l"
  shows "ld s (fst (l ! i)) \<noteq> None" "i < length (ll s (fst (l ! i)))"
    "take (Suc i) l = take (Suc i) (ll s (fst (l ! i)))"
    "l ! i = ll s (fst (l ! i)) ! i"
proof -
  show *: "ld s (fst (l ! i)) \<noteq> None" "i < length (ll s (fst (l ! i)))"
    "take (Suc i) l = take (Suc i) (ll s (fst (l ! i)))"
    using assms by (simp_all add: log_ok_def Let_def)
  show "l ! i = ll s (fst (l ! i)) ! i"
    using arg_cong [OF *(3), of "\<lambda>l. l ! i"] by simp
qed

lemma log_ok_extends:
  assumes "extends s s'" "log_ok s l"
  shows "log_ok s' l"
  unfolding log_ok_def Let_def
proof (intro allI impI)
  fix i assume i: "i < length l"
  note l = log_okD [OF assms(2) i]
  have "ld s' (fst (l ! i)) \<noteq> None" using l(1) extendsD(2) [OF assms(1)] by fastforce
  moreover have "i < length (ll s' (fst (l ! i)))"
    using l(2) extends_length [OF assms(1), of "fst (l ! i)"] by simp
  moreover have "take (Suc i) l = take (Suc i) (ll s' (fst (l ! i)))"
    using l(2,3) extends_take [OF assms(1), of "Suc i" "fst (l ! i)"] by simp
  ultimately show "ld s' (fst (l ! i)) \<noteq> None \<and> i < length (ll s' (fst (l ! i))) \<and>
      take (Suc i) l = take (Suc i) (ll s' (fst (l ! i)))" by simp
qed

lemma log_ok_take: "log_ok s l \<Longrightarrow> log_ok s (take m l)"
  by (auto simp: log_ok_def Let_def min_def)

lemma log_ok_adopt: "log_ok s l \<Longrightarrow> log_ok s L \<Longrightarrow> log_ok s (adopt_prefix l L m)"
  by (simp add: adopt_prefix_def log_ok_take)

lemma log_ok_snoc:
  assumes "log_ok s l" "ld s t \<noteq> None" "ll s t = l @ [(t, x)]"
  shows "log_ok s (l @ [(t, x)])"
  using assms by (auto simp: log_ok_def Let_def nth_append less_Suc_eq)

lemma log_ok_sorted:
  assumes "log_ok s l" "terms_inv s"
  shows "sorted (map fst l)"
  unfolding sorted_iff_nth_mono
proof (intro allI impI)
  fix i j assume ij: "i \<le> j" "j < length (map fst l)"
  let ?L = "ll s (fst (l ! j))"
  note l = log_okD [OF assms(1), of j]
  have "take (Suc j) l ! i = take (Suc j) ?L ! i" using l(3) ij by simp
  then have "l ! i = ?L ! i" using ij by simp
  moreover have "sorted (map fst ?L)" using assms(2) by (simp add: terms_inv_def)
  then have "fst (?L ! i) \<le> fst (?L ! j)"
    using ij l(2) sorted_nth_mono [of "map fst ?L" i j] by simp
  moreover have "l ! j = ?L ! j" using l(4) ij by simp
  ultimately show "map fst l ! i \<le> map fst l ! j" using ij by simp
qed

lemma adopt_keeps:
  assumes "k \<le> length l" "take k l = take k L" "m \<le> length L"
  shows "k \<le> length (adopt_prefix l L m)" "take k (adopt_prefix l L m) = take k L"
proof -
  have "m \<le> k \<Longrightarrow> take m l = take m L"
    using assms(2) by (metis min.absorb2 min.commute take_take)
  then have "take m l \<noteq> take m L \<Longrightarrow> k < m" by linarith
  then show "k \<le> length (adopt_prefix l L m)" "take k (adopt_prefix l L m) = take k L"
    using assms by (auto simp: adopt_prefix_def min_def)
qed

lemma adopt_gains:
  assumes "m \<le> length L"
  shows "m \<le> length (adopt_prefix l L m)" "take m (adopt_prefix l L m) = take m L"
proof -
  have "take m l = take m L \<Longrightarrow> m \<le> length l"
    using assms by (metis length_take min.absorb2 min.cobounded1)
  then show "m \<le> length (adopt_prefix l L m)" "take m (adopt_prefix l L m) = take m L"
    using assms by (auto simp: adopt_prefix_def)
qed

lemma set_adopt: "set (adopt_prefix l L m) \<subseteq> set l \<union> set L"
  by (auto simp: adopt_prefix_def dest: in_set_takeD)

context quorum_system
begin

lemma terms_inv_step:
  assumes "astep qu s s'" "election_inv qu s" "matching_inv s" "terms_inv s"
  shows "terms_inv s'"
proof -
  have srt: "sorted (map fst (lg s n))" and le: "e \<in> set (lg s n) \<Longrightarrow> fst e \<le> ct s n" for n e
    using assms log_ok_sorted by (auto simp: matching_inv_def terms_inv_def)
  show ?thesis
    using assms(1)
  proof cases
    case (Adopt n t)
    then show ?thesis using assms(4) le [of _ n] by (fastforce simp: terms_inv_def)
  next
    case (Stand t n)
    then show ?thesis using assms(4) le [of _ n] by (fastforce simp: terms_inv_def aupdates)
  next
    case (Elect n t Q x)
    then show ?thesis using assms(4) srt [of n] le by (auto simp: terms_inv_def aupdates sorted_append)
  next
    case (Append n t x)
    then show ?thesis using assms(4) srt [of n] le by (auto simp: terms_inv_def aupdates sorted_append)
  next
    case (Store t n m)
    have "fst e \<le> t" if "e \<in> set (adopt_prefix (lg s n) (ll s t) m)" for e
      using that set_adopt [of "lg s n" "ll s t" m] assms(4) Store(3) le [of e n]
      by (auto simp: terms_inv_def)
    then show ?thesis using assms(4) Store by (auto simp: terms_inv_def aupdates)
  qed (use assms(4) in \<open>auto simp: terms_inv_def aupdates\<close>)
qed

lemma matching_inv_step:
  assumes "astep qu s s'" "election_inv qu s" "matching_inv s"
  shows "matching_inv s'"
proof -
  note ext = log_ok_extends [OF step_extends [OF assms(1,2)]]
  have old: "log_ok s' (lg s n)" "log_ok s' (ll s t)" "log_ok s' (vl s t n)"
    "cl s t n = Some l \<Longrightarrow> log_ok s' l" for n t l
    using assms(3) by (auto simp: matching_inv_def intro: ext)
  show ?thesis
    using assms(1)
  proof cases
    case (Elect n t Q x)
    have "log_ok s' (lg s n @ [(t, x)])"
      by (rule log_ok_snoc) (use old Elect in \<open>auto simp: aupdates\<close>)
    then show ?thesis using old Elect unfolding matching_inv_def by (simp add: aupdates)
  next
    case (Append n t x)
    have "log_ok s' (lg s n @ [(t, x)])"
      by (rule log_ok_snoc)
        (use old Append election_invD(12) [OF assms(2)] in \<open>auto simp: aupdates\<close>)
    then show ?thesis using old Append unfolding matching_inv_def by (simp add: aupdates)
  next
    case (Store t n m)
    have "log_ok s' (adopt_prefix (lg s n) (ll s t) m)" using old by (intro log_ok_adopt)
    then show ?thesis using old Store unfolding matching_inv_def by (simp add: aupdates)
  qed (use old in \<open>unfold matching_inv_def, simp_all add: aupdates\<close>)
qed

end

section \<open>Chosen entries stay\<close>

text \<open>
  \<open>own s t i\<close>: the entry at index \<open>i\<close> of the log of term \<open>t\<close>'s leader is that
  leader's own. \<open>holds s l t i\<close>: log \<open>l\<close> agrees with that leader's log up to \<open>i\<close>.
  \<open>dead qu s t i\<close>: a quorum has moved past term \<open>t\<close> without storing index \<open>i\<close>, so
  it can no longer be committed in term \<open>t\<close>.
\<close>

definition own :: "('n, 'c) araft \<Rightarrow> nat \<Rightarrow> nat \<Rightarrow> bool" where
  "own s t i \<longleftrightarrow> 0 < i \<and> i \<le> length (ll s t) \<and> fst (ll s t ! (i - 1)) = t"

definition holds :: "('n, 'c) araft \<Rightarrow> 'c alog \<Rightarrow> nat \<Rightarrow> nat \<Rightarrow> bool" where
  "holds s l t i \<longleftrightarrow> i \<le> length l \<and> take i l = take i (ll s t)"

definition dead :: "('n set \<Rightarrow> bool) \<Rightarrow> ('n, 'c) araft \<Rightarrow> nat \<Rightarrow> nat \<Rightarrow> bool" where
  "dead qu s t i \<longleftrightarrow> (\<exists>Q. qu Q \<and> (\<forall>q\<in>Q. t < ct s q \<and> ak s t q < i))"

definition ack_inv :: "('n, 'c) araft \<Rightarrow> bool" where
  "ack_inv s \<longleftrightarrow> (\<forall>t n. ak s t n \<le> length (ll s t) \<and> (0 < ak s t n \<longrightarrow> t \<le> ct s n))"

definition keep_inv :: "('n set \<Rightarrow> bool) \<Rightarrow> ('n, 'c) araft \<Rightarrow> bool" where
  "keep_inv qu s \<longleftrightarrow> (\<forall>n t i. own s t i \<and> i \<le> ak s t n \<longrightarrow> holds s (lg s n) t i \<or> dead qu s t i)"

definition voter_inv :: "('n set \<Rightarrow> bool) \<Rightarrow> ('n, 'c) araft \<Rightarrow> bool" where
  "voter_inv qu s \<longleftrightarrow> (\<forall>n t t' i. vt s t' n \<noteq> None \<and> t < t' \<and> own s t i \<and> i \<le> ak s t n \<longrightarrow>
     holds s (vl s t' n) t i \<or> dead qu s t i)"

definition later_inv :: "('n set \<Rightarrow> bool) \<Rightarrow> ('n, 'c) araft \<Rightarrow> bool" where
  "later_inv qu s \<longleftrightarrow> (\<forall>t t' i. t < t' \<and> ld s t' \<noteq> None \<and> own s t i \<longrightarrow>
     holds s (ll s t') t i \<or> dead qu s t i)"

definition base_inv :: "('n set \<Rightarrow> bool) \<Rightarrow> ('n, 'c) araft \<Rightarrow> bool" where
  "base_inv qu s \<longleftrightarrow> election_inv qu s \<and> matching_inv s \<and> terms_inv s \<and> ack_inv s"

lemma base_invD:
  assumes "base_inv qu s"
  shows "election_inv qu s" "matching_inv s" "terms_inv s" "ack_inv s"
    and "log_ok s (lg s n)" "log_ok s (ll s t)" "cl s t n = Some l \<Longrightarrow> log_ok s l"
    and "log_ok s (vl s t n)"
    and "e \<in> set (ll s t) \<Longrightarrow> fst e \<le> t"
    and "ak s t n \<le> length (ll s t)" "0 < ak s t n \<Longrightarrow> t \<le> ct s n"
  using assms by (auto simp: base_inv_def matching_inv_def terms_inv_def ack_inv_def)

lemma own_led: "election_inv qu s \<Longrightarrow> own s t i \<Longrightarrow> ld s t \<noteq> None"
  using election_invD(10) [of qu s t] by (cases "ld s t") (auto simp: own_def)

lemma own_extends: "extends s s' \<Longrightarrow> own s t i \<Longrightarrow> own s' t i"
  using extends_nth [of s s' "i - 1" t] extends_length [of s s' t] by (auto simp: own_def)

lemma own_before:
  "extends s s' \<Longrightarrow> own s' t i \<Longrightarrow> i \<le> length (ll s t) \<Longrightarrow> own s t i"
  using extends_nth [of s s' "i - 1" t] by (auto simp: own_def)

lemma holds_extends:
  "extends s s' \<Longrightarrow> own s t i \<Longrightarrow> holds s l t i \<Longrightarrow> holds s' l t i"
  by (simp add: holds_def own_def extends_take)

lemma holds_shorter:
  assumes "holds s l t k" "i \<le> k"
  shows "holds s l t i"
proof -
  have "take i (take k l) = take i (take k (ll s t))" using assms(1) by (simp add: holds_def)
  then show ?thesis using assms by (simp add: holds_def min_def)
qed

lemma holds_append: "holds s l t i \<Longrightarrow> holds s (l @ z) t i"
  by (simp add: holds_def)

lemma holds_leader:
  assumes "extends s s'" "own s t i" "holds s (ll s t') t i"
  shows "holds s' (ll s' t') t i"
  using holds_extends [OF assms] extendsD(3) [OF assms(1), of t'] holds_append by metis

lemma dead_extends:
  assumes "extends s s'" "dead qu s t i"
  shows "dead qu s' t i"
  using assms extendsD(1,5) [OF assms(1)] unfolding dead_def by (metis order_less_le_trans)

lemma ack_inv_step:
  assumes "astep qu s s'" "election_inv qu s" "ack_inv s" "extends s s'"
  shows "ack_inv s'"
proof -
  have old: "ak s t n \<le> length (ll s' t)" "0 < ak s t n \<Longrightarrow> t \<le> ct s' n" for t n
    using assms(3) extends_length [OF assms(4), of t] extendsD(1) [OF assms(4), of n]
    by (auto simp: ack_inv_def intro: order_trans)
  have keep: "ack_inv s'" if "ak s' = ak s"
    using old that by (simp add: ack_inv_def)
  have add: "ack_inv s'"
    if "ak s' = (ak s)(t := (ak s t)(n := max (ak s t n) m))" "m \<le> length (ll s' t)" "t \<le> ct s' n"
    for t n m
    using old that by (simp add: ack_inv_def)
  show ?thesis
    using assms(1)
  proof cases
    case (Elect n t Q x)
    then show ?thesis by (intro add [of t n "Suc (length (lg s n))"]) (simp_all add: aupdates)
  next
    case (Append n t x)
    then show ?thesis by (intro add [of t n "Suc (length (lg s n))"]) (simp_all add: aupdates)
  next
    case (Store t n m)
    then show ?thesis by (intro add [of t n m]) (simp_all add: aupdates)
  qed (rule keep; simp add: aupdates)+
qed

text \<open>
  A log that is at least as up to date as one that holds a leader's own entry holds it
  too, unless the entry is dead: the step of the election restriction.
\<close>

lemma up_to_date_holds:
  assumes inv: "base_inv qu s" "later_inv qu s"
    and "log_ok s c" "log_ok s v" "up_to_date c v" "own s t i" "holds s v t i"
  shows "holds s c t i \<or> dead qu s t i"
proof -
  have i: "0 < i" "i \<le> length v" "i \<le> length (ll s t)" "fst (ll s t ! (i - 1)) = t"
    and tv: "take i v = take i (ll s t)"
    using assms(6,7) by (auto simp: own_def holds_def)
  have vi: "v ! (i - 1) = ll s t ! (i - 1)"
    using i arg_cong [OF tv, of "\<lambda>l. l ! (i - 1)"] by simp
  have "sorted (map fst v)" using log_ok_sorted assms(4) base_invD(3) [OF inv(1)] by blast
  then have "fst (v ! (i - 1)) \<le> fst (v ! (length v - 1))"
    using i sorted_nth_mono [of "map fst v" "i - 1" "length v - 1"] by simp
  then have tv': "t \<le> last_term v" using vi i by (auto simp: last_term_def last_conv_nth)
  then have T: "t \<le> last_term c" using assms(5) by (auto simp: up_to_date_def split: if_splits)
  have "0 < t"
  proof -
    obtain m where "ld s t = Some m" using own_led [OF base_invD(1) [OF inv(1)] assms(6)] by blast
    then show ?thesis using election_invD(2,9) [OF base_invD(1) [OF inv(1)]] by blast
  qed
  with T have c: "c \<noteq> []" and lc: "fst (c ! (length c - 1)) = last_term c"
    by (auto simp: last_term_def last_conv_nth)
  let ?k = "length c - 1"
  let ?L = "ll s (last_term c)"
  note ck = log_okD [OF assms(3), of ?k, unfolded lc]
  have pre: "c = take (length c) ?L" "ld s (last_term c) \<noteq> None" "length c \<le> length ?L"
    using ck c by (auto simp: Suc_diff_Suc)
  show ?thesis
  proof (cases "last_term c = t")
    case True
    then have "length v \<le> length c" using tv' assms(5) by (auto simp: up_to_date_def split: if_splits)
    then have "i \<le> length c" using i by simp
    moreover have "take i c = take i (ll s t)" using pre(1) True \<open>i \<le> length c\<close>
      by (metis min.absorb2 min.commute take_take)
    ultimately show ?thesis by (simp add: holds_def)
  next
    case False
    with T have lt: "t < last_term c" by simp
    then consider "holds s ?L t i" | "dead qu s t i"
      using inv(2) pre(2) assms(6) by (auto simp: later_inv_def)
    then show ?thesis
    proof cases
      case 1
      then have L: "i \<le> length ?L" "take i ?L = take i (ll s t)" by (auto simp: holds_def)
      have "i \<le> length c"
      proof (rule ccontr)
        assume "\<not> i \<le> length c"
        then have k: "?k < i" by simp
        have "c ! ?k = ?L ! ?k" using ck(4) c by simp
        also have "\<dots> = ll s t ! ?k" using k arg_cong [OF L(2), of "\<lambda>l. l ! ?k"] by simp
        finally have "fst (ll s t ! ?k) = last_term c" using lc by simp
        moreover have "fst (ll s t ! ?k) \<le> t"
          using base_invD(9) [OF inv(1)] k i(3) by (intro base_invD(9) [OF inv(1)]) simp
        ultimately show False using lt by simp
      qed
      then show ?thesis using L pre(1) by (metis holds_def min.absorb2 min.commute take_take)
    qed simp
  qed
qed

context quorum_system
begin

lemma base_inv_step:
  assumes "astep qu s s'" "base_inv qu s"
  shows "base_inv qu s'"
  unfolding base_inv_def
  using assms base_invD(1-4) [OF assms(2)]
  by (simp add: election_inv_step matching_inv_step terms_inv_step ack_inv_step step_extends)

text \<open>Only the leader of a term extends that term's log, and only while in that term.\<close>

lemma new_own:
  assumes "astep qu s s'" "base_inv qu s" "own s' t i" "\<not> own s t i"
  shows "\<exists>n. ct s n = t \<and> ct s' n = t \<and> lg s' n = ll s' t \<and> (\<forall>m. m \<noteq> n \<longrightarrow> ak s' t m = ak s t m) \<and>
     length (ll s t) < i \<and> (\<forall>u. u \<noteq> t \<longrightarrow> ld s' u = ld s u)"
proof -
  have ext: "extends s s'" using assms step_extends base_invD(1) by blast
  then have len: "length (ll s t) < i" using own_before assms(3,4) by (metis not_le)
  then have ne: "ll s' t \<noteq> ll s t" using assms(3) by (auto simp: own_def)
  show ?thesis
    using assms(1)
  proof cases
    case (Elect n u Q x)
    then have "u = t" using ne by (auto simp: aupdates split: if_splits)
    then show ?thesis using Elect len by (intro exI [of _ n]) (simp add: aupdates)
  next
    case (Append n u x)
    then have "u = t" using ne by (auto simp: aupdates split: if_splits)
    then show ?thesis using Append len by (intro exI [of _ n]) (simp add: aupdates)
  qed (use ne in \<open>simp_all add: aupdates\<close>)
qed

lemma elected_quorum_past:
  assumes "election_inv qu s" "ld s t' = Some m" "t < t'"
  obtains Q where "qu Q" "\<And>q. q \<in> Q \<Longrightarrow> t < ct s q \<and> vt s t' q = Some m"
proof -
  obtain Q where Q: "qu Q" "\<forall>q\<in>Q. vt s t' q = Some m"
    using election_invD(8) [OF assms(1,2)] by blast
  have "t < ct s q \<and> vt s t' q = Some m" if "q \<in> Q" for q
    using Q(2) that election_invD(1) [OF assms(1), of t' q m] assms(3) by auto
  with Q(1) show thesis by (rule that)
qed

lemma later_inv_step:
  assumes step: "astep qu s s'" and inv: "base_inv qu s" "voter_inv qu s" "later_inv qu s"
  shows "later_inv qu s'"
  unfolding later_inv_def
proof (intro allI impI, elim conjE)
  fix t t' i assume tt: "t < t'" and ld': "ld s' t' \<noteq> None" and own': "own s' t i"
  have el: "election_inv qu s" using inv(1) by (rule base_invD)
  have ext: "extends s s'" using step el by (rule step_extends)
  show "holds s' (ll s' t') t i \<or> dead qu s' t i"
  proof (cases "own s t i")
    case False
    obtain n where n: "ct s n = t" "\<And>m. m \<noteq> n \<Longrightarrow> ak s' t m = ak s t m" "length (ll s t) < i"
      "ld s' t' = ld s t'"
      using new_own [OF step inv(1) own' False] tt by auto
    then obtain m where "ld s t' = Some m" using ld' by auto
    with el tt obtain Q where Q: "qu Q" "\<And>q. q \<in> Q \<Longrightarrow> t < ct s q \<and> vt s t' q = Some m"
      by (metis elected_quorum_past)
    have "t < ct s' q \<and> ak s' t q < i" if "q \<in> Q" for q
    proof -
      have "t < ct s q" using Q(2) that by blast
      then have "q \<noteq> n" using n(1) by auto
      then have "ak s' t q = ak s t q" by (rule n(2))
      moreover have "ak s t q \<le> length (ll s t)" using inv(1) by (rule base_invD)
      ultimately show ?thesis using n(3) \<open>t < ct s q\<close> extendsD(1) [OF ext, of q] by simp
    qed
    with Q(1) show ?thesis by (auto simp: dead_def)
  next
    case own: True
    show ?thesis
    proof (cases "ld s t'")
      case (Some m)
      then have "holds s (ll s t') t i \<or> dead qu s t i"
        using inv(3) tt own by (auto simp: later_inv_def)
      then show ?thesis using holds_leader [OF ext own] dead_extends [OF ext] by blast
    next
      case None
      have "\<exists>n Q x. ct s n = t' \<and> rl s n = Candidate \<and> qu Q \<and> (\<forall>q\<in>Q. vt s t' q = Some n) \<and>
          ll s' t' = lg s n @ [(t', x)]"
        using step None ld' by cases (auto simp: aupdates split: if_splits)
      then obtain n Q x where n: "ct s n = t'" "rl s n = Candidate" "qu Q"
        "\<forall>q\<in>Q. vt s t' q = Some n" "ll s' t' = lg s n @ [(t', x)]" by blast
      have "holds s (lg s n) t i \<or> dead qu s t i"
      proof (cases "\<forall>q\<in>Q. ak s t q < i")
        case True
        then show ?thesis
          using n(3,4) tt election_invD(1) [OF el, of t' _ n] unfolding dead_def
          by (metis order_less_le_trans)
      next
        case False
        then obtain p where p: "p \<in> Q" "i \<le> ak s t p" by auto
        then have "holds s (vl s t' p) t i \<or> dead qu s t i"
          using inv(2) n(4) tt own by (auto simp: voter_inv_def)
        moreover have "up_to_date (lg s n) (vl s t' p)"
          using election_invD(4) [OF el n(2)] election_invD(6) [OF el, of t' p n] n(1,4) p(1) by auto
        ultimately show ?thesis
          using up_to_date_holds [OF inv(1,3), of "lg s n" "vl s t' p" t i] own
            base_invD(5,8) [OF inv(1)] by blast
      qed
      then show ?thesis
        using holds_append holds_extends [OF ext own] dead_extends [OF ext] n(5) by metis
    qed
  qed
qed

lemma voter_inv_step:
  assumes step: "astep qu s s'" and inv: "base_inv qu s" "voter_inv qu s" "keep_inv qu s"
  shows "voter_inv qu s'"
  unfolding voter_inv_def
proof (intro allI impI, elim conjE)
  fix n t t' i
  assume vt': "vt s' t' n \<noteq> None" and tt: "t < t'" and own': "own s' t i" and ak': "i \<le> ak s' t n"
  have el: "election_inv qu s" using inv(1) by (rule base_invD)
  have ext: "extends s s'" using step el by (rule step_extends)
  have old: "holds s' (vl s' t' n) t i \<or> dead qu s' t i"
    if "ak s' t n = ak s t n" "own s t i \<Longrightarrow> i \<le> ak s t n \<Longrightarrow> holds s (vl s' t' n) t i \<or> dead qu s t i"
  proof -
    have "i \<le> length (ll s t)" using that(1) ak' base_invD(10) [OF inv(1), of t n] by simp
    then have "own s t i" using own_before [OF ext own'] by blast
    then show ?thesis
      using that ak' holds_extends [OF ext] dead_extends [OF ext] by metis
  qed
  show "holds s' (vl s' t' n) t i \<or> dead qu s' t i"
  proof (cases "vt s t' n")
    case (Some c)
    then have "t' \<le> ct s n" using election_invD(1) [OF el] by blast
    then have "ak s' t n = ak s t n" using extendsD(5) [OF ext, of t n] tt by simp
    moreover have "vl s' t' n = vl s t' n"
      using step Some
    proof cases
      case (Stand u m)
      then show ?thesis using Some fresh_term(1) [OF el, of m u] by (auto simp: aupdates)
    qed (auto simp: aupdates)
    ultimately show ?thesis using inv(2) Some tt by (intro old) (auto simp: voter_inv_def)
  next
    case None
    have "vl s' t' n = lg s n \<and> ak s' = ak s"
      using step None vt' by cases (auto simp: aupdates split: if_splits)
    then show ?thesis using inv(3) by (intro old) (auto simp: keep_inv_def)
  qed
qed

lemma keep_inv_step:
  assumes step: "astep qu s s'" and inv: "base_inv qu s" "keep_inv qu s" "later_inv qu s"
  shows "keep_inv qu s'"
  unfolding keep_inv_def
proof (intro allI impI, elim conjE)
  fix n t i assume own': "own s' t i" and ak': "i \<le> ak s' t n"
  have el: "election_inv qu s" using inv(1) by (rule base_invD)
  have ext: "extends s s'" using step el by (rule step_extends)
  have i: "0 < i" "i \<le> length (ll s' t)" using own' by (auto simp: own_def)
  have leader: "holds s' (lg s' n) t i" if "lg s' n = ll s' t"
    using i that by (simp add: holds_def)
  show "holds s' (lg s' n) t i \<or> dead qu s' t i"
  proof (cases "own s t i")
    case False
    then obtain m where m: "lg s' m = ll s' t" "\<And>k. k \<noteq> m \<Longrightarrow> ak s' t k = ak s t k" "length (ll s t) < i"
      using new_own [OF step inv(1) own'] by auto
    have "n = m"
    proof (rule ccontr)
      assume "n \<noteq> m"
      then have "ak s' t n = ak s t n" by (rule m(2))
      then show False using m(3) ak' base_invD(10) [OF inv(1), of t n] by simp
    qed
    then show ?thesis using m(1) leader by simp
  next
    case own: True
    have stay: "holds s' (lg s' n) t i \<or> dead qu s' t i"
      if "i \<le> ak s t n" "holds s (lg s n) t i \<Longrightarrow> holds s' (lg s' n) t i \<or> dead qu s' t i"
    proof -
      have "holds s (lg s n) t i \<or> dead qu s t i"
        using that(1) inv(2) own by (simp add: keep_inv_def)
      then show ?thesis using that(2) dead_extends [OF ext] by blast
    qed
    have same: "holds s' (lg s' n) t i \<or> dead qu s' t i"
      if "ak s' t n = ak s t n" "\<exists>z. lg s' n = lg s n @ z"
    proof (rule stay)
      show "i \<le> ak s t n" using that(1) ak' by simp
      assume "holds s (lg s n) t i"
      then show "holds s' (lg s' n) t i \<or> dead qu s' t i"
        using that(2) holds_extends [OF ext own] holds_append by metis
    qed
    show ?thesis
      using step
    proof cases
      case (Elect m u Q x)
      show ?thesis
      proof (cases "m = n \<and> u = t")
        case True
        then have "lg s' n = ll s' t" using Elect by (simp add: aupdates)
        then show ?thesis using leader by blast
      next
        case False
        show ?thesis by (rule same) (use False Elect in \<open>auto simp: aupdates\<close>)
      qed
    next
      case (Append m u x)
      show ?thesis
      proof (cases "m = n \<and> u = t")
        case True
        then have "lg s' n = ll s' t" using Append by (simp add: aupdates)
        then show ?thesis using leader by blast
      next
        case False
        show ?thesis by (rule same) (use False Append in \<open>auto simp: aupdates\<close>)
      qed
    next
      case (Store u m k)
      show ?thesis
      proof (cases "m = n")
        case False
        then show ?thesis using Store by (intro same) (auto simp: aupdates)
      next
        case True
        have lg': "lg s' n = adopt_prefix (lg s n) (ll s u) k" and ll': "ll s' = ll s"
          using Store True by (simp_all add: aupdates)
        have hold: "holds s (lg s n) t i \<Longrightarrow> holds s (ll s u) t i \<Longrightarrow> holds s' (lg s' n) t i"
          using adopt_keeps [of i "lg s n" "ll s u" k] Store(5) lg' ll' by (auto simp: holds_def)
        show ?thesis
        proof (cases "i \<le> ak s t n")
          case ack: True
          then have "t \<le> u" using base_invD(11) [OF inv(1), of t n] i(1) Store True by simp
          have u: "holds s (ll s u) t i \<or> dead qu s t i"
          proof (cases "t = u")
            case True
            then show ?thesis using own by (simp add: holds_def own_def)
          next
            case False
            then have "t < u" using \<open>t \<le> u\<close> by simp
            then show ?thesis using own inv(3) Store(2) unfolding later_inv_def by blast
          qed
          show ?thesis
          proof (rule stay [OF ack])
            assume "holds s (lg s n) t i"
            with u show "holds s' (lg s' n) t i \<or> dead qu s' t i"
              using hold dead_extends [OF ext, of qu t i] by blast
          qed
        next
          case False
          then have "u = t" "i \<le> k" using ak' Store True by (auto simp: aupdates split: if_splits)
          then have "k \<le> length (lg s' n)" "take k (lg s' n) = take k (ll s' t)"
            using adopt_gains [OF Store(5), of "lg s n"] lg' ll' by simp_all
          then show ?thesis using holds_shorter [of s' "lg s' n" t k i] \<open>i \<le> k\<close>
            by (simp add: holds_def)
        qed
      qed
    qed (rule same; auto simp: aupdates)+
  qed
qed

end

section \<open>Committed and applied entries\<close>

definition com :: "('n set \<Rightarrow> bool) \<Rightarrow> ('n, 'c) araft \<Rightarrow> nat \<Rightarrow> nat \<Rightarrow> bool" where
  "com qu s t i \<longleftrightarrow> own s t i \<and> (\<exists>Q. qu Q \<and> (\<forall>q\<in>Q. i \<le> ak s t q))"

definition covered :: "('n set \<Rightarrow> bool) \<Rightarrow> ('n, 'c) araft \<Rightarrow> nat \<Rightarrow> nat \<Rightarrow> 'c alog \<Rightarrow> bool" where
  "covered qu s t k l \<longleftrightarrow> k = 0 \<or>
     (\<exists>u i. u \<le> t \<and> com qu s u i \<and> k \<le> i \<and> k \<le> length l \<and> take k l = take k (ll s u))"

definition commit_inv :: "('n set \<Rightarrow> bool) \<Rightarrow> ('n, 'c) araft \<Rightarrow> bool" where
  "commit_inv qu s \<longleftrightarrow>
     (\<forall>n. covered qu s (ct s n) (ci s n) (lg s n)) \<and>
     (\<forall>t. ld s t \<noteq> None \<longrightarrow> covered qu s t (lc s t) (ll s t)) \<and>
     (\<forall>n. rl s n = Leader \<longrightarrow> ci s n \<le> lc s (ct s n))"

definition applied_inv :: "('n set \<Rightarrow> bool) \<Rightarrow> ('n, 'c) araft \<Rightarrow> bool" where
  "applied_inv qu s \<longleftrightarrow> (\<forall>k e. (k, e) \<in> ap s \<longrightarrow>
     (\<exists>u i. com qu s u i \<and> 0 < k \<and> k \<le> i \<and> e = ll s u ! (k - 1)))"

definition safe_inv :: "('n set \<Rightarrow> bool) \<Rightarrow> ('n, 'c) araft \<Rightarrow> bool" where
  "safe_inv qu s \<longleftrightarrow> base_inv qu s \<and> later_inv qu s \<and> voter_inv qu s \<and> keep_inv qu s \<and>
     commit_inv qu s \<and> applied_inv qu s"

lemma commit_invI:
  assumes "\<And>n. covered qu s (ct s n) (ci s n) (lg s n)"
    and "\<And>t. ld s t \<noteq> None \<Longrightarrow> covered qu s t (lc s t) (ll s t)"
    and "\<And>n. rl s n = Leader \<Longrightarrow> ci s n \<le> lc s (ct s n)"
  shows "commit_inv qu s"
  using assms by (simp add: commit_inv_def)

lemma safe_invD:
  assumes "safe_inv qu s"
  shows "base_inv qu s" "later_inv qu s" "voter_inv qu s" "keep_inv qu s" "commit_inv qu s"
    "applied_inv qu s"
  using assms by (simp_all add: safe_inv_def)

lemma com_extends:
  assumes "extends s s'" "com qu s t i"
  shows "com qu s' t i"
  using assms own_extends [OF assms(1)] extendsD(4) [OF assms(1), of t]
  unfolding com_def by (metis order_trans)

lemma com_own: "com qu s t i \<Longrightarrow> i \<le> length (ll s t)"
  by (simp add: com_def own_def)

lemma covered_extends:
  assumes "extends s s'" "covered qu s t k l" "t \<le> t'"
  shows "covered qu s' t' k (l @ z)"
proof (cases "k = 0")
  case False
  then obtain u i where u: "u \<le> t" "com qu s u i" "k \<le> i" "k \<le> length l" "take k l = take k (ll s u)"
    using assms(2) by (auto simp: covered_def)
  then have "take k (ll s' u) = take k (ll s u)"
    using com_own [OF u(2)] by (intro extends_take [OF assms(1)]) simp
  then show ?thesis using u com_extends [OF assms(1) u(2)] assms(3) unfolding covered_def
    by (intro disjI2 exI [of _ u] exI [of _ i]) simp
qed (simp add: covered_def)

lemma covered_nth:
  assumes "covered qu s t k l" "0 < j" "j \<le> k"
  obtains u i where "com qu s u i" "j \<le> i" "l ! (j - 1) = ll s u ! (j - 1)"
proof -
  obtain u i where u: "com qu s u i" "k \<le> i" "take k l = take k (ll s u)"
    using assms by (auto simp: covered_def)
  moreover have "l ! (j - 1) = ll s u ! (j - 1)"
    using arg_cong [OF u(3), of "\<lambda>l. l ! (j - 1)"] assms(2,3) by simp
  ultimately show thesis using that assms(3) by (meson order_trans)
qed

context quorum_system
begin

lemma com_not_dead: "com qu s t i \<Longrightarrow> dead qu s t i \<Longrightarrow> False"
  using quorums_meet unfolding com_def dead_def by (metis disjoint_iff not_le)

lemma com_later:
  assumes "later_inv qu s" "com qu s u i" "u \<le> t" "ld s t \<noteq> None"
  shows "holds s (ll s t) u i"
proof (cases "u = t")
  case True
  then show ?thesis using com_own [OF assms(2)] by (simp add: holds_def)
next
  case False
  then have "u < t" using assms(3) by simp
  then have "holds s (ll s t) u i \<or> dead qu s u i"
    using assms(1,2,4) unfolding later_inv_def com_def by blast
  then show ?thesis using com_not_dead [OF assms(2)] by blast
qed

lemma covered_leader:
  assumes "later_inv qu s" "covered qu s t k l" "ld s t \<noteq> None" "t' = t"
  shows "k = 0 \<or> (k \<le> length (ll s t') \<and> take k l = take k (ll s t'))"
proof (cases "k = 0")
  case False
  then obtain u i where u: "u \<le> t" "com qu s u i" "k \<le> i" "take k l = take k (ll s u)"
    using assms(2) by (auto simp: covered_def)
  have "i \<le> length (ll s t)" "take i (ll s t) = take i (ll s u)"
    using com_later [OF assms(1) u(2,1) assms(3)] by (auto simp: holds_def)
  then show ?thesis using u assms(4) by (metis min.absorb2 min.commute order_trans take_take)
qed simp

lemma covered_adopt:
  assumes "later_inv qu s" "covered qu s t k l" "ld s t \<noteq> None" "m \<le> length (ll s t)"
  shows "covered qu s t k (adopt_prefix l (ll s t) m)"
proof (cases "k = 0")
  case False
  then obtain u i where u: "u \<le> t" "com qu s u i" "k \<le> i" "k \<le> length l" "take k l = take k (ll s u)"
    using assms(2) by (auto simp: covered_def)
  have "take k l = take k (ll s t)" using covered_leader [OF assms(1-3) refl] False by simp
  from adopt_keeps [OF u(4) this assms(4)] this u show ?thesis unfolding covered_def by metis
qed (simp add: covered_def)

lemma commit_inv_step:
  assumes step: "astep qu s s'" and inv: "base_inv qu s" "later_inv qu s" "commit_inv qu s"
  shows "commit_inv qu s'"
proof -
  have el: "election_inv qu s" using inv(1) by (rule base_invD)
  have ext: "extends s s'" using step el by (rule step_extends)
  have node: "covered qu s' (ct s' n) (ci s n) (lg s n @ z)" for n z
  proof -
    have "covered qu s (ct s n) (ci s n) (lg s n)" using inv(3) by (simp add: commit_inv_def)
    then show ?thesis by (rule covered_extends [OF ext _ extendsD(1) [OF ext]])
  qed
  have node': "covered qu s' (ct s' n) (ci s n) (lg s n)" for n
    using node [of n "[]"] by simp
  have lead: "covered qu s' t (lc s t) (ll s' t)" if "ld s t \<noteq> None" for t
  proof -
    have "covered qu s t (lc s t) (ll s t)" using inv(3) that by (simp add: commit_inv_def)
    moreover obtain z where "ll s' t = ll s t @ z" using extendsD(3) [OF ext, of t] by blast
    ultimately show ?thesis using covered_extends [OF ext _ order_refl] by simp
  qed
  have role: "rl s n = Leader \<Longrightarrow> ci s n \<le> lc s (ct s n)" for n
    using inv(3) by (simp add: commit_inv_def)
  have zero: "covered qu s' t 0 l" for t l by (simp add: covered_def)
  have plain: ?thesis
    if "ci s' = ci s" "lg s' = lg s" "ld s' = ld s" "lc s' = lc s"
      "\<And>n. rl s' n = Leader \<Longrightarrow> rl s n = Leader \<and> ct s' n = ct s n"
  proof (rule commit_invI)
    show "covered qu s' (ct s' m) (ci s' m) (lg s' m)" for m
      using node' [of m] that(1,2) by simp
    show "covered qu s' u (lc s' u) (ll s' u)" if "ld s' u \<noteq> None" for u
      using lead [of u] that \<open>ld s' = ld s\<close> \<open>lc s' = lc s\<close> by simp
    show "ci s' m \<le> lc s' (ct s' m)" if "rl s' m = Leader" for m
      using role [of m] that \<open>ci s' = ci s\<close> \<open>lc s' = lc s\<close>
        \<open>\<And>n. rl s' n = Leader \<Longrightarrow> rl s n = Leader \<and> ct s' n = ct s n\<close> [of m] by simp
  qed
  show ?thesis
    using step
  proof cases
    case (Crash n)
    then have f: "ct s' = ct s" "rl s' = (rl s)(n := Follower)" "ci s' = (ci s)(n := 0)"
      "lg s' = lg s" "ld s' = ld s" "lc s' = lc s" by simp_all
    show ?thesis using node' lead role zero unfolding commit_inv_def by (auto simp: f)
  next
    case (Elect n t Q x)
    have "ld s t = None" using no_leader_yet [OF el, of n] Elect by simp
    then have nl: "rl s m = Leader \<Longrightarrow> ct s m \<noteq> t" for m
      using election_invD(12) [OF el, of m] by auto
    have f: "ct s' = ct s" "rl s' = (rl s)(n := Leader)" "ci s' = ci s"
      "lg s' = (lg s)(n := lg s n @ [(t, x)])" "ld s' = (ld s)(t := Some n)"
      "lc s' = (lc s)(t := ci s n)" "ll s' t = lg s n @ [(t, x)]"
      using Elect(1) by (simp_all add: aupdates)
    have "covered qu s' t (ci s n) (lg s n @ [(t, x)])"
      using node [of n "[(t, x)]"] Elect(3) by (simp add: f)
    then have c: "covered qu s' t (ci s n) (lg s' n)" "covered qu s' t (ci s n) (ll s' t)"
      by (simp_all add: f)
    show ?thesis
    proof (rule commit_invI)
      show "covered qu s' (ct s' m) (ci s' m) (lg s' m)" for m
        using node' [of m] c(1) Elect(3) by (cases "m = n") (simp_all add: f)
      show "covered qu s' u (lc s' u) (ll s' u)" if "ld s' u \<noteq> None" for u
        using lead [of u] c(2) that by (cases "u = t") (simp_all add: f)
      show "ci s' m \<le> lc s' (ct s' m)" if "rl s' m = Leader" for m
        using role [of m] nl [of m] that Elect(3) by (cases "m = n") (simp_all add: f)
    qed
  next
    case (Append n t x)
    have f: "ct s' = ct s" "rl s' = rl s" "ci s' = ci s"
      "lg s' = (lg s)(n := lg s n @ [(t, x)])" "ld s' = ld s" "lc s' = lc s"
      using Append(1) by (simp_all add: aupdates)
    have "covered qu s' t (ci s n) (lg s n @ [(t, x)])"
      using node [of n "[(t, x)]"] Append(3) by (simp add: f)
    then show ?thesis using node' lead role Append(3) unfolding commit_inv_def by (auto simp: f)
  next
    case (Store t n m)
    have f: "ct s' = ct s" "rl s' = (rl s)(n := Follower)" "ci s' = ci s"
      "lg s' = (lg s)(n := adopt_prefix (lg s n) (ll s t) m)" "ld s' = ld s" "lc s' = lc s"
      using Store(1) by (simp_all add: aupdates)
    have "covered qu s t (ci s n) (lg s n)" using inv(3) Store(3) by (auto simp: commit_inv_def)
    from covered_adopt [OF inv(2) this Store(2,5)]
    have "covered qu s' t (ci s n) (adopt_prefix (lg s n) (ll s t) m)"
      using covered_extends [OF ext _ order_refl, where z = "[]"] by simp
    then show ?thesis using node' lead role Store(3) unfolding commit_inv_def by (auto simp: f)
  next
    case (Commit n t i Q)
    have f: "ct s' = ct s" "rl s' = rl s" "ci s' = (ci s)(n := i)" "lg s' = lg s" "ld s' = ld s"
      "lc s' = (lc s)(t := max (lc s t) i)" "ll s' = ll s"
      using Commit(1) by (simp_all add: aupdates)
    have "own s t i" using Commit(4-6) by (simp add: own_def)
    then have "com qu s t i" using Commit(7,8) unfolding com_def by blast
    then have "com qu s' t i" by (rule com_extends [OF ext])
    then have c: "covered qu s' t i (ll s t)"
      using com_own [of qu s' t i] unfolding covered_def
      by (intro disjI2 exI [of _ t] exI [of _ i]) (simp add: f)
    have ll: "lg s n = ll s t" "ld s t = Some n"
      using Commit(2,3) election_invD(12,13) [OF el, of n] by simp_all
    have "covered qu s' t (max (lc s t) i) (ll s t)" using c lead [of t] ll by (simp add: max_def f)
    then have c2: "covered qu s' t (max (lc s t) i) (ll s' t)" by (simp add: f)
    show ?thesis
    proof (rule commit_invI)
      show "covered qu s' (ct s' m) (ci s' m) (lg s' m)" for m
        using node' [of m] c ll Commit(3) by (cases "m = n") (simp_all add: f)
      show "covered qu s' u (lc s' u) (ll s' u)" if "ld s' u \<noteq> None" for u
        using lead [of u] c2 that by (cases "u = t") (simp_all add: f)
      show "ci s' m \<le> lc s' (ct s' m)" if "rl s' m = Leader" for m
        using role [of m] that Commit(3) by (cases "m = n"; cases "ct s m = t") (simp_all add: f)
    qed
  next
    case (Learn t n i)
    have f: "ct s' = ct s" "rl s' = rl s" "ci s' = (ci s)(n := i)" "lg s' = lg s" "ld s' = ld s"
      "lc s' = lc s" "ll s' = ll s"
      using Learn(1) by simp_all
    have "covered qu s' t i (lg s n)"
    proof (cases "i = 0")
      case False
      have "covered qu s' t (lc s t) (ll s t)" using lead [OF Learn(2)] by (simp add: f)
      then obtain u j where u: "u \<le> t" "com qu s' u j" "lc s t \<le> j"
        "take (lc s t) (ll s t) = take (lc s t) (ll s' u)"
        using False Learn(5) unfolding covered_def by (metis le_zero_eq)
      have "take i (take (lc s t) (ll s t)) = take i (take (lc s t) (ll s' u))" using u(4) by simp
      then have "take i (ll s t) = take i (ll s' u)" using Learn(5) by (simp add: min_absorb1)
      then have "take i (lg s n) = take i (ll s' u)" using Learn(7) by simp
      moreover have "i \<le> j" using u(3) Learn(5) by simp
      ultimately show ?thesis unfolding covered_def using u(1,2) Learn(6) by blast
    qed (simp add: covered_def)
    then have c: "covered qu s' (ct s' n) (ci s' n) (lg s' n)" using Learn(3) by (simp add: f)
    show ?thesis
    proof (rule commit_invI)
      show "covered qu s' (ct s' m) (ci s' m) (lg s' m)" for m
        using node' [of m] c by (cases "m = n") (simp_all add: f)
      show "covered qu s' u (lc s' u) (ll s' u)" if "ld s' u \<noteq> None" for u
        using lead [of u] that by (simp add: f)
      show "ci s' m \<le> lc s' (ct s' m)" if "rl s' m = Leader" for m
        using role [of m] that Learn(4) by (cases "m = n") (simp_all add: f)
    qed
  next
    case (Adopt n t)
    show ?thesis by (rule plain) (use Adopt in \<open>auto split: if_splits\<close>)
  next
    case (Stand t n)
    show ?thesis by (rule plain) (use Stand in \<open>auto simp: aupdates split: if_splits\<close>)
  next
    case (Vote t c l n)
    show ?thesis by (rule plain) (use Vote in \<open>simp_all add: aupdates\<close>)
  next
    case (StepDown n)
    show ?thesis by (rule plain) (use StepDown in \<open>auto split: if_splits\<close>)
  next
    case (Apply k n)
    show ?thesis by (rule plain) (use Apply in \<open>simp_all\<close>)
  qed
qed

lemma applied_inv_step:
  assumes step: "astep qu s s'" and inv: "base_inv qu s" "commit_inv qu s" "applied_inv qu s"
  shows "applied_inv qu s'"
  unfolding applied_inv_def
proof (intro allI impI)
  fix k e assume e: "(k, e) \<in> ap s'"
  have ext: "extends s s'" using step base_invD(1) [OF inv(1)] by (rule step_extends)
  have "\<exists>u i. com qu s u i \<and> 0 < k \<and> k \<le> i \<and> e = ll s u ! (k - 1)"
  proof (cases "(k, e) \<in> ap s")
    case True
    then show ?thesis using inv(3) unfolding applied_inv_def by blast
  next
    case False
    have "\<exists>n. 0 < k \<and> k \<le> ci s n \<and> e = lg s n ! (k - 1)"
      using step e False by cases (auto simp: aupdates)
    then obtain n where n: "0 < k" "k \<le> ci s n" "e = lg s n ! (k - 1)" by blast
    have "covered qu s (ct s n) (ci s n) (lg s n)" using inv(2) by (simp add: commit_inv_def)
    from covered_nth [OF this n(1,2)] n show ?thesis by metis
  qed
  then obtain u i where u: "com qu s u i" "0 < k" "k \<le> i" "e = ll s u ! (k - 1)" by blast
  moreover have "ll s' u ! (k - 1) = ll s u ! (k - 1)"
    using u com_own [OF u(1)] by (intro extends_nth [OF ext]) simp
  ultimately show "\<exists>u i. com qu s' u i \<and> 0 < k \<and> k \<le> i \<and> e = ll s' u ! (k - 1)"
    using com_extends [OF ext] by metis
qed

lemma safe_inv_init: "safe_inv qu ainit"
  by (simp add: safe_inv_def base_inv_def election_inv_init)
    (simp add: matching_inv_def terms_inv_def ack_inv_def later_inv_def voter_inv_def keep_inv_def
      commit_inv_def applied_inv_def covered_def log_ok_def own_def ainit_def)

lemma safe_inv_step: "astep qu s s' \<Longrightarrow> safe_inv qu s \<Longrightarrow> safe_inv qu s'"
  by (simp add: safe_inv_def base_inv_step later_inv_step voter_inv_step keep_inv_step
      commit_inv_step applied_inv_step)

lemma areachable_safe: "areachable qu s \<Longrightarrow> safe_inv qu s"
  by (induction rule: areachable.induct) (auto intro: safe_inv_init safe_inv_step)

text \<open>The safety properties of the protocol.\<close>

lemma abstract_election_safety:
  assumes "safe_inv qu s" "rl s n = Leader" "rl s m = Leader" "ct s m = ct s n"
  shows "m = n"
  using assms one_leader by (auto simp: safe_inv_def base_inv_def)

lemma abstract_log_matching:
  assumes "safe_inv qu s" "i < length (lg s n)" "i < length (lg s m)"
    and "fst (lg s n ! i) = fst (lg s m ! i)"
  shows "take (Suc i) (lg s n) = take (Suc i) (lg s m)"
proof -
  have "log_ok s (lg s n)" "log_ok s (lg s m)"
    using base_invD(5) [OF safe_invD(1) [OF assms(1)]] by simp_all
  from log_okD(3) [OF this(1) assms(2)] log_okD(3) [OF this(2) assms(3)] assms(4)
  show ?thesis by simp
qed

lemma abstract_leader_completeness:
  assumes "safe_inv qu s" "com qu s u i" "rl s n = Leader" "u \<le> ct s n"
  shows "holds s (lg s n) u i"
proof -
  have "ld s (ct s n) = Some n" "lg s n = ll s (ct s n)"
    using election_invD(12,13) [OF base_invD(1) [OF safe_invD(1) [OF assms(1)]] assms(3)] by simp_all
  then show ?thesis
    using com_later [of s u i "ct s n"] assms by (simp add: safe_inv_def)
qed

lemma com_agree:
  assumes "later_inv qu s" "election_inv qu s" "com qu s u i" "com qu s v j" "u \<le> v" "0 < k" "k \<le> i"
  shows "ll s v ! (k - 1) = ll s u ! (k - 1)"
proof -
  have "own s v j" using assms(4) by (simp add: com_def)
  then have "ld s v \<noteq> None" by (rule own_led [OF assms(2)])
  then have "take i (ll s v) = take i (ll s u)"
    using com_later [OF assms(1,3,5)] by (simp add: holds_def)
  from arg_cong [OF this, of "\<lambda>l. l ! (k - 1)"] assms(6,7) show ?thesis by simp
qed

lemma abstract_state_machine_safety:
  assumes "safe_inv qu s" "(k, e) \<in> ap s" "(k, e') \<in> ap s"
  shows "e = e'"
proof -
  have inv: "later_inv qu s" "election_inv qu s" "applied_inv qu s"
    using safe_invD [OF assms(1)] base_invD(1) [OF safe_invD(1) [OF assms(1)]] by simp_all
  obtain u i where u: "com qu s u i" "0 < k" "k \<le> i" "e = ll s u ! (k - 1)"
    using inv(3) [unfolded applied_inv_def, rule_format, OF assms(2)] by blast
  obtain v j where v: "com qu s v j" "k \<le> j" "e' = ll s v ! (k - 1)"
    using inv(3) [unfolded applied_inv_def, rule_format, OF assms(3)] by blast
  show ?thesis
  proof (cases "u \<le> v")
    case True
    from com_agree [OF inv(1,2) u(1) v(1) this u(2,3)] u v show ?thesis by simp
  next
    case False
    then have "v \<le> u" by simp
    from com_agree [OF inv(1,2) v(1) u(1) this u(2) v(2)] u v show ?thesis by simp
  qed
qed

end

end
