(* ===== verification/Raft_Refine.thy ===== *)
theory Raft_Refine
  imports Raft_Cluster Raft_Abstract
begin

text \<open>
  The cluster of real nodes refines the abstract protocol: every action of the cluster is
  matched by finitely many abstract steps of the node that acts.

  \<open>node_rel n nd a\<close> relates a running node to the abstract state \<open>a\<close>, \<open>down_rel n s a\<close> the
  storage of a process that is down; \<open>sim n a Q r\<close> says that the outcome \<open>r\<close> of a piece of
  code on node \<open>n\<close> is matched from \<open>a\<close>: when it ends, by steps that lead to a state where
  \<open>Q\<close> holds, and when it panics, which only a failed save makes it do, by steps after
  which the storage it left is related.
\<close>

section \<open>Abstraction of data\<close>

definition aentry :: "Entry \<Rightarrow> nat \<times> bytes" where
  "aentry e = (unat (Term e), Command e)"

definition alog_of :: "Entry list \<Rightarrow> bytes alog" where
  "alog_of es = map aentry (tl es)"

definition vote_of :: "NodeID \<Rightarrow> NodeID option" where
  "vote_of v = (if v = [] then None else Some v)"

definition restored :: "PersistentState \<Rightarrow> PersistentState" where
  "restored ps = (if SavedEntries ps = [] then ps\<lparr>SavedEntries := entries newRaftLog\<rparr> else ps)"

definition majority :: "'n set \<Rightarrow> 'n set \<Rightarrow> bool" where
  "majority M Q \<longleftrightarrow> Q \<subseteq> M \<and> card M < 2 * card Q"

type_synonym astate = "(NodeID, bytes) araft"

section \<open>Logs that were never compacted\<close>

text \<open>The nodes never compact, so their logs start at the sentinel of index 0.\<close>

definition plain :: "raftLog \<Rightarrow> bool" where
  "plain l \<longleftrightarrow> log_wf l \<and> hd (entries l) = sentinel 0 0"

lemma plain_entries:
  assumes "plain l"
  obtains es where "entries l = sentinel 0 0 # es" "alog_of (entries l) = map aentry es"
  using assms by (cases "entries l") (auto simp: plain_def log_wf_def alog_of_def)

lemma plain_snapshot:
  assumes "plain l"
  shows "first_index l = 0" "first_term l = 0"
  using assms by (simp_all add: plain_def first_index_def first_term_def sentinel_def)

lemma plain_length: "plain l \<Longrightarrow> length (entries l) = Suc (length (alog_of (entries l)))"
  by (erule plain_entries) simp

lemma plain_bound: "plain l \<Longrightarrow> int (length (alog_of (entries l))) < max_int"
proof -
  assume "plain l"
  then have "int (length (entries l)) \<le> max_int" by (simp add: plain_def log_wf_def)
  with plain_length [OF \<open>plain l\<close>] show ?thesis by linarith
qed

lemma plain_end_index: "plain l \<Longrightarrow> unat (end_index l) = length (alog_of (entries l))"
  using unat_end_index [of l] plain_snapshot(1) [of l] plain_length [of l] by (simp add: plain_def)

lemma plain_end_term: "plain l \<Longrightarrow> unat (end_term l) = last_term (alog_of (entries l))"
  by (erule plain_entries)
    (auto simp: end_term_def last_term_def last_map aentry_def sentinel_def)

lemma last_term_take: "0 < i \<Longrightarrow> i \<le> length l \<Longrightarrow> last_term (take i l) = fst (l ! (i - 1))"
  by (auto simp: last_term_def last_conv_nth)

lemma last_term_0 [simp]: "last_term [] = 0"
  by (simp add: last_term_def)

lemma plain_term_of:
  assumes "plain l"
  shows "snd (term_of l i) \<longleftrightarrow> unat i \<le> length (alog_of (entries l))"
    and "unat i \<le> length (alog_of (entries l)) \<Longrightarrow>
         unat (fst (term_of l i)) = last_term (take (unat i) (alog_of (entries l)))"
proof -
  obtain es where es: "entries l = sentinel 0 0 # es" "alog_of (entries l) = map aentry es"
    using assms by (rule plain_entries)
  have le: "i \<le> end_index l \<longleftrightarrow> unat i \<le> length es"
    using plain_end_index [OF assms] es by (simp add: word_le_nat_alt)
  then show "snd (term_of l i) \<longleftrightarrow> unat i \<le> length (alog_of (entries l))"
    using plain_snapshot [OF assms] es(2) by (auto simp: term_of_def)
  assume "unat i \<le> length (alog_of (entries l))"
  then have i: "unat i \<le> length es" by (simp add: es(2))
  then have t: "term_of l i = (Term (entries l ! unat i), True)"
    using plain_snapshot [OF assms] le by (auto simp: term_of_def offset_def)
  show "unat (fst (term_of l i)) = last_term (take (unat i) (alog_of (entries l)))"
  proof (cases "unat i")
    case 0
    then show ?thesis using t es by (simp add: sentinel_def)
  next
    case (Suc k)
    then show ?thesis using t i unfolding es(2) by (subst last_term_take) (simp_all add: aentry_def es(1))
  qed
qed

lemma plain_append:
  assumes "plain l" "follow_on (end_index l) es" "int (length (entries l) + length es) \<le> max_int"
  shows "plain (append_entries l es)"
    and "alog_of (entries (append_entries l es)) = alog_of (entries l) @ map aentry es"
proof -
  have "log_wf (append_entries l es)" using assms by (intro log_wf_append) (simp_all add: plain_def)
  then show "plain (append_entries l es)"
    using assms(1) by (simp add: plain_def append_entries_def)
  show "alog_of (entries (append_entries l es)) = alog_of (entries l) @ map aentry es"
    using assms(1) by (elim plain_entries) (simp add: alog_of_def append_entries_def)
qed

lemma plain_truncateFrom:
  assumes "plain l" "0 < i" "unat i \<le> length (alog_of (entries l))"
  obtains l' where "truncateFrom l i = Ok l'" "plain l'"
    "alog_of (entries l') = take (unat i - 1) (alog_of (entries l))"
proof -
  obtain es where es: "entries l = sentinel 0 0 # es" "alog_of (entries l) = map aentry es"
    using assms(1) by (rule plain_entries)
  have i: "i \<le> end_index l" "0 < unat i"
    using assms plain_end_index [OF assms(1)] by (simp_all add: word_le_nat_alt word_less_nat_alt)
  then have t: "truncateFrom l i = Ok (l\<lparr>entries := take (unat i) (entries l)\<rparr>)"
    using plain_snapshot [OF assms(1)] assms(1,2) by (auto simp: truncateFrom_wf plain_def offset_def)
  moreover have "plain (l\<lparr>entries := take (unat i) (entries l)\<rparr>)"
    using assms(1) i(2) log_wf_take [of l "unat i"] by (simp add: plain_def hd_take)
  moreover have "alog_of (take (unat i) (entries l)) = take (unat i - 1) (alog_of (entries l))"
    using i(2) unfolding es by (cases "unat i") (simp_all add: alog_of_def take_map)
  ultimately show thesis using that by simp
qed

lemma plain_covered_by:
  assumes "plain l" "unat lt = last_term m" "unat li = length m"
  shows "covered_by l lt li = up_to_date m (alog_of (entries l))"
  using assms plain_end_term [OF assms(1)] plain_end_index [OF assms(1)]
  by (simp add: covered_by_def up_to_date_def u64_nat)

lemma plain_agrees:
  assumes "plain l"
  shows "agrees l i t \<longleftrightarrow> unat i \<le> length (alog_of (entries l)) \<and>
           unat t = last_term (take (unat i) (alog_of (entries l)))"
  using plain_term_of [OF assms, of i]
  by (cases "term_of l i") (auto simp: agrees_def u64_eq_iff)

lemma plain_entriesFrom:
  assumes "plain l" "0 < lo"
  obtains es where "entriesFrom l lo limit = Ok es"
    "map aentry es = take (length es) (drop (unat lo - 1) (alog_of (entries l)))"
    "\<And>k. k < length es \<Longrightarrow> unat (Index (es ! k)) = unat lo + k"
    "length es = (let r = length (alog_of (entries l)) + 1 - unat lo
                  in if limit > 0 then min r (nat limit) else r)"
proof -
  have wf: "log_wf l" using assms(1) by (simp add: plain_def)
  obtain r where r: "entries l = sentinel 0 0 # r" "alog_of (entries l) = map aentry r"
    using assms(1) by (rule plain_entries)
  obtain es where es: "entriesFrom l lo limit = Ok es"
    "length es = (if limit > 0 then min (unat (end_index l) + 1 - unat lo) (nat limit)
                  else unat (end_index l) + 1 - unat lo)"
    "\<And>k. k < length es \<Longrightarrow> entry_at l (unat lo + k) = Some (es ! k)"
    using entriesFrom_Ok [OF wf, of lo limit] plain_snapshot [OF assms(1)] assms(2) by metis
  have lo: "0 < unat lo" using assms(2) by (simp add: word_less_nat_alt)
  have len: "length es \<le> length r - (unat lo - 1)"
    using es(2) plain_end_index [OF assms(1)] lo by (auto simp: r(2) split: if_splits)
  have "map aentry es = take (length es) (drop (unat lo - 1) (alog_of (entries l)))"
  proof (rule nth_equalityI)
    show "length (map aentry es) = length (take (length es) (drop (unat lo - 1) (alog_of (entries l))))"
      using len by (simp add: r(2))
    fix k assume "k < length (map aentry es)"
    then have k: "k < length es" by simp
    from es(3) [OF k] have "es ! k = r ! (unat lo - 1 + k)"
      using lo plain_snapshot [OF assms(1)] by (cases "unat lo") (auto simp: entry_at_def r(1) split: if_splits)
    then show "map aentry es ! k = take (length es) (drop (unat lo - 1) (alog_of (entries l))) ! k"
      using k len by (simp add: r(2))
  qed
  moreover have "unat (Index (es ! k)) = unat lo + k" if "k < length es" for k
    using entry_at_Index [OF wf es(3) [OF that]] .
  ultimately show thesis
    using that es(1,2) plain_end_index [OF assms(1)] by (simp add: Let_def)
qed

section \<open>Steps of one node and what they leave alone\<close>

definition same_at :: "('n, 'c) araft \<Rightarrow> ('n, 'c) araft \<Rightarrow> 'n \<Rightarrow> bool" where
  "same_at a a' m \<longleftrightarrow> ct a' m = ct a m \<and> rl a' m = rl a m \<and> lg a' m = lg a m \<and>
     ci a' m = ci a m \<and> (\<forall>t. vt a' t m = vt a t m)"

definition grows :: "('n, 'c) araft \<Rightarrow> ('n, 'c) araft \<Rightarrow> bool" where
  "grows a a' \<longleftrightarrow>
     (\<forall>t m l. cl a t m = Some l \<longrightarrow> cl a' t m = Some l) \<and>
     (\<forall>t m. ld a t = Some m \<longrightarrow> ld a' t = Some m) \<and>
     (\<forall>t. \<exists>z. ll a' t = ll a t @ z) \<and>
     (\<forall>t m. ak a t m \<le> ak a' t m) \<and>
     (\<forall>t. ld a t \<noteq> None \<longrightarrow> lc a t \<le> lc a' t) \<and>
     (\<forall>t m c. vt a t m = Some c \<longrightarrow> vt a' t m = Some c) \<and>
     ap a \<subseteq> ap a'"

lemma growsD:
  assumes "grows a a'"
  shows "cl a t m = Some l \<Longrightarrow> cl a' t m = Some l"
    and "ld a t = Some m \<Longrightarrow> ld a' t = Some m"
    and "\<exists>z. ll a' t = ll a t @ z"
    and "ak a t m \<le> ak a' t m"
    and "ld a t \<noteq> None \<Longrightarrow> lc a t \<le> lc a' t"
    and "vt a t m = Some c \<Longrightarrow> vt a' t m = Some c"
    and "x \<in> ap a \<Longrightarrow> x \<in> ap a'"
  using assms by (auto simp: grows_def)

lemma grows_refl [simp]: "grows a a"
  by (simp add: grows_def)

lemma grows_trans:
  assumes "grows a b" "grows b c"
  shows "grows a c"
proof -
  have "\<exists>z. ll c t = ll a t @ z" for t
    using growsD(3) [OF assms(1), of t] growsD(3) [OF assms(2), of t] by auto
  moreover have "ld a t \<noteq> None \<Longrightarrow> lc a t \<le> lc c t" for t
    using growsD(5) [OF assms(1), of t] growsD(5) [OF assms(2), of t]
      growsD(2) [OF assms(1), of t] by fastforce
  ultimately show ?thesis
    using growsD(1,2,4,6,7) [OF assms(1)] growsD(1,2,4,6,7) [OF assms(2)]
    unfolding grows_def by (meson le_trans subsetI)
qed

lemma same_at_refl [simp]: "same_at a a m"
  by (simp add: same_at_def)

lemma same_at_trans: "same_at a b m \<Longrightarrow> same_at b c m \<Longrightarrow> same_at a c m"
  by (simp add: same_at_def)

context quorum_system
begin

lemma step_grows:
  assumes "astep qu a a'" "election_inv qu a"
  shows "grows a a'"
proof -
  have e: "extends a a'" using assms by (rule step_extends)
  have 1: "cl a' t m = Some l" if "cl a t m = Some l" for t m l
    using assms(1)
  proof cases
    case (Stand u n)
    then show ?thesis using that fresh_term(2) [OF assms(2), of n u] by (auto simp: aupdates)
  qed (use that in \<open>auto simp: aupdates\<close>)
  have 2: "lc a t \<le> lc a' t" if "ld a t \<noteq> None" for t
    using assms(1)
  proof cases
    case (Elect n u Q x)
    then show ?thesis using that no_leader_yet [OF assms(2), of n Q] by (auto simp: aupdates)
  qed (auto simp: aupdates)
  have 3: "vt a' t m = Some c" if "vt a t m = Some c" for t m c
    using assms(1)
  proof cases
    case (Stand u n)
    then show ?thesis using that fresh_term(1) [OF assms(2), of n u] by (auto simp: aupdates)
  qed (use that in \<open>auto simp: aupdates\<close>)
  have 4: "ap a \<subseteq> ap a'"
    using assms(1) by cases (auto simp: aupdates)
  show ?thesis
    unfolding grows_def using 1 2 3 4 extendsD(2,3,4) [OF e] by blast
qed

definition step_of :: "'n \<Rightarrow> ('n, 'c) araft \<Rightarrow> ('n, 'c) araft \<Rightarrow> bool" where
  "step_of n a a' \<longleftrightarrow> astep qu a a' \<and> (\<forall>m. m \<noteq> n \<longrightarrow> same_at a a' m)"

definition moves :: "'n \<Rightarrow> ('n, 'c) araft \<Rightarrow> ('n, 'c) araft \<Rightarrow> bool" where
  "moves n = (step_of n)\<^sup>*\<^sup>*"

lemma moves_refl [simp]: "moves n a a"
  by (simp add: moves_def)

lemma moves_trans: "moves n a b \<Longrightarrow> moves n b c \<Longrightarrow> moves n a c"
  by (simp add: moves_def)

lemma move: "astep qu a a' \<Longrightarrow> (\<And>m. m \<noteq> n \<Longrightarrow> same_at a a' m) \<Longrightarrow> moves n a a'"
  by (simp add: moves_def step_of_def r_into_rtranclp)

lemma moves_keep:
  assumes "moves n a a'" "safe_inv qu a"
  shows "safe_inv qu a'" "grows a a'" "m \<noteq> n \<Longrightarrow> same_at a a' m"
proof -
  have "safe_inv qu a' \<and> grows a a' \<and> (\<forall>m. m \<noteq> n \<longrightarrow> same_at a a' m)"
    using assms unfolding moves_def
  proof (induction rule: rtranclp_induct)
    case (step b c)
    then have "safe_inv qu b" "grows a b" "\<forall>m. m \<noteq> n \<longrightarrow> same_at a b m" "astep qu b c"
      "\<forall>m. m \<noteq> n \<longrightarrow> same_at b c m"
      by (simp_all add: step_of_def)
    moreover from this have "grows b c"
      using step_grows base_invD(1) safe_invD(1) by blast
    ultimately show ?case using grows_trans same_at_trans safe_inv_step by meson
  qed simp
  then show "safe_inv qu a'" "grows a a'" "m \<noteq> n \<Longrightarrow> same_at a a' m" by auto
qed

text \<open>The abstract steps, as moves of the node that takes them.\<close>

lemma move_adopt:
  "ct a n < t \<Longrightarrow> moves n a (a\<lparr>ct := (ct a)(n := t), rl := (rl a)(n := Follower)\<rparr>)"
  by (rule move, erule astep.Adopt) (simp add: same_at_def)

lemma move_down: "moves n a (a\<lparr>rl := (rl a)(n := Follower)\<rparr>)"
  by (rule move, rule astep.StepDown) (simp add: same_at_def)

lemma move_crash: "moves n a (a\<lparr>rl := (rl a)(n := Follower), ci := (ci a)(n := 0)\<rparr>)"
  by (rule move, rule astep.Crash) (simp add: same_at_def)

lemma move_stand:
  "moves n a (set_vote (a\<lparr>ct := (ct a)(n := Suc (ct a n)), rl := (rl a)(n := Candidate),
     cl := (cl a)(Suc (ct a n) := (cl a (Suc (ct a n)))(n := Some (lg a n)))\<rparr>) (Suc (ct a n)) n n)"
  by (rule move, rule astep.Stand) (simp_all add: same_at_def aupdates)

lemma move_vote:
  "cl a t c = Some l \<Longrightarrow> ct a n = t \<Longrightarrow> vt a t n = None \<Longrightarrow> up_to_date l (lg a n) \<Longrightarrow>
   moves n a (set_vote a t n c)"
  by (rule move, erule astep.Vote) (simp_all add: same_at_def aupdates)

lemma move_elect:
  "rl a n = Candidate \<Longrightarrow> ct a n = t \<Longrightarrow> qu Q \<Longrightarrow> \<forall>q\<in>Q. vt a t q = Some n \<Longrightarrow>
   moves n a (set_leader_log (a\<lparr>rl := (rl a)(n := Leader), ld := (ld a)(t := Some n),
     lc := (lc a)(t := ci a n)\<rparr>) t n (lg a n @ [(t, x)]))"
  by (rule move, erule astep.Elect) (simp_all add: same_at_def aupdates)

lemma move_append:
  "rl a n = Leader \<Longrightarrow> ct a n = t \<Longrightarrow> moves n a (set_leader_log a t n (lg a n @ [(t, x)]))"
  by (rule move, erule astep.Append) (simp_all add: same_at_def aupdates)

lemma move_store:
  "ld a t \<noteq> None \<Longrightarrow> ct a n = t \<Longrightarrow> rl a n \<noteq> Leader \<Longrightarrow> m \<le> length (ll a t) \<Longrightarrow>
   moves n a (set_ack (a\<lparr>rl := (rl a)(n := Follower),
     lg := (lg a)(n := adopt_prefix (lg a n) (ll a t) m)\<rparr>) t n m)"
  by (rule move, erule astep.Store) (simp_all add: same_at_def aupdates)

lemma move_commit:
  "rl a n = Leader \<Longrightarrow> ct a n = t \<Longrightarrow> 0 < i \<Longrightarrow> i \<le> length (ll a t) \<Longrightarrow>
   fst (ll a t ! (i - 1)) = t \<Longrightarrow> qu Q \<Longrightarrow> \<forall>q\<in>Q. i \<le> ak a t q \<Longrightarrow> ci a n \<le> i \<Longrightarrow>
   moves n a (a\<lparr>ci := (ci a)(n := i), lc := (lc a)(t := max (lc a t) i)\<rparr>)"
  by (rule move, erule astep.Commit) (simp_all add: same_at_def)

lemma move_learn:
  "ld a t \<noteq> None \<Longrightarrow> ct a n = t \<Longrightarrow> rl a n \<noteq> Leader \<Longrightarrow> i \<le> lc a t \<Longrightarrow>
   i \<le> length (lg a n) \<Longrightarrow> take i (lg a n) = take i (ll a t) \<Longrightarrow> ci a n \<le> i \<Longrightarrow>
   moves n a (a\<lparr>ci := (ci a)(n := i)\<rparr>)"
  by (rule move, erule astep.Learn) (simp_all add: same_at_def)

lemma move_apply:
  "0 < k \<Longrightarrow> k \<le> ci a n \<Longrightarrow> moves n a (a\<lparr>ap := insert (k, lg a n ! (k - 1)) (ap a)\<rparr>)"
  by (rule move, erule astep.Apply) (simp_all add: same_at_def)

end

end
