(* ===== verification/Raft_Sim.thy ===== *)
theory Raft_Sim
  imports Raft_Refine
begin

text \<open>
  The simulation relation and the proof, function by function, that the code of a node
  follows the abstract protocol (the files raft/role.go, raft/election.go,
  raft/replication.go and raft/apply.go).
\<close>

section \<open>The relation\<close>

definition hard_rel :: "NodeID \<Rightarrow> PersistentState \<Rightarrow> astate \<Rightarrow> bool" where
  "hard_rel n ps a \<longleftrightarrow>
     ct a n = unat (CurrentTerm ps) \<and> lg a n = alog_of (SavedEntries ps) \<and>
     vt a (unat (CurrentTerm ps)) n = vote_of (VotedFor ps) \<and>
     log_wf \<lparr>entries = SavedEntries ps\<rparr> \<and> hd (SavedEntries ps) = sentinel 0 0"

definition vote_req :: "NodeID \<Rightarrow> RequestVoteArgs \<Rightarrow> astate \<Rightarrow> bool" where
  "vote_req m args a \<longleftrightarrow> CandidateID args = m \<and>
     (\<exists>l. cl a (unat (rvTerm args)) m = Some l \<and> unat (LastLogIndex args) = length l \<and>
          unat (LastLogTerm args) = last_term l)"

definition append_req :: "NodeID \<Rightarrow> AppendEntriesArgs \<Rightarrow> astate \<Rightarrow> bool" where
  "append_req m args a \<longleftrightarrow>
     (let t = unat (aeTerm args); p = unat (PrevLogIndex args); k = length (Entries args)
      in ld a t = Some m \<and> p + k \<le> length (ll a t) \<and> int (p + k) < max_int \<and>
         unat (PrevLogTerm args) = last_term (take p (ll a t)) \<and>
         map aentry (Entries args) = take k (drop p (ll a t)) \<and>
         (\<forall>i < k. unat (Index (Entries args ! i)) = Suc (p + i)) \<and>
         unat (LeaderCommit args) \<le> lc a t)"

fun rv_peers :: "u64 \<Rightarrow> thread list \<Rightarrow> NodeID list" where
  "rv_peers t [] = []"
| "rv_peers t (RequestVoteTo p args # ts) =
     (if rvTerm args = t then p # rv_peers t ts else rv_peers t ts)"
| "rv_peers t (_ # ts) = rv_peers t ts"

definition votes_rel :: "NodeID set \<Rightarrow> NodeID \<Rightarrow> 's Node \<Rightarrow> astate \<Rightarrow> bool" where
  "votes_rel M n nd a \<longleftrightarrow> (\<exists>C. C \<subseteq> M - {n} \<and> votes nd (currentTerm nd) = Suc (card C) \<and>
     (\<forall>p\<in>C. vt a (unat (currentTerm nd)) p = Some n) \<and>
     distinct (rv_peers (currentTerm nd) (threads nd)) \<and>
     C \<inter> set (rv_peers (currentTerm nd) (threads nd)) = {})"

definition leader_rel :: "NodeID set \<Rightarrow> NodeID \<Rightarrow> 's Node \<Rightarrow> astate \<Rightarrow> bool" where
  "leader_rel M n nd a \<longleftrightarrow>
     length (entries (log nd)) \<le> Suc (ak a (unat (currentTerm nd)) n) \<and> (\<forall>p \<in> M - {n}.
     unat (map_get (matchIndex nd) p) \<le> ak a (unat (currentTerm nd)) p \<and>
     0 < map_get (nextIndex nd) p \<and> unat (map_get (nextIndex nd) p) \<le> length (entries (log nd)))"

definition threads_rel :: "NodeID set \<Rightarrow> NodeID \<Rightarrow> thread list \<Rightarrow> astate \<Rightarrow> bool" where
  "threads_rel M n ts a \<longleftrightarrow>
     (\<forall>p args. RequestVoteTo p args \<in> set ts \<longrightarrow> p \<in> M - {n} \<and> vote_req n args a) \<and>
     (\<forall>p t. ReplicateTo p t \<in> set ts \<longrightarrow> p \<in> M - {n})"

definition static_rel :: "NodeID set \<Rightarrow> NodeID \<Rightarrow> 's Node \<Rightarrow> bool" where
  "static_rel M n nd \<longleftrightarrow> id nd = n \<and> n \<in> M \<and> n \<noteq> [] \<and> set (peers nd) = M - {n} \<and>
     distinct (peers nd) \<and> ElectionTimeoutMin (cfg nd) < ElectionTimeoutMax (cfg nd)"

definition soft_rel :: "NodeID set \<Rightarrow> NodeID \<Rightarrow> 's Node \<Rightarrow> astate \<Rightarrow> bool" where
  "soft_rel M n nd a \<longleftrightarrow> rl a n = role nd \<and> ci a n = unat (commitIndex nd) \<and>
     lastApplied nd \<le> commitIndex nd \<and> threads_rel M n (threads nd) a \<and>
     (role nd = Leader \<longrightarrow> leader_rel M n nd a) \<and>
     (role nd = Candidate \<longrightarrow> votes_rel M n nd a)"

locale raft_deployment = hosted_storage sinv content "dSave D" "dLoad D" "dDisturb D"
  for sinv :: "'s \<Rightarrow> bool" and content :: "'s \<Rightarrow> PersistentState"
    and D :: "('s, 'd) deployment" +
  fixes st :: "NodeID \<Rightarrow> 's"
  assumes conf_id: "n \<in> set (dMembers D) \<Longrightarrow> cfgID (dConf D n) = n"
    and conf_peers: "n \<in> set (dMembers D) \<Longrightarrow> set (Peers (dConf D n)) = set (dMembers D)"
    and fresh: "n \<in> set (dMembers D) \<Longrightarrow> sinv (st n) \<and> content (st n) = zeroState"

sublocale raft_deployment \<subseteq> quorum_system "majority (set (dMembers D))"
proof unfold_locales
  fix A B :: "NodeID set"
  assume "majority (set (dMembers D)) A" "majority (set (dMembers D)) B"
  then show "A \<inter> B \<noteq> {}"
    using majorities_meet [of "set (dMembers D)" A B] by (simp add: majority_def)
qed

context raft_deployment
begin

abbreviation M :: "NodeID set" where "M \<equiv> set (dMembers D)"
abbreviation safe :: "astate \<Rightarrow> bool" where "safe \<equiv> safe_inv (majority M)"

definition stored :: "'s \<Rightarrow> PersistentState" where
  "stored s = restored (content s)"

definition node_rel :: "NodeID \<Rightarrow> 's Node \<Rightarrow> astate \<Rightarrow> bool" where
  "node_rel n nd a \<longleftrightarrow> static_rel M n nd \<and> sinv (storage nd) \<and>
     stored (storage nd) = persistent nd \<and> hard_rel n (persistent nd) a \<and> soft_rel M n nd a"

definition down_rel :: "NodeID \<Rightarrow> 's \<Rightarrow> astate \<Rightarrow> bool" where
  "down_rel n s a \<longleftrightarrow> sinv s \<and> hard_rel n (stored s) a \<and> rl a n = Follower \<and> ci a n = 0"

definition sim ::
  "NodeID \<Rightarrow> astate \<Rightarrow> ('x \<Rightarrow> astate \<Rightarrow> bool) \<Rightarrow> ('x, 's Node) outcome \<Rightarrow> bool" where
  "sim n a Q r \<longleftrightarrow> (case r of
     Ok x \<Rightarrow> \<exists>a'. moves n a a' \<and> Q x a'
   | Panic e nd \<Rightarrow> e = PersistFailed \<and> (\<exists>a'. moves n a a' \<and> down_rel n (storage nd) a'))"

lemma sim_Ok: "moves n a a' \<Longrightarrow> Q x a' \<Longrightarrow> sim n a Q (Ok x)"
  by (auto simp: sim_def)

lemma sim_here: "Q x a \<Longrightarrow> sim n a Q (Ok x)"
  by (rule sim_Ok [OF moves_refl])

lemma sim_move: "moves n a b \<Longrightarrow> sim n b Q r \<Longrightarrow> sim n a Q r"
  unfolding sim_def by (cases r) (auto intro: moves_trans)

lemma sim_andThen:
  assumes "safe a" "sim n a Q r"
    and "\<And>x b. moves n a b \<Longrightarrow> safe b \<Longrightarrow> Q x b \<Longrightarrow> sim n b P (f x)"
  shows "sim n a P (andThen r f)"
proof (cases r)
  case (Ok x)
  then obtain b where "moves n a b" "Q x b" using assms(2) by (auto simp: sim_def)
  then show ?thesis using assms(1,3) moves_keep(1) sim_move Ok by fastforce
next
  case (Panic e nd)
  then show ?thesis using assms(2) by (simp add: sim_def)
qed

lemma sim_weaken: "sim n a Q r \<Longrightarrow> (\<And>x b. Q x b \<Longrightarrow> P x b) \<Longrightarrow> sim n a P r"
  unfolding sim_def by (cases r) auto

lemma restored_nonempty [simp]: "SavedEntries ps \<noteq> [] \<Longrightarrow> restored ps = ps"
  by (simp add: restored_def)

lemma crash_down_rel:
  assumes "sinv s" "hard_rel n (stored s) a"
  shows "\<exists>a'. moves n a a' \<and> down_rel n s a'"
proof (intro exI conjI)
  show "moves n a (a\<lparr>rl := (rl a)(n := Follower), ci := (ci a)(n := 0)\<rparr>)" by (rule move_crash)
  show "down_rel n s (a\<lparr>rl := (rl a)(n := Follower), ci := (ci a)(n := 0)\<rparr>)"
    using assms by (simp add: down_rel_def hard_rel_def)
qed

text \<open>
  The one way state reaches the disk: the node \<open>nd\<close>, changed in memory to \<open>nd'\<close>, saves
  itself. Whether the save succeeds or not, the disk holds one of the two states.
\<close>

lemma persist_sim:
  assumes "sinv (storage nd)" "hard_rel n (stored (storage nd)) a"
    and "storage nd' = storage nd" "moves n a b" "hard_rel n (persistent nd') b"
    and "\<And>s. sinv s \<Longrightarrow> stored s = persistent nd' \<Longrightarrow> Q (nd'\<lparr>storage := s\<rparr>) b"
  shows "sim n a Q (persist (dSave D) nd')"
proof -
  obtain s e where s: "dSave D (persistent nd') (storage nd) = (s, e)" by fastforce
  have inv: "sinv s" using save_inv [OF assms(1), of "persistent nd'"] s by simp
  have ne: "restored (persistent nd') = persistent nd'"
    using assms(5) by (auto simp: hard_rel_def log_wf_def)
  show ?thesis
  proof (cases e)
    case None
    then have "stored s = persistent nd'" using save_ok [OF assms(1)] s ne by (auto simp: stored_def)
    then show ?thesis
      using s None inv assms by (auto simp: persist_def sim_def split: prod.splits)
  next
    case (Some x)
    then have "content s = content (storage nd) \<or> content s = persistent nd'"
      using save_err [OF assms(1)] s by auto
    then have "stored s = stored (storage nd) \<or> stored s = persistent nd'"
      using ne by (auto simp: stored_def)
    then have "\<exists>a'. moves n a a' \<and> down_rel n s a'"
      using crash_down_rel [OF inv, of n a] crash_down_rel [OF inv, of n b] assms(2,4,5)
        moves_trans by (metis (no_types))
    then show ?thesis using s Some assms(3) by (simp add: persist_def sim_def)
  qed
qed

lemma persist_node_sim:
  assumes "node_rel n nd a" "storage nd' = storage nd" "moves n a b"
    and "static_rel M n nd'" "hard_rel n (persistent nd') b"
    and "\<And>s. sinv s \<Longrightarrow> stored s = persistent nd' \<Longrightarrow>
           node_rel n (nd'\<lparr>storage := s\<rparr>) b \<Longrightarrow> Q (nd'\<lparr>storage := s\<rparr>) b"
    and "soft_rel M n nd' b"
  shows "sim n a Q (persist (dSave D) nd')"
proof (rule persist_sim [of nd])
  show "sinv (storage nd)" "hard_rel n (stored (storage nd)) a"
    using assms(1) by (simp_all add: node_rel_def)
  fix s assume "sinv s" "stored s = persistent nd'"
  moreover from this have "node_rel n (nd'\<lparr>storage := s\<rparr>) b"
    using assms(4,5,7)
    by (simp add: node_rel_def static_rel_def persistent_def soft_rel_def leader_rel_def votes_rel_def)
  ultimately show "Q (nd'\<lparr>storage := s\<rparr>) b" by (rule assms(6))
qed (use assms in simp_all)

text \<open>Fields that the relation does not read.\<close>

lemma node_rel_ignores [simp]:
  "node_rel n (nd\<lparr>electionDeadline := d\<rparr>) a = node_rel n nd a"
  "node_rel n (nd\<lparr>leaderID := l\<rparr>) a = node_rel n nd a"
  "node_rel n (nd\<lparr>kickCh := k\<rparr>) a = node_rel n nd a"
  "node_rel n (nd\<lparr>started := b\<rparr>) a = node_rel n nd a"
  "node_rel n (nd\<lparr>stopped := b\<rparr>) a = node_rel n nd a"
  by (simp_all add: node_rel_def static_rel_def persistent_def soft_rel_def leader_rel_def votes_rel_def)

lemma raftLog_eta [simp]: "\<lparr>entries = entries l\<rparr> = (l :: raftLog)"
  by simp

lemma node_relD:
  assumes "node_rel n nd a"
  shows "id nd = n" "n \<in> M" "n \<noteq> []" "set (peers nd) = M - {n}" "distinct (peers nd)"
    and "ct a n = unat (currentTerm nd)" "lg a n = alog_of (entries (log nd))"
    and "vt a (unat (currentTerm nd)) n = vote_of (votedFor nd)"
    and "log_wf (log nd)" "hd (entries (log nd)) = sentinel 0 0"
    and "rl a n = role nd" "ci a n = unat (commitIndex nd)"
    and "threads_rel M n (threads nd) a"
    and "role nd = Leader \<Longrightarrow> leader_rel M n nd a"
    and "role nd = Candidate \<Longrightarrow> votes_rel M n nd a"
    and "sinv (storage nd)" "stored (storage nd) = persistent nd"
    and "static_rel M n nd" "hard_rel n (persistent nd) a" "soft_rel M n nd a"
    and "lastApplied nd \<le> commitIndex nd"
  using assms
  by (simp_all add: node_rel_def static_rel_def soft_rel_def hard_rel_def persistent_def)

lemma timer_Ok:
  assumes "static_rel M n nd"
  obtains d where "resetElectionTimer ev nd = Ok (nd\<lparr>electionDeadline := d\<rparr>)"
  using assms by (auto simp: resetElectionTimer_def static_rel_def Let_def)

lemma timer_sim:
  assumes "node_rel n nd a"
    and "\<And>d. Q (nd\<lparr>electionDeadline := d\<rparr>) a"
  shows "sim n a Q (resetElectionTimer ev nd)"
  using timer_Ok [OF node_relD(18) [OF assms(1)], of ev] assms(2) sim_here by metis

lemma card_peers:
  assumes "static_rel M n nd"
  shows "card M = Suc (length (peers nd))" "quorum nd = card M div 2 + 1"
proof -
  have "length (peers nd) = card (M - {n})"
    using assms distinct_card by (fastforce simp: static_rel_def)
  moreover have "card M = Suc (card (M - {n}))"
    using assms by (intro card.remove) (simp_all add: static_rel_def)
  ultimately show "card M = Suc (length (peers nd))" by simp
  then show "quorum nd = card M div 2 + 1" by (simp add: quorum_def)
qed

lemma adopted_hard:
  assumes "safe a" "node_rel n nd a" "currentTerm nd < t"
  defines "b \<equiv> a\<lparr>ct := (ct a)(n := unat t), rl := (rl a)(n := Follower)\<rparr>"
  shows "moves n a b"
    and "hard_rel n (persistent (nd\<lparr>currentTerm := t, votedFor := [], leaderID := []\<rparr>)) b"
proof -
  have t: "ct a n < unat t" using assms(2,3) by (simp add: node_relD(6) [OF assms(2)] word_less_nat_alt)
  then have v: "vt a (unat t) n = None"
    by (rule fresh_term(1) [OF base_invD(1) [OF safe_invD(1) [OF assms(1)]]])
  show "hard_rel n (persistent (nd\<lparr>currentTerm := t, votedFor := [], leaderID := []\<rparr>)) b"
    using node_relD(19) [OF assms(2)] v by (simp add: hard_rel_def persistent_def vote_of_def b_def)
  show "moves n a b" unfolding b_def using t by (rule move_adopt)
qed

lemma adopted_rel:
  assumes "safe a" "node_rel n nd a" "currentTerm nd < t"
    and "sinv s" "stored s = persistent (nd\<lparr>currentTerm := t, votedFor := [], leaderID := []\<rparr>)"
  defines "b \<equiv> a\<lparr>ct := (ct a)(n := unat t), rl := (rl a)(n := Follower)\<rparr>"
  shows "node_rel n (nd\<lparr>currentTerm := t, votedFor := [], leaderID := [], storage := s,
           role := Follower\<rparr>) b"
proof -
  have "threads_rel M n (threads nd) b"
    using node_relD(13) [OF assms(2)] by (simp add: b_def threads_rel_def vote_req_def)
  then show ?thesis
    using adopted_hard(2) [OF assms(1-3), folded b_def] assms(4,5) node_relD(18,20) [OF assms(2)]
    by (simp add: node_rel_def static_rel_def soft_rel_def persistent_def) (simp add: b_def)
qed

lemma becomeFollower_sim:
  assumes "safe a" "node_rel n nd a"
  shows "sim n a (\<lambda>nd' b. node_rel n nd' b \<and> role nd' = Follower \<and>
           currentTerm nd' = max (currentTerm nd) t \<and> log nd' = log nd \<and>
           lastApplied nd' = lastApplied nd \<and> commitIndex nd' = commitIndex nd)
         (becomeFollower (dSave D) ev t nd)"
    (is "sim n a ?Q _")
  unfolding becomeFollower_def Let_def
proof (rule sim_andThen [where Q = "\<lambda>nd' b. ?Q (nd'\<lparr>role := Follower\<rparr>) b"])
  let ?b = "a\<lparr>ct := (ct a)(n := unat t), rl := (rl a)(n := Follower)\<rparr>"
  let ?nd1 = "nd\<lparr>currentTerm := t, votedFor := [], leaderID := []\<rparr>"
  show "sim n a (\<lambda>nd' b. ?Q (nd'\<lparr>role := Follower\<rparr>) b)
          (if currentTerm nd < t then persist (dSave D) ?nd1 else Ok nd)"
  proof (cases "currentTerm nd < t")
    case True
    note rel = adopted_rel [OF assms True]
      and hard = adopted_hard [OF assms True]
    have "sim n a (\<lambda>nd' b. ?Q (nd'\<lparr>role := Follower\<rparr>) b) (persist (dSave D) ?nd1)"
    proof (rule persist_sim [of nd])
      show "moves n a ?b" "hard_rel n (persistent ?nd1) ?b" by (rule hard)+
      fix s assume "sinv s" "stored s = persistent ?nd1"
      then show "?Q (?nd1\<lparr>storage := s, role := Follower\<rparr>) ?b"
        using rel(1) [of s] True by simp
    qed (use assms(2) in \<open>simp_all add: node_relD(16,17,19) [OF assms(2)]\<close>)
    then show ?thesis using True by simp
  next
    case False
    have "node_rel n (nd\<lparr>role := Follower\<rparr>) (a\<lparr>rl := (rl a)(n := Follower)\<rparr>)"
      using assms(2)
      by (simp add: node_rel_def static_rel_def soft_rel_def hard_rel_def persistent_def
          threads_rel_def vote_req_def)
    then show ?thesis using False move_down [of n a] by (auto intro!: sim_Ok)
  qed
next
  fix nd' b assume "?Q (nd'\<lparr>role := Follower\<rparr>) b"
  then show "sim n b ?Q (if role nd = Leader then resetElectionTimer ev (nd'\<lparr>role := Follower\<rparr>)
               else Ok (nd'\<lparr>role := Follower\<rparr>))"
    by (auto intro!: timer_sim sim_here)
qed (rule assms)

lemma observeTerm_sim:
  assumes "safe a" "node_rel n nd a"
  shows "sim n a (\<lambda>(nd', b) a'. node_rel n nd' a' \<and> log nd' = log nd \<and>
           (if t \<le> currentTerm nd then nd' = nd \<and> \<not> b
            else b \<and> role nd' = Follower \<and> currentTerm nd' = t))
         (observeTerm (dSave D) ev t nd)"
proof (cases "t \<le> currentTerm nd")
  case True
  then show ?thesis using assms(2) by (auto simp: observeTerm_def intro!: sim_here)
next
  case False
  then have "currentTerm nd < t" by simp
  with False show ?thesis
    using becomeFollower_sim [OF assms, of t ev] unfolding observeTerm_def
    by (auto intro!: sim_andThen [OF assms(1)] sim_here simp: max_def)
qed

subsection \<open>Commit index and leadership\<close>

lemma node_plain: "node_rel n nd a \<Longrightarrow> plain (log nd)"
  using node_relD(9,10) by (simp add: plain_def)

text \<open>So no lookup in the log of a node leaves the slice.\<close>

lemma node_log_wf: "node_rel n nd a \<Longrightarrow> log_wf (log nd)"
  using node_plain by (simp add: plain_def)

lemma node_reads:
  assumes "node_rel n nd a"
  shows "lastIndex (log nd) = Ok (end_index (log nd))" "lastTerm (log nd) = Ok (end_term (log nd))"
    "isUpToDate (log nd) lt li = Ok (covered_by (log nd) lt li)" "term_at (log nd) i = Ok (term_of (log nd) i)"
    "matches (log nd) i t = Ok (agrees (log nd) i t)" "advanceCommitIndex nd = Ok (advance_commit nd)"
  using node_log_wf [OF assms] by (simp_all add: log_reads advanceCommitIndex_wf)

lemma advance_scan_result:
  "advance_scan nd i = nd \<or>
   (\<exists>j. commitIndex nd < j \<and> j \<le> i \<and> fst (term_of (log nd) j) = currentTerm nd \<and>
        quorum nd \<le> replica_count nd j \<and> advance_scan nd i = nd\<lparr>commitIndex := j\<rparr>)"
proof (induction nd i rule: advance_scan.induct)
  case (1 nd i)
  show ?case
  proof (cases "commitIndex nd < i \<and> fst (term_of (log nd) i) = currentTerm nd \<and>
      \<not> quorum nd \<le> replica_count nd i")
    case True
    then have "advance_scan nd i = advance_scan nd (i - 1)" by (subst advance_scan.simps) simp
    moreover have "i - 1 \<le> i" using True unat_pred_less [of "commitIndex nd" i]
      by (simp add: word_le_nat_alt)
    ultimately show ?thesis using 1 True order_trans [of _ "i - 1" i] by (metis not_le)
  next
    case False
    then show ?thesis by (subst (1 2) advance_scan.simps) (auto intro: exI [of _ i])
  qed
qed

lemma replica_quorum:
  assumes "static_rel M n nd" "quorum nd \<le> replica_count nd j"
  shows "majority M (insert n {p \<in> M - {n}. j \<le> map_get (matchIndex nd) p})"
proof -
  let ?R = "{p \<in> M - {n}. j \<le> map_get (matchIndex nd) p}"
  have "set (filter (\<lambda>p. j \<le> map_get (matchIndex nd) p) (peers nd)) = ?R"
    using assms(1) by (auto simp: static_rel_def)
  moreover have "distinct (filter (\<lambda>p. j \<le> map_get (matchIndex nd) p) (peers nd))"
    using assms(1) by (simp add: static_rel_def)
  ultimately have "length (filter (\<lambda>p. j \<le> map_get (matchIndex nd) p) (peers nd)) = card ?R"
    using distinct_card by metis
  then have "card (insert n ?R) = replica_count nd j" by (simp add: replica_count_def)
  moreover have "card M < 2 * quorum nd" using card_peers(2) [OF assms(1)] by simp
  ultimately show ?thesis using assms by (auto simp: majority_def static_rel_def)
qed

lemma advance_sim:
  assumes "safe a" "node_rel n nd a" "role nd = Leader"
    and Q: "\<And>b j. node_rel n (nd\<lparr>commitIndex := j\<rparr>) b \<Longrightarrow> Q (nd\<lparr>commitIndex := j\<rparr>) b"
  shows "\<exists>b. moves n a b \<and> Q (advance_commit nd) b"
proof -
  note rel = node_relD [OF assms(2)] and pl = node_plain [OF assms(2)]
  have nd: "nd\<lparr>commitIndex := commitIndex nd\<rparr> = nd" by simp
  show ?thesis
  proof (cases "advance_commit nd = nd")
    case True
    then show ?thesis using Q [of "commitIndex nd" a] assms(2) nd moves_refl by metis
  next
    case False
    then obtain j where j: "commitIndex nd < j" "j \<le> end_index (log nd)"
      "fst (term_of (log nd) j) = currentTerm nd" "quorum nd \<le> replica_count nd j"
      "advance_commit nd = nd\<lparr>commitIndex := j\<rparr>"
      using advance_scan_result [of nd "end_index (log nd)"] by (auto simp: advance_commit_def)
    let ?t = "unat (currentTerm nd)"
    let ?b = "a\<lparr>ci := (ci a)(n := unat j), lc := (lc a)(?t := max (lc a ?t) (unat j))\<rparr>"
    have ll: "ll a ?t = alog_of (entries (log nd))"
      using election_invD(13) [OF base_invD(1) [OF safe_invD(1) [OF assms(1)]], of n] rel(6,7,11) assms(3)
      by simp
    have len: "0 < unat j" "unat j \<le> length (ll a ?t)"
      using j(1,2) plain_end_index [OF pl] by (auto simp: ll word_less_nat_alt word_le_nat_alt)
    have "unat (fst (term_of (log nd) j)) = fst (ll a ?t ! (unat j - 1))"
      using plain_term_of(2) [OF pl] len last_term_take by (simp add: ll)
    then have t: "fst (ll a ?t ! (unat j - 1)) = ?t" using j(3) by simp
    have lead: "leader_rel M n nd a" using rel(14) assms(3) by simp
    have "moves n a ?b"
    proof (rule move_commit [OF _ rel(6) len t replica_quorum [OF rel(18) j(4)]])
      show "\<forall>q \<in> insert n {p \<in> M - {n}. j \<le> map_get (matchIndex nd) p}. unat j \<le> ak a ?t q"
        using lead len(2) plain_length [OF pl]
        by (auto simp: leader_rel_def ll word_le_nat_alt intro: order_trans)
      show "ci a n \<le> unat j" using rel(12) j(1) by (simp add: word_less_nat_alt)
    qed (use rel(11) assms(3) in simp)
    moreover have "node_rel n (nd\<lparr>commitIndex := j\<rparr>) ?b"
      using rel(13,16-21) assms(3) j(1) lead
      by (simp add: node_rel_def static_rel_def hard_rel_def persistent_def soft_rel_def
          leader_rel_def threads_rel_def vote_req_def)
    ultimately show ?thesis using Q j(5) by metis
  qed
qed

lemma fill_map: "map_get (fill_map ps v) p = (if p \<in> set ps then v else 0)"
proof -
  have "fold (\<lambda>p m. m(p \<mapsto> v)) ps m p = (if p \<in> set ps then Some v else m p)" for m
    by (induction ps arbitrary: m) auto
  then show ?thesis by (simp add: map_get_def fill_map_def)
qed

lemma rv_peers_append [simp]: "rv_peers t (xs @ ys) = rv_peers t xs @ rv_peers t ys"
  by (induction t xs rule: rv_peers.induct) auto

lemma spawn_rel [simp]:
  "node_rel n (spawn (LeaderLoop t) nd) a = node_rel n nd a"
  "node_rel n (spawn Ticker nd) a = node_rel n nd a"
  "node_rel n (spawn Applier nd) a = node_rel n nd a"
  by (simp_all add: spawn_def node_rel_def static_rel_def persistent_def soft_rel_def
      leader_rel_def votes_rel_def threads_rel_def)

lemma node_rel_deadline_votes [simp]:
  "node_rel n (nd\<lparr>electionDeadline := d, votes := v\<rparr>) a = node_rel n (nd\<lparr>votes := v\<rparr>) a"
  by (simp add: node_rel_def static_rel_def persistent_def soft_rel_def leader_rel_def votes_rel_def)

lemma node_rel_threads:
  assumes "node_rel n nd a" "threads_rel M n ts a"
    and "role nd = Candidate \<Longrightarrow> votes_rel M n (nd\<lparr>threads := ts\<rparr>) a"
  shows "node_rel n (nd\<lparr>threads := ts\<rparr>) a"
  using assms by (simp add: node_rel_def static_rel_def persistent_def soft_rel_def leader_rel_def)

subsection \<open>What other nodes and messages know stays true\<close>

lemma vote_req_grows: "vote_req m args a \<Longrightarrow> grows a b \<Longrightarrow> vote_req m args b"
  unfolding vote_req_def by (meson growsD(1))

lemma threads_rel_grows: "threads_rel M n ts a \<Longrightarrow> grows a b \<Longrightarrow> threads_rel M n ts b"
  unfolding threads_rel_def by (meson vote_req_grows)

lemma append_req_grows:
  assumes "append_req m args a" "grows a b"
  shows "append_req m args b"
proof -
  let ?t = "unat (aeTerm args)"
  obtain z where z: "ll b ?t = ll a ?t @ z" using growsD(3) [OF assms(2)] by blast
  have "lc a ?t \<le> lc b ?t" "ld b ?t = Some m"
    using growsD(2,5) [OF assms(2), of ?t] assms(1) by (simp_all add: append_req_def Let_def)
  then show ?thesis using assms(1) by (auto simp: append_req_def Let_def z)
qed


lemma follow_on_one:
  assumes "plain l" "int (length (entries l)) < max_int" "Index e = end_index l + 1"
  shows "follow_on (end_index l) [e]"
proof -
  have "int (length (alog_of (entries l))) < max_int" using plain_bound assms(1) by blast
  then have "unat (end_index l) < max_u64" using plain_end_index [OF assms(1)] by linarith
  then show ?thesis using assms(3) by (simp add: follow_on_def)
qed

lemma plain_append_one:
  assumes "plain l" "int (length (entries l)) < max_int" "Index e = end_index l + 1"
  shows "plain (append_entries l [e])"
    and "alog_of (entries (append_entries l [e])) = alog_of (entries l) @ [aentry e]"
  using plain_append [OF assms(1) follow_on_one [OF assms]] assms(2) by simp_all

lemma becomeLeader_sim:
  assumes "safe a" "node_rel n nd a" "role nd = Candidate"
    and "quorum nd \<le> votes nd (currentTerm nd)" "int (length (entries (log nd))) < max_int"
  shows "sim n a (node_rel n) (becomeLeader (dSave D) nd)"
proof -
  note rel = node_relD [OF assms(2)] and pl = node_plain [OF assms(2)]
  let ?t = "unat (currentTerm nd)"
  let ?e = "\<lparr>Index = end_index (log nd) + 1, Term = currentTerm nd, Command = []\<rparr>"
  let ?nd = "nd\<lparr>role := Leader, leaderID := id nd,
     nextIndex := fill_map (peers nd) (end_index (log nd) + 1),
     matchIndex := fill_map (peers nd) 0, log := append_entries (log nd) [?e]\<rparr>"
  let ?b = "set_leader_log (a\<lparr>rl := (rl a)(n := Leader), ld := (ld a)(?t := Some n),
     lc := (lc a)(?t := ci a n)\<rparr>) ?t n (lg a n @ [(?t, [])])"
  note app = plain_append_one [OF pl assms(5), of ?e, simplified]
  obtain C where C: "C \<subseteq> M - {n}" "votes nd (currentTerm nd) = Suc (card C)"
    "\<forall>p\<in>C. vt a ?t p = Some n"
    using rel(15) assms(3) by (auto simp: votes_rel_def)
  have self: "vt a ?t n = Some n"
    using election_invD(3,4) [OF base_invD(1) [OF safe_invD(1) [OF assms(1)]]] rel(6,11) assms(3)
    by metis
  have "card (insert n C) = Suc (card C)"
    using C(1) finite_subset [OF C(1)] by (intro card_insert_disjoint) auto
  then have maj: "majority M (insert n C)"
    using C assms(4) card_peers(2) [OF rel(18)] rel(2) by (auto simp: majority_def)
  have mv: "moves n a ?b"
    using move_elect [OF _ rel(6) maj, of "[]"] rel(11) assms(3) C(3) self by simp
  have hard: "hard_rel n (persistent ?nd) ?b"
    using rel(19) app by (simp add: hard_rel_def persistent_def aupdates plain_def aentry_def)
  have li: "unat (end_index (log nd)) < max_u64" "0 < length (entries (log nd))"
    using plain_end_index [OF pl] plain_bound [OF pl] rel(9) by (linarith, simp)
  have "leader_rel M n ?nd ?b"
    using rel(4,7) li plain_length [OF app(1)] plain_end_index [OF pl] app(2)
    by (auto simp: leader_rel_def fill_map aupdates word_less_nat_alt)
  moreover have "threads_rel M n (threads nd) ?b"
    using rel(13) by (simp add: threads_rel_def vote_req_def aupdates)
  ultimately have soft: "soft_rel M n ?nd ?b"
    using rel(12,21) by (simp add: soft_rel_def aupdates)
  have "sim n a (\<lambda>nd' b. node_rel n nd' b \<and> role nd' = Leader) (persist (dSave D) ?nd)"
    using rel(18) soft hard
    by (intro persist_node_sim [OF assms(2) _ mv]) (simp_all add: static_rel_def)
  then have "sim n a (node_rel n) (andThen (persist (dSave D) ?nd)
    (\<lambda>nd'. andThen (advanceCommitIndex nd')
    (\<lambda>nd'. within nd' (lastIndex (log nd'))
    (\<lambda>_. Ok (spawn (LeaderLoop (currentTerm nd')) (nd'\<lparr>kickCh := Some False\<rparr>))))))"
  proof (rule sim_andThen [OF assms(1)])
    fix nd' b assume nd': "safe b" "node_rel n nd' b \<and> role nd' = Leader"
    then have "\<exists>c. moves n b c \<and> node_rel n (advance_commit nd') c"
      by (intro advance_sim) auto
    then show "sim n b (node_rel n) (andThen (advanceCommitIndex nd')
      (\<lambda>nd'. within nd' (lastIndex (log nd'))
      (\<lambda>_. Ok (spawn (LeaderLoop (currentTerm nd')) (nd'\<lparr>kickCh := Some False\<rparr>)))))"
      using node_reads [OF conjunct1 [OF nd'(2)]] by (auto intro: sim_Ok)
  qed
  then show ?thesis by (simp add: becomeLeader_def node_reads(1) [OF assms(2)] Let_def)
qed

subsection \<open>Elections\<close>

lemma set_rv_peers:
  "set (rv_peers t ts) = {p. \<exists>args. RequestVoteTo p args \<in> set ts \<and> rvTerm args = t}"
  by (induction t ts rule: rv_peers.induct) auto

lemma old_requests:
  assumes "safe a" "threads_rel M n ts a" "ct a n < unat t"
  shows "rv_peers t ts = []"
proof -
  have "rvTerm args \<noteq> t" if "RequestVoteTo p args \<in> set ts" for p args
  proof -
    have "vote_req n args a" using that assms(2) by (auto simp: threads_rel_def)
    then have "unat (rvTerm args) \<le> ct a n"
      using election_invD(1,3) [OF base_invD(1) [OF safe_invD(1) [OF assms(1)]]]
      by (metis vote_req_def)
    then show ?thesis using assms(3) by auto
  qed
  then have "set (rv_peers t ts) = {}" by (auto simp: set_rv_peers)
  then show ?thesis by simp
qed

lemma fold_spawn:
  "fold (\<lambda>p. spawn (f p)) ps nd =
     (if stopped nd then nd else nd\<lparr>threads := threads nd @ map f ps\<rparr>)"
  by (induction ps arbitrary: nd) (simp_all add: spawn_def)

lemma rv_peers_requests [simp]:
  "rv_peers t (map (\<lambda>p. RequestVoteTo p args) ps) = (if rvTerm args = t then ps else [])"
  by (induction ps) auto

lemma becomeCandidate_sim:
  assumes "safe a" "node_rel n nd a" "unat (currentTerm nd) < max_u64"
  shows "sim n a (\<lambda>nd' b. node_rel n (nd'\<lparr>votes := (votes nd')(currentTerm nd' := 1)\<rparr>) b \<and>
           role nd' = Candidate \<and> rv_peers (currentTerm nd') (threads nd') = [] \<and> log nd' = log nd)
         (becomeCandidate (dSave D) ev nd)" (is "sim n a ?Q _")
proof -
  note rel = node_relD [OF assms(2)]
  let ?t = "Suc (ct a n)"
  let ?nd = "nd\<lparr>role := Candidate, currentTerm := currentTerm nd + 1, votedFor := id nd, leaderID := []\<rparr>"
  let ?nv = "\<lambda>nd'. nd'\<lparr>votes := (votes nd')(currentTerm nd' := 1)\<rparr> :: 's Node"
  let ?b = "set_vote (a\<lparr>ct := (ct a)(n := ?t), rl := (rl a)(n := Candidate),
     cl := (cl a)(?t := (cl a ?t)(n := Some (lg a n)))\<rparr>) ?t n n"
  have mv: "moves n a ?b" by (rule move_stand)
  have t: "unat (currentTerm nd + 1) = ?t" using assms(3) rel(6) by simp
  have safe: "safe ?b" using moves_keep(1) [OF mv assms(1)] .
  have fresh: "rv_peers (currentTerm nd + 1) (threads nd) = []"
    using old_requests [OF assms(1) rel(13)] t by simp
  have hard: "hard_rel n (persistent ?nd) ?b"
    using rel(19) t rel(1,3) by (simp add: hard_rel_def persistent_def vote_of_def aupdates)
  have g: "grows a ?b" using moves_keep(2) [OF mv assms(1)] .
  have "threads_rel M n (threads nd) ?b"
    using rel(13) g by (rule threads_rel_grows)
  moreover have "votes_rel M n (?nv ?nd) ?b"
    unfolding votes_rel_def using fresh by (intro exI [of _ "{}"]) simp
  ultimately have soft: "soft_rel M n (?nv ?nd) ?b"
    using rel(12,21) by (simp add: soft_rel_def aupdates)
  have "sim n a ?Q (persist (dSave D) ?nd)"
  proof (rule persist_sim [of nd _ _ _ ?b])
    fix s assume "sinv s" "stored s = persistent ?nd"
    then have "node_rel n (?nv (?nd\<lparr>storage := s\<rparr>)) ?b"
      using rel(18) hard soft
      by (simp add: node_rel_def persistent_def static_rel_def soft_rel_def votes_rel_def)
    then show "?Q (?nd\<lparr>storage := s\<rparr>) ?b" using fresh by simp
  qed (use mv hard in \<open>simp_all add: rel(16,17,19)\<close>)
  then show ?thesis
    unfolding becomeCandidate_def
  proof (rule sim_andThen [OF assms(1)])
    fix nd' b assume Q: "?Q nd' b"
    then have "static_rel M n nd'" using node_relD(18) [OF conjunct1 [OF Q]] by (simp add: static_rel_def)
    then obtain d where "resetElectionTimer ev nd' = Ok (nd'\<lparr>electionDeadline := d\<rparr>)"
      by (rule timer_Ok)
    then show "sim n b ?Q (resetElectionTimer ev nd')"
      using Q by (simp add: sim_here)
  qed
qed

lemma startElection_sim:
  assumes "safe a" "node_rel n nd a" "node_bounded nd"
  shows "sim n a (node_rel n) (startElection (dSave D) ev nd)"
  unfolding startElection_def
proof (rule sim_andThen [OF assms(1) becomeCandidate_sim [OF assms(1,2)]])
  show "unat (currentTerm nd) < max_u64" using assms(3) by (simp add: node_bounded_def)
  fix nd1 b
  assume b: "safe b" and Q: "node_rel n (nd1\<lparr>votes := (votes nd1)(currentTerm nd1 := 1)\<rparr>) b \<and>
    role nd1 = Candidate \<and> rv_peers (currentTerm nd1) (threads nd1) = [] \<and> log nd1 = log nd"
  let ?nd = "nd1\<lparr>votes := (votes nd1)(currentTerm nd1 := 1)\<rparr>"
  let ?args = "\<lparr>rvTerm = currentTerm nd1, CandidateID = id nd1, LastLogIndex = end_index (log nd1),
     LastLogTerm = end_term (log nd1)\<rparr>"
  note rel = node_relD [OF conjunct1 [OF Q], simplified]
  have lead: "sim n b (node_rel n) (becomeLeader (dSave D) ?nd)" if "quorum ?nd \<le> 1"
    using becomeLeader_sim [OF b conjunct1 [OF Q]] Q that assms(3) by (simp add: node_bounded_def)
  have "vote_req n ?args b"
    using election_invD(4) [OF base_invD(1) [OF safe_invD(1) [OF b]], of n] rel(1,6,7,11) Q
      plain_end_index plain_end_term node_plain [OF conjunct1 [OF Q]] by (simp add: vote_req_def)
  then have "threads_rel M n (threads nd1 @ map (\<lambda>p. RequestVoteTo p ?args) (peers nd1)) b"
    using rel(4,13) by (auto simp: threads_rel_def)
  moreover have "votes_rel M n (?nd\<lparr>threads := threads nd1 @ map (\<lambda>p. RequestVoteTo p ?args) (peers nd1)\<rparr>) b"
    unfolding votes_rel_def using Q rel(5) by (intro exI [of _ "{}"]) simp
  ultimately have "node_rel n (fold (\<lambda>peer. spawn (RequestVoteTo peer ?args)) (peers ?nd) ?nd) b"
    using Q node_rel_threads [OF conjunct1 [OF Q]] by (simp add: fold_spawn)
  then show "sim n b (node_rel n)
    (let n = nd1\<lparr>votes := (votes nd1)(currentTerm nd1 := 1)\<rparr>
     in if quorum n \<le> votes n (currentTerm n) then becomeLeader (dSave D) n
        else within n (lastIndex (log n)) (\<lambda>li. within n (lastTerm (log n))
          (\<lambda>lt. let args = \<lparr>rvTerm = currentTerm n, CandidateID = id n,
                             LastLogIndex = li, LastLogTerm = lt\<rparr>
                in Ok (fold (\<lambda>peer. spawn (RequestVoteTo peer args)) (peers n) n))))"
    using lead node_reads(1,2) [OF conjunct1 [OF Q]] by (simp add: Let_def sim_here)
qed

lemma ticker_sim:
  assumes "safe a" "node_rel n nd a" "node_bounded nd"
  shows "sim n a (node_rel n) (ticker (dSave D) ev nd)"
  using startElection_sim [OF assms] sim_here [of "node_rel n", OF assms(2)] by (simp add: ticker_def)

lemma timer_then:
  assumes "node_rel n nd a" "\<And>d. sim n a P (f (nd\<lparr>electionDeadline := d\<rparr>))"
  shows "sim n a P (andThen (resetElectionTimer ev nd) f)"
  using timer_Ok [OF node_relD(18) [OF assms(1)], of ev] assms(2) by (metis andThen.simps(1))

lemma observeTerm_then:
  assumes "safe a" "node_rel n nd a"
    and "\<And>nd' s b. moves n a b \<Longrightarrow> safe b \<Longrightarrow> node_rel n nd' b \<Longrightarrow> log nd' = log nd \<Longrightarrow>
      (if t \<le> currentTerm nd then nd' = nd \<and> \<not> s
       else s \<and> role nd' = Follower \<and> currentTerm nd' = t) \<Longrightarrow> sim n b P (f (nd', s))"
  shows "sim n a P (andThen (observeTerm (dSave D) ev t nd) f)"
  by (rule sim_andThen [OF assms(1) observeTerm_sim [OF assms(1,2)]]) (auto intro!: assms(3))

lemma requestVote_sim:
  assumes "safe a" "node_rel n nd a" "node_bounded nd"
    and "role nd = Candidate \<Longrightarrow> rvTerm args = currentTerm nd \<Longrightarrow> VoteGranted reply \<Longrightarrow>
      votes_rel M n (nd\<lparr>votes := (votes nd)(rvTerm args := votes nd (rvTerm args) + 1)\<rparr>) a"
  shows "sim n a (node_rel n) (requestVote (dSave D) ev args reply nd)"
proof (cases "stopped nd \<or> \<not> rvrTerm reply \<le> currentTerm nd")
  case True
  show ?thesis
  proof (cases "stopped nd")
    case False
    then show ?thesis
      unfolding requestVote_def using True
      by (auto intro!: observeTerm_then [OF assms(1,2)] sim_here)
  qed (use assms(2) in \<open>simp add: requestVote_def sim_here\<close>)
next
  case False
  let ?nd = "nd\<lparr>votes := (votes nd)(rvTerm args := votes nd (rvTerm args) + 1)\<rparr>"
  have eq: "requestVote (dSave D) ev args reply nd =
    (if role nd \<noteq> Candidate \<or> rvTerm args \<noteq> currentTerm nd \<or> \<not> VoteGranted reply then Ok nd
     else if quorum ?nd \<le> votes ?nd (rvTerm args) then becomeLeader (dSave D) ?nd else Ok ?nd)"
    using False by (simp add: requestVote_def observeTerm_def Let_def)
  show ?thesis
  proof (cases "role nd \<noteq> Candidate \<or> rvTerm args \<noteq> currentTerm nd \<or> \<not> VoteGranted reply")
    case True
    then show ?thesis using assms(2) by (simp add: eq sim_here)
  next
    case False
    then have v: "votes_rel M n ?nd a" using assms(4) by blast
    have rel: "node_rel n ?nd a"
      using assms(2) v False by (simp add: node_rel_def static_rel_def persistent_def soft_rel_def)
    then show ?thesis
      using becomeLeader_sim [OF assms(1) rel] False assms(3)
      by (simp add: eq sim_here node_bounded_def)
  qed
qed

lemma vote_sim:
  assumes "safe a" "node_rel n nd a" "vote_req m args a" "m \<noteq> []"
    and "currentTerm nd = rvTerm args" "votedFor nd = [] \<or> votedFor nd = CandidateID args"
    and "covered_by (log nd) (LastLogTerm args) (LastLogIndex args)"
  shows "sim n a (\<lambda>nd' b. node_rel n nd' b \<and> vt b (unat (rvTerm args)) n = Some m)
           (persist (dSave D) (nd\<lparr>votedFor := CandidateID args\<rparr>))"
proof -
  note rel = node_relD [OF assms(2)]
  let ?t = "unat (rvTerm args)"
  let ?nd = "nd\<lparr>votedFor := CandidateID args\<rparr>"
  obtain l where l: "cl a ?t m = Some l" "unat (LastLogIndex args) = length l"
      "unat (LastLogTerm args) = last_term l" and m: "CandidateID args = m"
    using assms(3) by (auto simp: vote_req_def)
  have "\<exists>b. moves n a b \<and> hard_rel n (persistent ?nd) b \<and> soft_rel M n ?nd b \<and> vt b ?t n = Some m"
  proof (cases "votedFor nd = []")
    case True
    let ?b = "set_vote a ?t n m"
    have "up_to_date l (lg a n)"
      using assms(7) plain_covered_by [OF node_plain [OF assms(2)] l(3,2)] rel(7) by simp
    moreover have "vt a ?t n = None" using rel(8) True assms(5) by (simp add: vote_of_def)
    ultimately have mv: "moves n a ?b"
      using l(1) rel(6) assms(5) by (intro move_vote) auto
    moreover have "hard_rel n (persistent ?nd) ?b"
      using rel(19) assms(4,5) m by (simp add: hard_rel_def persistent_def aupdates vote_of_def)
    moreover have "votes_rel M n ?nd ?b" if "role nd = Candidate"
    proof -
      have "vt a ?t n \<noteq> None"
        using election_invD(3,4) [OF base_invD(1) [OF safe_invD(1) [OF assms(1)]], where n = n] rel(6,11)
          that assms(5) by auto
      with \<open>vt a ?t n = None\<close> show ?thesis by simp
    qed
    moreover have "threads_rel M n (threads nd) ?b"
      using threads_rel_grows [OF rel(13) moves_keep(2) [OF mv assms(1)]] .
    ultimately show ?thesis
      using rel(11,12,14,20) by (intro exI [of _ ?b]) (simp add: soft_rel_def aupdates leader_rel_def)
  next
    case False
    then have nd: "?nd = nd" using assms(6) by simp
    have "vt a ?t n = Some m" using rel(8) False assms(5,6) m by (simp add: vote_of_def)
    then show ?thesis unfolding nd using rel(19,20) moves_refl by blast
  qed
  then obtain b where b: "moves n a b" "hard_rel n (persistent ?nd) b" "soft_rel M n ?nd b"
    "vt b ?t n = Some m" by blast
  show ?thesis
    by (rule persist_node_sim [OF assms(2) _ b(1) _ b(2) _ b(3)])
      (use rel(18) b(4) in \<open>simp_all add: static_rel_def\<close>)
qed

lemma HandleRequestVote_sim:
  assumes "safe a" "node_rel n nd a" "vote_req m args a" "m \<noteq> []"
  shows "sim n a (\<lambda>(nd', r) b. node_rel n nd' b \<and>
           (\<forall>reply. r = Inr reply \<and> VoteGranted reply \<longrightarrow> vt b (unat (rvTerm args)) n = Some m))
         (HandleRequestVote (dSave D) ev args nd)" (is "sim n a ?Q _")
proof (cases "stopped nd")
  case True
  then show ?thesis using assms(2) by (simp add: HandleRequestVote_def sim_here)
next
  case False
  let ?rest = "\<lambda>nd' :: 's Node.
    if rvTerm args < currentTerm nd'
    then Ok (nd', Inr \<lparr>rvrTerm = currentTerm nd', VoteGranted = False\<rparr>)
    else if \<not> (votedFor nd' = [] \<or> votedFor nd' = CandidateID args)
    then Ok (nd', Inr \<lparr>rvrTerm = currentTerm nd', VoteGranted = False\<rparr>)
    else within nd' (isUpToDate (log nd') (LastLogTerm args) (LastLogIndex args))
      (\<lambda>upToDate. if upToDate
         then andThen (persist (dSave D) (nd'\<lparr>votedFor := CandidateID args\<rparr>))
                (\<lambda>nd''. andThen (resetElectionTimer ev nd'')
                (\<lambda>nd''. Ok (nd'', Inr \<lparr>rvrTerm = currentTerm nd', VoteGranted = True\<rparr>)))
         else Ok (nd', Inr \<lparr>rvrTerm = currentTerm nd', VoteGranted = False\<rparr>))"
  have rest: "sim n b ?Q (?rest nd')"
    if "safe b" "node_rel n nd' b" "vote_req m args b" "rvTerm args \<le> currentTerm nd'" for nd' b
  proof (cases "rvTerm args < currentTerm nd' \<or> \<not> ((votedFor nd' = [] \<or> votedFor nd' = CandidateID args) \<and>
            covered_by (log nd') (LastLogTerm args) (LastLogIndex args))")
    case True
    then show ?thesis using that(2) node_reads(3) [OF that(2)] by (auto intro!: sim_here)
  next
    case False
    then have eq: "currentTerm nd' = rvTerm args" using that(4) by simp
    have "sim n b ?Q (andThen (persist (dSave D) (nd'\<lparr>votedFor := CandidateID args\<rparr>))
           (\<lambda>nd''. andThen (resetElectionTimer ev nd'')
           (\<lambda>nd''. Ok (nd'', Inr \<lparr>rvrTerm = currentTerm nd', VoteGranted = True\<rparr>))))"
      using False
      by (intro sim_andThen [OF that(1) vote_sim [OF that(1-3) assms(4) eq]])
        (auto intro!: timer_then sim_here)
    then show ?thesis using False node_reads(3) [OF that(2)] by simp
  qed
  have "sim n a ?Q (andThen (observeTerm (dSave D) ev (rvTerm args) nd) (\<lambda>(nd', _). ?rest nd'))"
  proof (rule observeTerm_then [OF assms(1,2)])
    fix nd' s b
    assume "moves n a b" "safe b" "node_rel n nd' b" and t: "if rvTerm args \<le> currentTerm nd
      then nd' = nd \<and> \<not> s else s \<and> role nd' = Follower \<and> currentTerm nd' = rvTerm args"
    moreover from this have "vote_req m args b"
      using vote_req_grows [OF assms(3)] moves_keep(2) assms(1) by blast
    ultimately show "sim n b ?Q (case (nd', s) of (nd', _) \<Rightarrow> ?rest nd')"
      using rest [of b nd'] by (auto split: if_splits)
  qed
  then show ?thesis using False by (simp add: HandleRequestVote_def Let_def cong: if_cong)
qed

subsection \<open>Replication: the leader's side\<close>

lemma map_get_upd [simp]: "map_get (m(k \<mapsto> v)) p = (if p = k then v else map_get m p)"
  by (simp add: map_get_def)

lemma leader_log:
  assumes "safe a" "node_rel n nd a" "role nd = Leader"
  shows "ld a (unat (currentTerm nd)) = Some n"
    and "ll a (unat (currentTerm nd)) = alog_of (entries (log nd))"
    and "unat (commitIndex nd) \<le> lc a (unat (currentTerm nd))"
proof -
  note rel = node_relD [OF assms(2)]
  note e = base_invD(1) [OF safe_invD(1) [OF assms(1)]]
  show "ld a (unat (currentTerm nd)) = Some n"
    using election_invD(12) [OF e, of n] rel(6,11) assms(3) by simp
  show "ll a (unat (currentTerm nd)) = alog_of (entries (log nd))"
    using election_invD(13) [OF e, of n] rel(6,7,11) assms(3) by simp
  show "unat (commitIndex nd) \<le> lc a (unat (currentTerm nd))"
    using safe_invD(5) [OF assms(1)] rel(6,11,12) assms(3) unfolding commit_inv_def by metis
qed

lemma replicateTo_request_ok:
  assumes "safe a" "node_rel n nd a" "peer \<in> M - {n}"
  shows "replicateTo_request peer t nd = Ok None \<or>
     (\<exists>args. replicateTo_request peer t nd = Ok (Some args) \<and> aeTerm args = t \<and> append_req n args a)"
proof (cases "role nd = Leader \<and> currentTerm nd = t")
  case True
  note rel = node_relD [OF assms(2)] and pl = node_plain [OF assms(2)]
    and lead = leader_log [OF assms(1,2) conjunct1 [OF True]]
  let ?next = "map_get (nextIndex nd) peer"
  let ?L = "alog_of (entries (log nd))"
  have nxt: "0 < ?next" "unat ?next \<le> Suc (length ?L)"
    using rel(14) True assms(3) plain_length [OF pl] by (auto simp: leader_rel_def)
  then obtain p where p: "unat ?next = Suc p" "unat (?next - 1) = p" "p \<le> length ?L"
    by (cases "unat ?next") (auto simp: unat_dec word_less_nat_alt)
  obtain es where es: "entriesFrom (log nd) ?next (MaxEntriesPerAppend (cfg nd)) = Ok es"
    "map aentry es = take (length es) (drop p ?L)"
    "\<And>k. k < length es \<Longrightarrow> unat (Index (es ! k)) = Suc p + k"
    by (rule plain_entriesFrom [OF pl nxt(1), of "MaxEntriesPerAppend (cfg nd)"]) (simp_all add: p(1))
  have "length es \<le> length ?L - p"
    using arg_cong [OF es(2), of length] by simp
  then have len: "p + length es \<le> length ?L" using p(3) by simp
  let ?args = "\<lparr>aeTerm = t, LeaderID = id nd, PrevLogIndex = ?next - 1,
     PrevLogTerm = fst (term_of (log nd) (?next - 1)), Entries = es, LeaderCommit = commitIndex nd\<rparr>"
  have "int (p + length es) < max_int" using len plain_bound [OF pl] by linarith
  then have "append_req n ?args a"
    using lead True len es(2,3) p plain_term_of(2) [OF pl, of "?next - 1"]
    by (simp add: append_req_def Let_def)
  moreover have "replicateTo_request peer t nd = Ok (Some ?args)"
    using True es(1) by (simp add: replicateTo_request_def node_reads(4) [OF assms(2)] Let_def split_beta)
  ultimately show ?thesis by auto
qed (auto simp: replicateTo_request_def)

lemma replicateTo_reply_sim:
  assumes "safe a" "node_rel n nd a" "peer \<in> M - {n}" "append_req n args a" "aeTerm args = t"
    and "Success reply \<Longrightarrow> unat (PrevLogIndex args) + length (Entries args) \<le> ak a (unat t) peer"
  shows "sim n a (node_rel n) (replicateTo_reply (dSave D) ev peer t args reply nd)"
proof (cases "stopped nd \<or> \<not> aerTerm reply \<le> currentTerm nd")
  case True
  show ?thesis
  proof (cases "stopped nd")
    case False
    then show ?thesis
      unfolding replicateTo_reply_def using True
      by (auto intro!: observeTerm_then [OF assms(1,2)] sim_here)
  qed (use assms(2) in \<open>simp add: replicateTo_reply_def sim_here\<close>)
next
  case False
  note rel = node_relD [OF assms(2)] and pl = node_plain [OF assms(2)]
  let ?prev = "PrevLogIndex args"
  let ?match = "?prev + of_nat (length (Entries args))"
  let ?nd1 = "nd\<lparr>matchIndex := (matchIndex nd)(peer \<mapsto> max (map_get (matchIndex nd) peer) ?match),
     nextIndex := (nextIndex nd)(peer \<mapsto> max (map_get (nextIndex nd) peer) (?match + 1))\<rparr>"
  let ?nd2 = "nd\<lparr>nextIndex := (nextIndex nd)(peer \<mapsto> ?prev)\<rparr>"
  have eq: "replicateTo_reply (dSave D) ev peer t args reply nd =
    (if role nd \<noteq> Leader \<or> currentTerm nd \<noteq> t then Ok nd
     else if Success reply then advanceCommitIndex ?nd1
     else if map_get (nextIndex nd) peer = ?prev + 1 \<and> ?prev > 0
     then Ok (spawn (ReplicateTo peer t) ?nd2) else Ok nd)"
    using False by (simp add: replicateTo_reply_def observeTerm_def Let_def cong: if_cong)
  show ?thesis
  proof (cases "role nd \<noteq> Leader \<or> currentTerm nd \<noteq> t")
    case True
    then show ?thesis using assms(2) by (simp add: eq sim_here)
  next
    case False
    then have ld: "role nd = Leader" "currentTerm nd = t" by auto
    note lead = leader_log [OF assms(1,2) ld(1)]
    have bnd: "int (unat ?prev + length (Entries args)) < max_int"
      "unat ?prev + length (Entries args) \<le> length (alog_of (entries (log nd)))"
      using assms(4,5) lead(2) ld(2) by (auto simp: append_req_def Let_def)
    then have m: "unat ?match = unat ?prev + length (Entries args)"
      by (intro unat_plus_of_nat) linarith
    then have m1: "unat (?match + 1) = Suc (unat ?match)" using bnd(1) by (intro unat_inc) linarith
    have lr: "leader_rel M n nd a" using rel(14) ld(1) by simp
    have "node_rel n ?nd1 a" if "Success reply"
    proof -
      have "leader_rel M n ?nd1 a"
        using lr assms(6) [OF that] m m1 bnd(2) plain_length [OF pl] ld
        by (auto simp: leader_rel_def max_def word_less_nat_alt word_le_nat_alt)
      then show ?thesis
        using assms(2) ld by (simp add: node_rel_def static_rel_def persistent_def soft_rel_def)
    qed
    then have 1: "sim n a (node_rel n) (advanceCommitIndex ?nd1)" if "Success reply"
      using advance_sim [OF assms(1), of n ?nd1 "node_rel n"] node_reads(6) that ld by (auto intro: sim_Ok)
    have "node_rel n (spawn (ReplicateTo peer t) ?nd2) a"
      if "map_get (nextIndex nd) peer = ?prev + 1" "?prev > 0"
    proof -
      have "unat ?prev \<le> length (entries (log nd))"
        using bnd(2) plain_length [OF pl] by linarith
      then have "leader_rel M n ?nd2 a" using lr that(2) by (auto simp: leader_rel_def)
      then have "node_rel n ?nd2 a"
        using assms(2) ld by (simp add: node_rel_def static_rel_def persistent_def soft_rel_def)
      moreover have "threads_rel M n (threads nd @ [ReplicateTo peer t]) a"
        using rel(13) assms(3) by (auto simp: threads_rel_def)
      ultimately show ?thesis
        using node_rel_threads [of n ?nd2 a] ld by (simp add: spawn_def)
    qed
    then show ?thesis using 1 ld assms(2) by (simp add: eq sim_here)
  qed
qed

subsection \<open>Replication: the follower's side\<close>

lemma store_entries_result:
  assumes "plain (log nd)" "p \<le> length (alog_of (entries (log nd)))"
    and "\<forall>i < length es. unat (Index (es ! i)) = Suc (p + i)" "int (p + length es) < max_int"
  shows "(store_entries sv es nd = Ok nd \<and> (\<forall>i < length es.
            p + i < length (alog_of (entries (log nd))) \<and>
            fst (alog_of (entries (log nd)) ! (p + i)) = unat (Term (es ! i)))) \<or>
         (\<exists>i < length es. \<exists>l. store_entries sv es nd = persist sv (nd\<lparr>log := l\<rparr>) \<and> plain l \<and>
            p + i \<le> length (alog_of (entries (log nd))) \<and>
            (\<forall>j < i. fst (alog_of (entries (log nd)) ! (p + j)) = unat (Term (es ! j))) \<and>
            (p + i < length (alog_of (entries (log nd))) \<longrightarrow>
               fst (alog_of (entries (log nd)) ! (p + i)) \<noteq> unat (Term (es ! i))) \<and>
            alog_of (entries l) = take (p + i) (alog_of (entries (log nd))) @ map aentry (drop i es))"
  using assms(2-4)
proof (induction es arbitrary: p)
  case (Cons e es)
  let ?l = "alog_of (entries (log nd))"
  have idx: "unat (Index e) = Suc p" using Cons.prems(2) by auto
  have tail: "\<forall>i < length es. unat (Index (es ! i)) = Suc (Suc p + i)" "int (Suc p + length es) < max_int"
    using Cons.prems(2,3) by auto
  note ta = plain_term_of [OF assms(1), of "Index e"]
  have rd: "term_at (log nd) (Index e) = Ok (term_of (log nd) (Index e))"
    using assms(1) by (simp add: plain_def term_at_wf)
  consider (same) "p < length ?l" "fst (?l ! p) = unat (Term e)"
    | (conflict) "p < length ?l" "fst (?l ! p) \<noteq> unat (Term e)" | (new) "p = length ?l"
    using Cons.prems(1) by linarith
  then show ?case
  proof cases
    case same
    have "term_of (log nd) (Index e) = (Term e, True)"
      using ta same idx last_term_take [of "Suc p" ?l] by (cases "term_of (log nd) (Index e)") (simp add: u64_eq_iff)
    then have st: "store_entries sv (e # es) nd = store_entries sv es nd" by (simp add: rd)
    from Cons.IH [of "Suc p"] same(1) tail
    consider (all) "store_entries sv es nd = Ok nd"
        "\<forall>i < length es. Suc p + i < length ?l \<and> fst (?l ! (Suc p + i)) = unat (Term (es ! i))"
      | (some) i l where "i < length es" "store_entries sv es nd = persist sv (nd\<lparr>log := l\<rparr>)" "plain l"
        "Suc p + i \<le> length ?l" "\<forall>j < i. fst (?l ! (Suc p + j)) = unat (Term (es ! j))"
        "Suc p + i < length ?l \<longrightarrow> fst (?l ! (Suc p + i)) \<noteq> unat (Term (es ! i))"
        "alog_of (entries l) = take (Suc p + i) ?l @ map aentry (drop i es)"
      by (metis Suc_leI)
    then show ?thesis
    proof cases
      case all
      then show ?thesis using st same by (intro disjI1) (auto simp: nth_Cons split: nat.split)
    next
      case (some i l)
      show ?thesis
        by (intro disjI2 exI [of _ "Suc i"] exI [of _ l] conjI)
          (use some st same in \<open>auto simp: nth_Cons split: nat.split\<close>)
    qed
  next
    case conflict
    obtain l' where l': "truncateFrom (log nd) (Index e) = Ok l'" "plain l'"
      "alog_of (entries l') = take p ?l"
      using plain_truncateFrom [OF assms(1), of "Index e"] conflict(1) idx
      by (auto simp: word_less_nat_alt)
    have "snd (term_of (log nd) (Index e))" "fst (term_of (log nd) (Index e)) \<noteq> Term e"
      using ta conflict idx last_term_take [of "Suc p" ?l] by (auto simp: u64_eq_iff)
    then have st: "store_entries sv (e # es) nd = persist sv (nd\<lparr>log := append_entries l' (e # es)\<rparr>)"
      using l'(1) by (simp add: split_beta rd)
    have "follow_on (end_index l') (e # es)"
      using Cons.prems(2) l'(3) conflict(1) plain_end_index [OF l'(2)] by (auto simp: follow_on_def)
    moreover have "int (length (entries l') + length (e # es)) \<le> max_int"
      using Cons.prems(3) l'(3) plain_length [OF l'(2)] conflict(1) by simp
    ultimately have "plain (append_entries l' (e # es))"
      "alog_of (entries (append_entries l' (e # es))) = take p ?l @ map aentry (e # es)"
      using plain_append [OF l'(2)] l'(3) by auto
    then show ?thesis
      using st conflict by (intro disjI2 exI [of _ 0] exI [of _ "append_entries l' (e # es)"]) auto
  next
    case new
    have "\<not> snd (term_of (log nd) (Index e))" using ta(1) new idx by simp
    then have st: "store_entries sv (e # es) nd = persist sv (nd\<lparr>log := append_entries (log nd) (e # es)\<rparr>)"
      by (simp add: split_beta rd)
    have "follow_on (end_index (log nd)) (e # es)"
      using Cons.prems(2) new plain_end_index [OF assms(1)] by (auto simp: follow_on_def)
    moreover have "int (length (entries (log nd)) + length (e # es)) \<le> max_int"
      using Cons.prems(3) new plain_length [OF assms(1)] by simp
    ultimately have "plain (append_entries (log nd) (e # es))"
      "alog_of (entries (append_entries (log nd) (e # es))) = take p ?l @ map aentry (e # es)"
      using plain_append [OF assms(1)] new by auto
    then show ?thesis
      using st new by (intro disjI2 exI [of _ 0] exI [of _ "append_entries (log nd) (e # es)"]) auto
  qed
qed simp

lemma logs_agree:
  assumes "log_ok a l" "log_ok a L" "p \<le> length l" "p \<le> length L"
    and "0 < p \<Longrightarrow> fst (l ! (p - 1)) = fst (L ! (p - 1))"
  shows "take p l = take p L"
proof (cases p)
  case (Suc i)
  then show ?thesis
    using log_okD(3) [OF assms(1), of i] log_okD(3) [OF assms(2), of i] assms(3-5) by simp
qed simp

lemma adopt_same: "take m l = take m L \<Longrightarrow> adopt_prefix l L m = l"
  by (simp add: adopt_prefix_def)

lemma adopt_conflict:
  assumes "i < m" "m \<le> length L" "i < length l \<Longrightarrow> fst (l ! i) \<noteq> fst (L ! i)"
  shows "adopt_prefix l L m = take m L"
proof -
  have "take m l \<noteq> take m L"
  proof
    assume eq: "take m l = take m L"
    from arg_cong [OF eq, of length] have "i < length l" using assms(1,2) by simp
    moreover have "l ! i = L ! i" using arg_cong [OF eq, of "\<lambda>x. x ! i"] assms(1) by simp
    ultimately show False using assms(3) by simp
  qed
  then show ?thesis by (simp add: adopt_prefix_def)
qed

lemma store_log:
  assumes "safe a" "plain (log nd)" "lg a n = alog_of (entries (log nd))" "append_req m args a"
    and "unat (aeTerm args) = t" "agrees (log nd) (PrevLogIndex args) (PrevLogTerm args)"
    and "k = unat (PrevLogIndex args) + length (Entries args)"
  shows "store_entries sv (Entries args) nd = Ok nd \<and> lg a n = adopt_prefix (lg a n) (ll a t) k \<or>
     (\<exists>l. store_entries sv (Entries args) nd = persist sv (nd\<lparr>log := l\<rparr>) \<and> plain l \<and>
          alog_of (entries l) = adopt_prefix (lg a n) (ll a t) k)"
proof -
  let ?p = "unat (PrevLogIndex args)" and ?es = "Entries args" and ?L = "ll a t" and ?l = "lg a n"
  have req: "k \<le> length ?L" "int k < max_int" "unat (PrevLogTerm args) = last_term (take ?p ?L)"
    "map aentry ?es = take (length ?es) (drop ?p ?L)"
    "\<forall>i < length ?es. unat (Index (?es ! i)) = Suc (?p + i)"
    using assms(4,5) by (simp_all add: append_req_def Let_def assms(7))
  have ok: "log_ok a ?l" "log_ok a ?L" using base_invD(5,6) [OF safe_invD(1) [OF assms(1)]] by blast+
  have p: "?p \<le> length ?l" "last_term (take ?p ?l) = last_term (take ?p ?L)"
    using assms(6) plain_agrees [OF assms(2)] assms(3) req(3) by auto
  have terms: "unat (Term (?es ! i)) = fst (?L ! (?p + i))" if "i < length ?es" for i
  proof -
    have "aentry (?es ! i) = ?L ! (?p + i)"
      using arg_cong [OF req(4), of "\<lambda>x. x ! i"] that req(1) assms(7) by simp
    then show ?thesis by (metis aentry_def fst_conv)
  qed
  have agree: "take (?p + i) ?l = take (?p + i) ?L"
    if "?p + i \<le> length ?l" "i \<le> length ?es" "\<forall>j < i. fst (?l ! (?p + j)) = unat (Term (?es ! j))" for i
  proof (rule logs_agree [OF ok that(1)])
    show "?p + i \<le> length ?L" using that(2) req(1) assms(7) by simp
    assume offset: "0 < ?p + i"
    show "fst (?l ! (?p + i - 1)) = fst (?L ! (?p + i - 1))"
    proof (cases i)
      case 0
      then show ?thesis
        using p offset last_term_take [of ?p ?l] last_term_take [of ?p ?L] req(1) assms(7) by simp
    next
      case (Suc j)
      then show ?thesis using that(2,3) terms [of j] by simp
    qed
  qed
  from store_entries_result [OF assms(2) p(1) [unfolded assms(3)] req(5) req(2) [unfolded assms(7)], of sv]
  consider (all) "store_entries sv ?es nd = Ok nd"
      "\<forall>i < length ?es. ?p + i < length ?l \<and> fst (?l ! (?p + i)) = unat (Term (?es ! i))"
    | (some) i l where "i < length ?es" "store_entries sv ?es nd = persist sv (nd\<lparr>log := l\<rparr>)" "plain l"
      "?p + i \<le> length ?l" "\<forall>j < i. fst (?l ! (?p + j)) = unat (Term (?es ! j))"
      "?p + i < length ?l \<longrightarrow> fst (?l ! (?p + i)) \<noteq> unat (Term (?es ! i))"
      "alog_of (entries l) = take (?p + i) ?l @ map aentry (drop i ?es)"
    unfolding assms(3) by blast
  then show ?thesis
  proof cases
    case all
    have "k \<le> length ?l"
      using all(2) p(1) assms(7) by (cases "length ?es") auto
    then have "take k ?l = take k ?L" using agree [of "length ?es"] all(2) assms(7) by simp
    then show ?thesis using all(1) by (simp add: adopt_same)
  next
    case (some i l)
    have "adopt_prefix ?l ?L k = take k ?L"
      using some(1,6) terms [of i] req(1) assms(7) by (intro adopt_conflict [of "?p + i"]) auto
    moreover have "take (?p + i) ?l = take (?p + i) ?L" using agree [of i] some(1,4,5) by simp
    moreover have "map aentry (drop i ?es) = drop i (take (length ?es) (drop ?p ?L))"
      by (simp only: drop_map [symmetric] req(4))
    then have "map aentry (drop i ?es) = take (length ?es - i) (drop (?p + i) ?L)"
      by (simp add: drop_take add.commute)
    moreover have "take k ?L = take (?p + i) ?L @ take (length ?es - i) (drop (?p + i) ?L)"
      using some(1) take_add [of "?p + i" "length ?es - i" ?L] by (simp add: assms(7))
    ultimately have "alog_of (entries l) = adopt_prefix ?l ?L k" using some(7) by simp
    then show ?thesis using some(2,3) by blast
  qed
qed

lemma store_sim:
  assumes "safe a" "node_rel n nd a" "append_req m args a" "aeTerm args = currentTerm nd"
    and "agrees (log nd) (PrevLogIndex args) (PrevLogTerm args)" "role nd = Follower"
  defines "k \<equiv> unat (PrevLogIndex args) + length (Entries args)"
    and "t \<equiv> unat (aeTerm args)"
  shows "sim n a (\<lambda>nd' b. node_rel n nd' b \<and> role nd' = Follower \<and> currentTerm nd' = currentTerm nd \<and>
            k \<le> length (lg b n) \<and> take k (lg b n) = take k (ll b t) \<and> k \<le> ak b t n)
         (store_entries (dSave D) (Entries args) nd)" (is "sim n a ?Q _")
proof -
  note rel = node_relD [OF assms(2)] and pl = node_plain [OF assms(2)]
  let ?b = "set_ack (a\<lparr>rl := (rl a)(n := Follower),
     lg := (lg a)(n := adopt_prefix (lg a n) (ll a t) k)\<rparr>) t n k"
  have k: "k \<le> length (ll a t)" "ld a t \<noteq> None"
    using assms(3) by (auto simp: append_req_def Let_def k_def t_def)
  have mv: "moves n a ?b"
    using move_store [of a t n k] k rel(6,11) assms(4,6) by (simp add: t_def)
  have post: "k \<le> length (lg ?b n)" "take k (lg ?b n) = take k (ll ?b t)" "k \<le> ak ?b t n"
    using adopt_gains [OF k(1)] by (simp_all add: aupdates)
  have thr: "threads_rel M n (threads nd) ?b"
    using threads_rel_grows [OF rel(13) moves_keep(2) [OF mv assms(1)]] .
  have node: "hard_rel n (persistent (nd\<lparr>log := l\<rparr>)) ?b \<and> soft_rel M n (nd\<lparr>log := l\<rparr>) ?b"
    if "plain l" "alog_of (entries l) = adopt_prefix (lg a n) (ll a t) k" for l
    using that rel(6,8,12,21) thr assms(6)
    by (simp add: hard_rel_def persistent_def soft_rel_def aupdates plain_def)
  from store_log [OF assms(1) pl rel(7) assms(3) t_def [THEN meta_eq_to_obj_eq, symmetric] assms(5), of k "dSave D"]
  consider (same) "store_entries (dSave D) (Entries args) nd = Ok nd"
      "lg a n = adopt_prefix (lg a n) (ll a t) k"
    | (new) l where "store_entries (dSave D) (Entries args) nd = persist (dSave D) (nd\<lparr>log := l\<rparr>)"
      "plain l" "alog_of (entries l) = adopt_prefix (lg a n) (ll a t) k"
    by (auto simp: k_def)
  then show ?thesis
  proof cases
    case same
    have "nd\<lparr>log := log nd\<rparr> = nd" by simp
    then have "node_rel n nd ?b"
      using node [OF pl] same(2) rel(7,16-18) by (simp add: node_rel_def)
    then show ?thesis using mv post assms(6) unfolding same(1) by (intro sim_Ok) auto
  next
    case (new l)
    show ?thesis
      unfolding new(1)
      by (rule persist_node_sim [OF assms(2) _ mv])
        (use node [OF new(2,3)] post rel(18) assms(6) in \<open>simp_all add: static_rel_def\<close>)
  qed
qed

lemma learn_sim:
  assumes "safe a" "append_req m args a" "node_rel n nd a" "role nd = Follower"
    and "currentTerm nd = aeTerm args"
  defines "k \<equiv> unat (PrevLogIndex args) + length (Entries args)"
  defines "commit \<equiv> min (LeaderCommit args) (PrevLogIndex args + of_nat (length (Entries args)))"
  assumes "k \<le> length (lg a n)" "take k (lg a n) = take k (ll a (unat (aeTerm args)))"
    and "k \<le> ak a (unat (aeTerm args)) n" "commitIndex nd < commit"
  obtains b where "moves n a b" "node_rel n (nd\<lparr>commitIndex := commit\<rparr>) b"
    "k \<le> ak b (unat (aeTerm args)) n"
proof -
  note rel = node_relD [OF assms(3)]
  let ?t = "unat (aeTerm args)"
  let ?b = "a\<lparr>ci := (ci a)(n := unat commit)\<rparr>"
  have req: "ld a ?t \<noteq> None" "unat (LeaderCommit args) \<le> lc a ?t" "int k < max_int"
    using assms(2) by (auto simp: append_req_def Let_def k_def)
  then have "unat (PrevLogIndex args + of_nat (length (Entries args))) = k"
    unfolding k_def by (intro unat_plus_of_nat) linarith
  then have c: "unat commit \<le> k" "unat commit \<le> lc a ?t"
    using req(2) by (auto simp: commit_def min_def word_le_nat_alt)
  have "take (unat commit) (lg a n) = take (unat commit) (ll a ?t)"
    using arg_cong [OF assms(9), of "take (unat commit)"] c(1) by (simp add: min_def)
  then have "moves n a ?b"
    using rel(6,11,12) req(1) c assms(4,5,8,11) by (intro move_learn) (simp_all add: word_less_nat_alt)
  moreover have "node_rel n (nd\<lparr>commitIndex := commit\<rparr>) ?b"
    using assms(3,4) rel(13) order_trans [OF rel(21) less_imp_le [OF assms(11)]]
    by (simp add: node_rel_def static_rel_def persistent_def hard_rel_def soft_rel_def
        threads_rel_def vote_req_def)
  ultimately show thesis using that assms(10) by simp
qed

lemma finish_sim:
  assumes "safe a" "append_req m args a" "node_rel n nd a" "role nd = Follower"
    and "currentTerm nd = aeTerm args"
  defines "k \<equiv> unat (PrevLogIndex args) + length (Entries args)"
  defines "commit \<equiv> min (LeaderCommit args) (PrevLogIndex args + of_nat (length (Entries args)))"
  assumes "k \<le> length (lg a n)" "take k (lg a n) = take k (ll a (unat (aeTerm args)))"
    and "k \<le> ak a (unat (aeTerm args)) n"
  shows "sim n a (\<lambda>(nd', r) b. node_rel n nd' b \<and> (\<forall>reply. r = Inr reply \<and> Success reply \<longrightarrow>
              k \<le> ak b (unat (aeTerm args)) n))
    (Ok ((if commitIndex nd < commit then nd\<lparr>commitIndex := commit\<rparr> else nd), Inr reply))"
proof (cases "commitIndex nd < commit")
  case True
  obtain b where "moves n a b" "node_rel n (nd\<lparr>commitIndex := commit\<rparr>) b"
    "k \<le> ak b (unat (aeTerm args)) n"
    using learn_sim [OF assms(1-5) assms(8-10)[unfolded k_def] True [unfolded commit_def]]
    by (metis k_def commit_def)
  then show ?thesis using True by (intro sim_Ok [of _ _ b]) auto
next
  case False
  then show ?thesis using assms(3,10) by (intro sim_here) auto
qed

lemma HandleAppendEntries_sim:
  assumes "safe a" "node_rel n nd a" "append_req m args a"
  shows "sim n a (\<lambda>(nd', r) b. node_rel n nd' b \<and>
           (\<forall>reply. r = Inr reply \<and> Success reply \<longrightarrow>
              unat (PrevLogIndex args) + length (Entries args) \<le> ak b (unat (aeTerm args)) n))
         (HandleAppendEntries (dSave D) ev args nd)" (is "sim n a ?Q _")
proof (cases "stopped nd")
  case True
  then show ?thesis using assms(2) by (simp add: HandleAppendEntries_def sim_here)
next
  case False
  let ?k = "unat (PrevLogIndex args) + length (Entries args)"
  let ?commit = "min (LeaderCommit args) (PrevLogIndex args + of_nat (length (Entries args)))"
  let ?fin = "\<lambda>t nd'. Ok ((if commitIndex nd' < ?commit then nd'\<lparr>commitIndex := ?commit\<rparr> else nd'),
     Inr \<lparr>aerTerm = t, Success = True\<rparr>) ::
     ('s Node \<times> (node_error + AppendEntriesReply), 's Node) outcome"
  let ?body = "\<lambda>t nd'. within nd' (matches (log nd') (PrevLogIndex args) (PrevLogTerm args))
     (\<lambda>ok. if \<not> ok then Ok (nd', Inr \<lparr>aerTerm = t, Success = False\<rparr>)
     else andThen (store_entries (dSave D) (Entries args) nd') (?fin t))"
  let ?rest = "\<lambda>nd'. if aeTerm args < currentTerm nd'
     then Ok (nd', Inr \<lparr>aerTerm = currentTerm nd', Success = False\<rparr>)
     else andThen (if role nd' \<noteq> Follower then becomeFollower (dSave D) ev (aeTerm args) nd' else Ok nd')
       (\<lambda>nd''. andThen (resetElectionTimer ev (nd''\<lparr>leaderID := LeaderID args\<rparr>)) (?body (currentTerm nd')))"
  have body: "sim n b ?Q (?body t nd')"
    if "safe b" "append_req m args b" "node_rel n nd' b" "role nd' = Follower"
      "currentTerm nd' = aeTerm args" for b nd' t
  proof (cases "agrees (log nd') (PrevLogIndex args) (PrevLogTerm args)")
    case True
    have "sim n b ?Q (andThen (store_entries (dSave D) (Entries args) nd') (?fin t))"
    proof (rule sim_andThen [OF that(1) store_sim [OF that(1,3,2) that(5) [symmetric] True that(4)]])
      fix nd2 c
      assume c: "moves n b c" "safe c" and Q: "node_rel n nd2 c \<and> role nd2 = Follower \<and>
        currentTerm nd2 = currentTerm nd' \<and> ?k \<le> length (lg c n) \<and>
        take ?k (lg c n) = take ?k (ll c (unat (aeTerm args))) \<and> ?k \<le> ak c (unat (aeTerm args)) n"
      have "append_req m args c" using append_req_grows that(2) moves_keep(2) [OF c(1) that(1)] by blast
      then show "sim n c ?Q (?fin t nd2)" using Q that(5) by (intro finish_sim [OF c(2)]) simp_all
    qed
    then show ?thesis using True node_reads(5) [OF that(3)] by simp
  qed (use that(3) node_reads(5) [OF that(3)] in \<open>auto intro!: sim_here\<close>)
  have rest: "sim n b ?Q (?rest nd')"
    if "safe b" "append_req m args b" "node_rel n nd' b" "aeTerm args \<le> currentTerm nd'" for b nd'
  proof (cases "aeTerm args < currentTerm nd'")
    case False
    then have t: "currentTerm nd' = aeTerm args" using that(4) by simp
    have "sim n b (\<lambda>nd'' c. node_rel n nd'' c \<and> role nd'' = Follower \<and> currentTerm nd'' = aeTerm args)
      (if role nd' \<noteq> Follower then becomeFollower (dSave D) ev (aeTerm args) nd' else Ok nd')"
      using sim_weaken [OF becomeFollower_sim [OF that(1,3), of "aeTerm args" ev]] that(3) t
      by (auto intro!: sim_here)
    then have "sim n b ?Q (andThen
      (if role nd' \<noteq> Follower then becomeFollower (dSave D) ev (aeTerm args) nd' else Ok nd')
      (\<lambda>nd''. andThen (resetElectionTimer ev (nd''\<lparr>leaderID := LeaderID args\<rparr>)) (?body (currentTerm nd'))))"
    proof (rule sim_andThen [OF that(1)])
      fix nd2 c
      assume c: "moves n b c" "safe c"
        and Q: "node_rel n nd2 c \<and> role nd2 = Follower \<and> currentTerm nd2 = aeTerm args"
      have "append_req m args c" using append_req_grows that(2) moves_keep(2) [OF c(1) that(1)] by blast
      then show "sim n c ?Q (andThen (resetElectionTimer ev (nd2\<lparr>leaderID := LeaderID args\<rparr>))
          (?body (currentTerm nd')))"
        using Q by (intro timer_then body [OF c(2)]) simp_all
    qed
    then show ?thesis using False by simp
  qed (use that(3) in \<open>auto intro!: sim_here\<close>)
  have "sim n a ?Q (andThen (observeTerm (dSave D) ev (aeTerm args) nd) (\<lambda>(nd', _). ?rest nd'))"
  proof (rule observeTerm_then [OF assms(1,2)])
    fix nd' s b
    assume "moves n a b" "safe b" "node_rel n nd' b" and t: "if aeTerm args \<le> currentTerm nd
      then nd' = nd \<and> \<not> s else s \<and> role nd' = Follower \<and> currentTerm nd' = aeTerm args"
    moreover from this have "append_req m args b"
      using append_req_grows [OF assms(3)] moves_keep(2) assms(1) by blast
    ultimately show "sim n b ?Q (case (nd', s) of (nd', _) \<Rightarrow> ?rest nd')"
      using rest [of b nd'] by (auto split: if_splits)
  qed
  then show ?thesis using False by (simp add: HandleAppendEntries_def Let_def cong: if_cong)
qed

subsection \<open>Proposals, life cycle, delivery\<close>

lemma Propose_sim:
  assumes "safe a" "node_rel n nd a" "node_bounded nd"
  shows "sim n a (\<lambda>(nd', r). node_rel n nd') (Propose (dSave D) cmd nd)" (is "sim n a ?Q _")
proof (cases "stopped nd \<or> role nd \<noteq> Leader \<or> cmd = []")
  case True
  then show ?thesis using assms(2) by (auto simp: Propose_def intro!: sim_here)
next
  case False
  note rel = node_relD [OF assms(2)] and pl = node_plain [OF assms(2)]
  let ?t = "unat (currentTerm nd)"
  let ?e = "\<lparr>Index = end_index (log nd) + 1, Term = currentTerm nd, Command = cmd\<rparr>"
  let ?nd = "nd\<lparr>log := append_entries (log nd) [?e]\<rparr>"
  let ?b = "set_leader_log a ?t n (lg a n @ [(?t, cmd)])"
  have full: "int (length (entries (log nd))) < max_int" using assms(3) by (simp add: node_bounded_def)
  note app = plain_append_one [OF pl full, of ?e, simplified]
  have mv: "moves n a ?b" using False rel(6,11) by (intro move_append) auto
  have hard: "hard_rel n (persistent ?nd) ?b"
    using rel(19) app by (simp add: hard_rel_def persistent_def aupdates plain_def aentry_def)
  have lr: "leader_rel M n nd a" using rel(14) False by simp
  have "leader_rel M n ?nd ?b"
    unfolding leader_rel_def
  proof (intro conjI ballI)
    show "length (entries (log ?nd)) \<le> Suc (ak ?b (unat (currentTerm ?nd)) n)"
      using plain_length [OF app(1)] rel(7) app(2) by (simp add: aupdates)
    fix p assume p: "p \<in> M - {n}"
    then show "0 < map_get (nextIndex ?nd) p" "unat (map_get (nextIndex ?nd) p) \<le> length (entries (log ?nd))"
      "unat (map_get (matchIndex ?nd) p) \<le> ak ?b (unat (currentTerm ?nd)) p"
      using lr by (simp_all add: leader_rel_def append_entries_def aupdates le_SucI)
  qed
  then have soft: "soft_rel M n ?nd ?b"
    using rel(11,12,21) False threads_rel_grows [OF rel(13) moves_keep(2) [OF mv assms(1)]]
    by (simp add: soft_rel_def aupdates)
  have "sim n a (\<lambda>nd' b. node_rel n nd' b \<and> role nd' = Leader) (persist (dSave D) ?nd)"
    by (rule persist_node_sim [OF assms(2) _ mv _ hard _ soft])
      (use rel(18) False in \<open>simp_all add: static_rel_def\<close>)
  then have "sim n a ?Q (andThen (persist (dSave D) ?nd) (\<lambda>nd'. andThen (advanceCommitIndex nd')
      (\<lambda>nd'. Ok (kick nd', Inr (end_index (log nd) + 1, currentTerm (kick nd'))))))"
  proof (rule sim_andThen [OF assms(1)])
    fix nd' b assume nd': "safe b" "node_rel n nd' b \<and> role nd' = Leader"
    then have "\<exists>c. moves n b c \<and> node_rel n (advance_commit nd') c"
      by (intro advance_sim) auto
    then show "sim n b ?Q (andThen (advanceCommitIndex nd')
        (\<lambda>nd'. Ok (kick nd', Inr (end_index (log nd) + 1, currentTerm (kick nd')))))"
      using node_reads(6) [OF conjunct1 [OF nd'(2)]] by (auto simp: kick_def intro!: sim_Ok)
  qed
  then show ?thesis using False by (simp add: Propose_def node_reads(1) [OF assms(2)] Let_def)
qed

lemma Start_sim: "safe a \<Longrightarrow> node_rel n nd a \<Longrightarrow> sim n a (node_rel n) (Start ev nd)"
  unfolding Start_def by (auto intro!: timer_then sim_here)

lemma Stop_rel: "node_rel n nd a \<Longrightarrow> node_rel n (Stop nd) a"
  by (simp add: Stop_def)

lemma leaderLoop_rel:
  assumes "node_rel n nd a"
  shows "node_rel n (fst (leaderLoop t nd)) a"
proof (cases "stopped nd \<or> role nd \<noteq> Leader \<or> currentTerm nd \<noteq> t")
  case False
  have "threads_rel M n (threads nd @ map (\<lambda>p. ReplicateTo p t) (peers nd)) a"
    using node_relD(4,13) [OF assms] by (auto simp: threads_rel_def)
  then show ?thesis
    using node_rel_threads [OF assms] False by (simp add: leaderLoop_def fold_spawn)
qed (use assms in \<open>auto simp: leaderLoop_def\<close>)

lemma subset_rv_peers: "set (rv_peers t (remove1 x ts)) \<subseteq> set (rv_peers t ts)"
  using set_remove1_subset [of x ts] by (auto simp: set_rv_peers)

lemma distinct_rv_peers: "distinct (rv_peers t ts) \<Longrightarrow> distinct (rv_peers t (remove1 x ts))"
proof (induction t ts rule: rv_peers.induct)
  case (2 t p args ts)
  then show ?case using subset_rv_peers [of t x ts] by (auto split: if_splits)
qed simp_all

lemma gone_rv_peers:
  assumes "rvTerm args = t"
  shows "distinct (rv_peers t ts) \<Longrightarrow> RequestVoteTo p args \<in> set ts \<Longrightarrow>
    p \<notin> set (rv_peers t (remove1 (RequestVoteTo p args) ts))"
proof (induction ts)
  case (Cons x ts)
  show ?case
  proof (cases "x = RequestVoteTo p args")
    case True
    then show ?thesis using Cons.prems assms by simp
  next
    case False
    then have mem: "RequestVoteTo p args \<in> set ts" using Cons.prems by auto
    then have "p \<in> set (rv_peers t ts)" using assms by (auto simp: set_rv_peers)
    then show ?thesis using Cons mem False by (cases x) (auto split: if_splits)
  qed
qed simp

lemma remove_thread_rel:
  assumes "node_rel n nd a"
  shows "node_rel n (nd\<lparr>threads := remove1 x (threads nd)\<rparr>) a"
proof (rule node_rel_threads [OF assms])
  show "threads_rel M n (remove1 x (threads nd)) a"
    using node_relD(13) [OF assms] set_remove1_subset [of x "threads nd"]
    unfolding threads_rel_def by blast
  assume "role nd = Candidate"
  then obtain C where "C \<subseteq> M - {n}" "votes nd (currentTerm nd) = Suc (card C)"
     "\<forall>p\<in>C. vt a (unat (currentTerm nd)) p = Some n"
     "distinct (rv_peers (currentTerm nd) (threads nd))"
     "C \<inter> set (rv_peers (currentTerm nd) (threads nd)) = {}"
    using node_relD(15) [OF assms] by (auto simp: votes_rel_def)
  then show "votes_rel M n (nd\<lparr>threads := remove1 x (threads nd)\<rparr>) a"
    unfolding votes_rel_def
    using subset_rv_peers [of "currentTerm nd" x "threads nd"]
    by (intro exI [of _ C]) (auto simp: distinct_rv_peers)
qed

text \<open>A goroutine that holds a granted vote counts it: the voter was not counted before.\<close>

lemma count_vote_rel:
  assumes "node_rel n nd a" "RequestVoteTo peer args \<in> set (threads nd)"
    and "role nd = Candidate" "rvTerm args = currentTerm nd"
    and "vt a (unat (rvTerm args)) peer = Some n"
  defines "nd' \<equiv> nd\<lparr>threads := remove1 (RequestVoteTo peer args) (threads nd)\<rparr>"
  shows "votes_rel M n (nd'\<lparr>votes := (votes nd')(rvTerm args := votes nd' (rvTerm args) + 1)\<rparr>) a"
proof -
  let ?t = "currentTerm nd" and ?x = "RequestVoteTo peer args"
  obtain C where C: "C \<subseteq> M - {n}" "votes nd ?t = Suc (card C)" "\<forall>p\<in>C. vt a (unat ?t) p = Some n"
     "distinct (rv_peers ?t (threads nd))" "C \<inter> set (rv_peers ?t (threads nd)) = {}"
    using node_relD(15) [OF assms(1,3)] by (auto simp: votes_rel_def)
  have "peer \<in> set (rv_peers ?t (threads nd))" using assms(2,4) by (auto simp: set_rv_peers)
  then have new: "peer \<notin> C" using C(5) by blast
  have gone: "peer \<notin> set (rv_peers ?t (remove1 ?x (threads nd)))"
    using gone_rv_peers [OF assms(4)] C(4) assms(2) by blast
  have "peer \<in> M - {n}" using node_relD(13) [OF assms(1)] assms(2) by (auto simp: threads_rel_def)
  moreover have "card (insert peer C) = Suc (card C)"
    using new finite_subset [OF C(1)] by simp
  ultimately show ?thesis
    unfolding votes_rel_def nd'_def
    using C gone assms(4,5) subset_rv_peers [of ?t ?x "threads nd"]
    by (intro exI [of _ "insert peer C"]) (auto simp: distinct_rv_peers)
qed

lemma validate_peers_ok:
  "validate_peers seen ps = Inr r \<Longrightarrow>
     distinct ps \<and> set ps \<inter> set seen = {} \<and> [] \<notin> set ps \<and> set r = set ps \<union> set seen"
  by (induction seen ps rule: validate_peers.induct) (auto split: if_splits)

lemma New_rel:
  assumes "n \<in> M" "down_rel n s a" "New (dLoad D) ev (boot_config D n s) = Ok (Inr nd)"
  shows "node_rel n nd a" "stopped nd = False" "threads nd = []" "lastApplied nd = 0"
proof -
  let ?c = "withDefaults (boot_config D n s)"
  have c: "cfgID ?c = n" "set (Peers ?c) = M" "Storage ?c = Some s"
    using assms(1) conf_id conf_peers by (simp_all add: withDefaults_def boot_config_def)
  have v: "validate ?c = None"
    using assms(3) by (auto simp: New_def Let_def split: option.splits)
  then obtain seen where seen: "validate_peers [] (Peers ?c) = Inr seen"
    by (auto simp: validate_def split: if_splits sum.splits)
  note peers = validate_peers_ok [OF seen]
  have t: "ElectionTimeoutMin ?c < ElectionTimeoutMax ?c" "n \<noteq> []"
    using v c(1) seen by (auto simp: validate_def split: if_splits)
  obtain s' ps e where ld: "dLoad D s = (s', ps, e)" by (metis prod_cases3)
  have e: "e = None" using assms(3) v ld c(3) by (auto simp: New_def Let_def split: option.splits)
  have inv: "sinv s" "sinv s'" "ps = content s" "content s' = content s"
    using assms(2) ld e load_inv [of s] load_ok [of s s' ps] load_keeps [of s]
    by (auto simp: down_rel_def)
  let ?n0 = "\<lparr>id = n, peers = filter (\<lambda>p. p \<noteq> n) (Peers ?c), cfg = ?c, storage = s',
     currentTerm = CurrentTerm (stored s), votedFor = VotedFor (stored s),
     log = \<lparr>entries = SavedEntries (stored s)\<rparr>, commitIndex = 0, lastApplied = 0,
     nextIndex = Map.empty, matchIndex = Map.empty, role = Follower, leaderID = [],
     electionDeadline = 0, kickCh = None, started = False, stopped = False,
     votes = (\<lambda>_. 0), threads = []\<rparr>"
  have "\<exists>d. nd = ?n0\<lparr>electionDeadline := d\<rparr>"
    using assms(3) v ld e c inv(3)
    by (auto simp: New_def Let_def restoreState_def resetElectionTimer_def stored_def restored_def
        newRaftLog_def within_eq_Ok split: if_splits option.splits sum.splits)
  then obtain d where nd: "nd = ?n0\<lparr>electionDeadline := d\<rparr>" by blast
  have "stored s' = persistent ?n0"
    using inv(4) by (simp add: stored_def persistent_def)
  then show "node_rel n nd a"
    unfolding nd node_rel_ignores
    using assms(1,2) peers c t inv
    by (auto simp: node_rel_def static_rel_def soft_rel_def threads_rel_def down_rel_def persistent_def
        hard_rel_def)
  show "stopped nd = False" "threads nd = []" "lastApplied nd = 0" using nd by simp_all
qed

end

end
