(* ===== verification/Raft_Node_Props.thy ===== *)
theory Raft_Node_Props
  imports Raft_Node
begin

text \<open>
  What each critical section of a node does to that node alone: the counters never go
  back, a vote cast in a term stays, and the results of the handlers on each branch.
\<close>

section \<open>Nothing goes back\<close>

definition forward :: "'s Node \<Rightarrow> 's Node \<Rightarrow> bool" where
  "forward nd nd' \<longleftrightarrow>
     id nd' = id nd \<and> peers nd' = peers nd \<and> cfg nd' = cfg nd \<and>
     currentTerm nd \<le> currentTerm nd' \<and> commitIndex nd \<le> commitIndex nd' \<and>
     lastApplied nd' = lastApplied nd \<and> (stopped nd \<longrightarrow> stopped nd') \<and>
     (currentTerm nd' = currentTerm nd \<and> votedFor nd \<noteq> [] \<longrightarrow> votedFor nd' = votedFor nd)"

lemma forward_refl [simp]: "forward nd nd"
  by (simp add: forward_def)

lemma forward_trans: "forward a b \<Longrightarrow> forward b c \<Longrightarrow> forward a c"
  by (auto simp: forward_def)

lemma forward_ignores [simp]:
  "forward nd (x\<lparr>electionDeadline := d\<rparr>) = forward nd x"
  "forward nd (x\<lparr>leaderID := l\<rparr>) = forward nd x"
  "forward nd (x\<lparr>kickCh := k\<rparr>) = forward nd x"
  "forward nd (x\<lparr>role := r\<rparr>) = forward nd x"
  "forward nd (x\<lparr>log := lg\<rparr>) = forward nd x"
  "forward nd (x\<lparr>storage := s\<rparr>) = forward nd x"
  "forward nd (x\<lparr>threads := t\<rparr>) = forward nd x"
  "forward nd (x\<lparr>votes := v\<rparr>) = forward nd x"
  "forward nd (x\<lparr>nextIndex := m\<rparr>) = forward nd x"
  "forward nd (x\<lparr>matchIndex := m\<rparr>) = forward nd x"
  "forward nd (x\<lparr>started := b\<rparr>) = forward nd x"
  "forward nd x \<Longrightarrow> forward nd (x\<lparr>stopped := True\<rparr>)"
  by (simp_all add: forward_def)

lemma persist_forward [simp]: "on_Ok P (persist sv nd) = (case sv (persistent nd) (storage nd) of
    (s, None) \<Rightarrow> P (nd\<lparr>storage := s\<rparr>) | _ \<Rightarrow> True)"
  by (auto simp: persist_def split: prod.split option.split)

lemma forward_timer: "forward nd x \<Longrightarrow> on_Ok (forward nd) (resetElectionTimer ev x)"
  by (simp add: resetElectionTimer_def Let_def)

lemma forward_spawn [simp]: "forward nd (spawn t x) = forward nd x"
  by (simp add: spawn_def)

lemma forward_fold_spawn [simp]: "forward nd (fold (\<lambda>p. spawn (f p)) ps x) = forward nd x"
  by (induction ps arbitrary: x) simp_all

lemmas on_Ok_reads =
  on_Ok_any [where r = "lastIndex l" for l] on_Ok_any [where r = "lastTerm l" for l]
  on_Ok_any [where r = "isUpToDate l t i" for l t i] on_Ok_any [where r = "matches l i t" for l t i]
  on_Ok_any [where r = "truncateFrom l i" for l i]

text \<open>The search for the commit index moves the commit index up, and nothing else.\<close>

lemma advance_loop_moves:
  "on_Ok (\<lambda>x. \<exists>j. commitIndex nd \<le> j \<and> x = nd\<lparr>commitIndex := j\<rparr>) (advance_loop nd i)"
proof (induction nd i rule: advance_loop.induct)
  case (1 nd i)
  have here: "\<exists>j. commitIndex nd \<le> j \<and> nd = nd\<lparr>commitIndex := j\<rparr>" by (intro exI [of _ "commitIndex nd"]) simp
  show ?case
  proof (cases "commitIndex nd < i")
    case True
    show ?thesis
    proof (cases "term_at (log nd) i")
      case (Ok r)
      obtain t ok where r: "r = (t, ok)" by (cases r)
      have "\<exists>j. commitIndex nd \<le> j \<and> nd\<lparr>commitIndex := i\<rparr> = nd\<lparr>commitIndex := j\<rparr>" using True less_imp_le by blast
      then show ?thesis
        using 1 [OF True Ok r [symmetric]] True Ok r here by (subst advance_loop.simps) auto
    qed (subst advance_loop.simps, simp add: True)
  qed (subst advance_loop.simps, use here in simp)
qed

lemma advance_moves:
  "on_Ok (\<lambda>x. \<exists>j. commitIndex nd \<le> j \<and> x = nd\<lparr>commitIndex := j\<rparr>) (advanceCommitIndex nd)"
  by (auto simp: advanceCommitIndex_def intro!: on_Ok_reads advance_loop_moves)

lemma forward_advance: "forward nd x \<Longrightarrow> on_Ok (forward nd) (advanceCommitIndex x)"
  by (rule on_Ok_mono [OF advance_moves]) (auto simp: forward_def)

lemma forward_becomeFollower: "on_Ok (forward nd) (becomeFollower sv ev t nd)"
proof -
  have "forward nd (nd\<lparr>currentTerm := t, votedFor := [], leaderID := []\<rparr>)" if "currentTerm nd < t"
    using that by (auto simp: forward_def)
  then show ?thesis
    unfolding becomeFollower_def Let_def
    by (auto split: prod.split option.split intro: forward_timer)
qed

lemma forward_observeTerm: "on_Ok (\<lambda>(x, b). forward nd x \<and> (\<not> b \<longrightarrow> x = nd)) (observeTerm sv ev t nd)"
  using forward_becomeFollower [of nd sv ev t] by (auto simp: observeTerm_def)

lemma forward_becomeLeader: "forward nd x \<Longrightarrow> on_Ok (forward nd) (becomeLeader sv x)"
  unfolding becomeLeader_def Let_def
  by (auto split: prod.split option.split intro!: on_Ok_reads on_Ok_mono [OF forward_advance])

lemma forward_startElection:
  assumes "unat (currentTerm nd) < max_u64"
  shows "on_Ok (forward nd) (startElection sv ev nd)"
proof -
  let ?x = "nd\<lparr>role := Candidate, currentTerm := currentTerm nd + 1, votedFor := id nd, leaderID := []\<rparr>"
  have "unat (currentTerm nd + 1) = Suc (unat (currentTerm nd))" using assms by simp
  then have "forward nd ?x" by (auto simp: forward_def u64_nat)
  then have "on_Ok (forward nd) (becomeCandidate sv ev nd)"
    unfolding becomeCandidate_def by (auto split: prod.split option.split intro!: forward_timer)
  then show ?thesis
    unfolding startElection_def Let_def
    by (auto elim!: on_Ok_mono intro: forward_becomeLeader on_Ok_reads)
qed

lemma forward_ticker:
  "unat (currentTerm nd) < max_u64 \<Longrightarrow> on_Ok (forward nd) (ticker sv ev nd)"
  by (simp add: ticker_def forward_startElection)

lemma forward_requestVote: "on_Ok (forward nd) (requestVote sv ev args reply nd)"
  unfolding requestVote_def Let_def
  by (auto intro!: on_Ok_mono [OF forward_observeTerm] forward_becomeLeader)

lemma forward_HandleRequestVote: "on_Ok (\<lambda>(x, r). forward nd x) (HandleRequestVote sv ev args nd)"
proof -
  have vote: "on_Ok (\<lambda>(y, r). forward nd y)
    (andThen (persist sv (x\<lparr>votedFor := CandidateID args\<rparr>))
      (\<lambda>n. andThen (resetElectionTimer ev n)
      (\<lambda>n. Ok (n, Inr reply :: node_error + RequestVoteReply))))"
    if "forward nd x" "votedFor x = [] \<or> votedFor x = CandidateID args" for x reply
  proof -
    have "forward nd (x\<lparr>votedFor := CandidateID args\<rparr>)"
      using that forward_trans [OF that(1), of "x\<lparr>votedFor := CandidateID args\<rparr>"] by (auto simp: forward_def)
    then show ?thesis
      by (auto split: prod.split option.split intro!: on_Ok_mono [OF forward_timer])
  qed
  have rest: "on_Ok (\<lambda>(y, r). forward nd y) (if rvTerm args < currentTerm x
      then Ok (x, Inr reply :: node_error + RequestVoteReply)
      else if \<not> (votedFor x = [] \<or> votedFor x = CandidateID args) then Ok (x, Inr reply)
      else within x (isUpToDate (log x) (LastLogTerm args) (LastLogIndex args))
        (\<lambda>upToDate. if upToDate
           then andThen (persist sv (x\<lparr>votedFor := CandidateID args\<rparr>))
                  (\<lambda>n. andThen (resetElectionTimer ev n) (\<lambda>n. Ok (n, Inr (reply\<lparr>VoteGranted := True\<rparr>))))
           else Ok (x, Inr reply)))" if "forward nd x" for x reply
    using that by (auto intro!: vote on_Ok_reads simp del: on_Ok_simps(3))
  show ?thesis
    unfolding HandleRequestVote_def Let_def
    by (cases "stopped nd")
      (auto intro!: on_Ok_andThenI [OF forward_observeTerm] rest simp del: on_Ok_simps(3) split del: if_split)
qed

lemma forward_replicateTo_reply:
  "on_Ok (forward nd) (replicateTo_reply sv ev peer t args reply nd)"
  unfolding replicateTo_reply_def Let_def
  by (auto intro!: on_Ok_mono [OF forward_observeTerm] forward_advance)

lemma forward_store_entries: "forward nd x \<Longrightarrow> on_Ok (forward nd) (store_entries sv es x)"
proof (induction sv es x rule: store_entries.induct)
  case (2 sv e es x)
  show ?case
  proof (cases "term_at (log x) (Index e)")
    case (Ok r)
    obtain t ok where "r = (t, ok)" by (cases r)
    with Ok 2 show ?thesis by (auto intro!: on_Ok_reads split: prod.split option.split)
  qed simp
qed simp

lemma forward_HandleAppendEntries:
  "on_Ok (\<lambda>(x, r). forward nd x) (HandleAppendEntries sv ev args nd)"
proof -
  have commit: "forward nd (if commitIndex x < i then x\<lparr>commitIndex := i\<rparr> else x)" if "forward nd x" for x i
    using that by (auto simp: forward_def)
  have down: "on_Ok (forward nd) (if role x \<noteq> Follower then becomeFollower sv ev (aeTerm args) x else Ok x)"
    if "forward nd x" for x
    using that by (auto intro: on_Ok_mono [OF forward_becomeFollower] forward_trans)
  let ?commit = "min (LeaderCommit args) (PrevLogIndex args + of_nat (length (Entries args)))"
  have body: "on_Ok (\<lambda>(y, r). forward nd y) (within x (matches (log x) (PrevLogIndex args) (PrevLogTerm args))
      (\<lambda>ok. if \<not> ok then Ok (x, Inr reply :: node_error + AppendEntriesReply)
      else andThen (store_entries sv (Entries args) x)
        (\<lambda>n. Ok ((if ?commit > commitIndex n then n\<lparr>commitIndex := ?commit\<rparr> else n),
                 Inr (reply\<lparr>Success := True\<rparr>)))))" if "forward nd x" for x reply
  proof -
    have "on_Ok (\<lambda>(y, r). forward nd y) (andThen (store_entries sv (Entries args) x)
        (\<lambda>n. Ok ((if ?commit > commitIndex n then n\<lparr>commitIndex := ?commit\<rparr> else n),
                 Inr (reply\<lparr>Success := True\<rparr>) :: node_error + AppendEntriesReply)))"
      by (rule on_Ok_andThenI [OF forward_store_entries [OF that]])
        (simp only: on_Ok_simps split_conv commit)
    with that show ?thesis by (auto intro!: on_Ok_reads simp del: on_Ok_simps(3))
  qed
  have rest: "on_Ok (\<lambda>(y, r). forward nd y) (if aeTerm args < currentTerm x
      then Ok (x, Inr reply :: node_error + AppendEntriesReply)
      else andThen (if role x \<noteq> Follower then becomeFollower sv ev (aeTerm args) x else Ok x)
        (\<lambda>n. andThen (resetElectionTimer ev (n\<lparr>leaderID := LeaderID args\<rparr>))
        (\<lambda>n. within n (matches (log n) (PrevLogIndex args) (PrevLogTerm args))
        (\<lambda>ok. if \<not> ok then Ok (n, Inr reply)
             else andThen (store_entries sv (Entries args) n)
               (\<lambda>n. Ok ((if ?commit > commitIndex n then n\<lparr>commitIndex := ?commit\<rparr> else n),
                        Inr (reply\<lparr>Success := True\<rparr>)))))))" (is "on_Ok _ (if _ then _ else ?r)")
    if "forward nd x" for x reply
  proof -
    have "on_Ok (\<lambda>(y, r). forward nd y) ?r"
      by (rule on_Ok_andThenI [OF down [OF that]], rule on_Ok_andThenI [OF forward_timer]) (simp, rule body)
    then show ?thesis using that by (simp del: on_Ok_simps(3))
  qed
  show ?thesis
    unfolding HandleAppendEntries_def Let_def
    by (cases "stopped nd")
      (auto intro!: on_Ok_andThenI [OF forward_observeTerm] rest simp del: on_Ok_simps(3) split del: if_split)
qed

lemma forward_Propose: "on_Ok (\<lambda>(x, r). forward nd x) (Propose sv cmd nd)"
  unfolding Propose_def Let_def kick_def
  by (auto split: prod.split option.split intro!: on_Ok_reads on_Ok_mono [OF forward_advance])

lemma forward_Start: "on_Ok (forward nd) (Start ev nd)"
  unfolding Start_def by (auto intro!: on_Ok_mono [OF forward_timer])

lemma forward_leaderLoop: "forward nd (fst (leaderLoop t nd))"
  by (simp add: leaderLoop_def)

section \<open>Creating a node\<close>

text \<open>
  \<open>New\<close> never panics, whatever the configuration and whatever the storage returns: \<open>validate\<close>
  leaves a positive spread for the election timer, and \<open>restoreState\<close> a log that is not empty.
\<close>

lemma New_no_panic: "New ld ev c \<noteq> Panic e x"
proof (cases "validate (withDefaults c)")
  case None
  then have t: "ElectionTimeoutMin (withDefaults c) < ElectionTimeoutMax (withDefaults c)"
    by (auto simp: validate_def split: if_splits sum.splits)
  obtain s st er where ld: "ld (the (Storage (withDefaults c))) = (s, st, er)" by (metis prod_cases3)
  show ?thesis
  proof (cases er)
    case Load: None
    show ?thesis
      using None Load ld t
      by (auto simp: New_def Let_def restoreState_def newRaftLog_def resetElectionTimer_def log_ends)
  qed (use None ld in \<open>simp add: New_def Let_def\<close>)
qed (simp add: New_def Let_def)

end
