(* ===== verification/Raft_Safety.thy ===== *)
theory Raft_Safety
  imports Raft_Sim Raft_Node_Props
begin

text \<open>
  Whole clusters: every action of the cluster is matched by moves of the abstract
  protocol, so every reachable cluster is related to a safe abstract state. From the
  relation follow the guarantees of consensus for the code: one leader per term, log
  matching, committed entries in later leaders, and equal deliveries.
\<close>

section \<open>The relation on clusters\<close>

definition batch_rel :: "'s proc \<Rightarrow> astate \<Rightarrow> bool" where
  "batch_rel p a \<longleftrightarrow> (case applying p of
     None \<Rightarrow> True
   | Some (batch, rest) \<Rightarrow> batch \<noteq> [] \<and> set rest \<subseteq> set batch \<and>
       lastApplied (node p) \<le> Index (last batch) \<and>
       (\<forall>e\<in>set batch. Index e \<le> commitIndex (node p) \<and> (unat (Index e), aentry e) \<in> ap a))"

definition calls_rel :: "NodeID set \<Rightarrow> NodeID \<Rightarrow> 's proc \<Rightarrow> astate \<Rightarrow> bool" where
  "calls_rel M n p a \<longleftrightarrow> (\<forall>(peer, t, args) \<in> set (calls p).
     peer \<in> M - {n} \<and> aeTerm args = t \<and> append_req n args a)"

definition msgs_rel :: "NodeID set \<Rightarrow> 's cluster \<Rightarrow> astate \<Rightarrow> bool" where
  "msgs_rel M c a \<longleftrightarrow>
     (\<forall>(m, n, args) \<in> rvreq c. m \<noteq> [] \<and> vote_req m args a) \<and>
     (\<forall>(m, n, args, reply) \<in> rvrep c. VoteGranted reply \<longrightarrow> vt a (unat (rvTerm args)) n = Some m) \<and>
     (\<forall>(m, n, args) \<in> aereq c. append_req m args a) \<and>
     (\<forall>(m, n, args, reply) \<in> aerep c. Success reply \<longrightarrow>
        unat (PrevLogIndex args) + length (Entries args) \<le> ak a (unat (aeTerm args)) n) \<and>
     (\<forall>(n, msg) \<in> delivered c. (unat (amIndex msg), unat (amTerm msg), amCommand msg) \<in> ap a)"

lemma msgs_relD:
  assumes "msgs_rel M c a"
  shows "(m, n, vargs) \<in> rvreq c \<Longrightarrow> m \<noteq> []"
    and "(m, n, vargs) \<in> rvreq c \<Longrightarrow> vote_req m vargs a"
    and "(m, n, vargs, vrep) \<in> rvrep c \<Longrightarrow> VoteGranted vrep \<Longrightarrow> vt a (unat (rvTerm vargs)) n = Some m"
    and "(m, n, args) \<in> aereq c \<Longrightarrow> append_req m args a"
    and "(m, n, args, rep) \<in> aerep c \<Longrightarrow> Success rep \<Longrightarrow>
      unat (PrevLogIndex args) + length (Entries args) \<le> ak a (unat (aeTerm args)) n"
    and "(n, msg) \<in> delivered c \<Longrightarrow> (unat (amIndex msg), unat (amTerm msg), amCommand msg) \<in> ap a"
  using assms by (auto simp: msgs_rel_def)

context raft_deployment
begin

definition server_rel :: "NodeID \<Rightarrow> 's server \<Rightarrow> astate \<Rightarrow> bool" where
  "server_rel n v a \<longleftrightarrow> (case v of
     Running p \<Rightarrow> node_rel n (node p) a \<and> calls_rel M n p a \<and> batch_rel p a
   | Down s \<Rightarrow> down_rel n s a)"

definition cluster_rel :: "'s cluster \<Rightarrow> astate \<Rightarrow> bool" where
  "cluster_rel c a \<longleftrightarrow> (\<forall>n\<in>M. server_rel n (servers c n) a) \<and> msgs_rel M c a"

text \<open>\<open>leads a b\<close>: the abstract protocol can get from \<open>a\<close> to \<open>b\<close>.\<close>

definition leads :: "astate \<Rightarrow> astate \<Rightarrow> bool" where
  "leads = (astep (majority M))\<^sup>*\<^sup>*"

lemma leads_refl [simp, intro]: "leads a a"
  by (simp add: leads_def)

lemma leads_trans: "leads a b \<Longrightarrow> leads b c \<Longrightarrow> leads a c"
  by (simp add: leads_def)

lemma moves_leads: "moves n a b \<Longrightarrow> leads a b"
  unfolding moves_def leads_def
  by (rule rtranclp_mono [THEN predicate2D, of "step_of n"]) (auto simp: step_of_def)

subsection \<open>Frame\<close>

lemma msgs_rel_grows:
  assumes "msgs_rel M c a" "grows a b"
  shows "msgs_rel M c b"
proof -
  have "\<And>m n args rep. (m, n, args, rep) \<in> aerep c \<Longrightarrow> Success rep \<Longrightarrow>
      unat (PrevLogIndex args) + length (Entries args) \<le> ak b (unat (aeTerm args)) n"
    using msgs_relD(5) [OF assms(1)] growsD(4) [OF assms(2)] order_trans by blast
  then show ?thesis
    using assms(1) vote_req_grows [OF _ assms(2)] append_req_grows [OF _ assms(2)] growsD(6,7) [OF assms(2)]
    unfolding msgs_rel_def by (auto simp: split_def)
qed

lemma calls_rel_grows: "calls_rel M n p a \<Longrightarrow> grows a b \<Longrightarrow> calls_rel M n p b"
  using append_req_grows unfolding calls_rel_def by fast

lemma batch_rel_grows: "batch_rel p a \<Longrightarrow> grows a b \<Longrightarrow> batch_rel p b"
  unfolding batch_rel_def grows_def by (auto split: option.splits)

lemma leader_rel_grows:
  assumes "leader_rel M n nd a" "grows a b"
  shows "leader_rel M n nd b"
  unfolding leader_rel_def
proof (intro conjI ballI)
  note g = growsD(4) [OF assms(2)]
  show "length (entries (log nd)) \<le> Suc (ak b (unat (currentTerm nd)) n)"
    using assms(1) g [of "unat (currentTerm nd)" n] by (simp add: leader_rel_def)
  fix p assume "p \<in> M - {n}"
  then show "unat (map_get (matchIndex nd) p) \<le> ak b (unat (currentTerm nd)) p"
    "0 < map_get (nextIndex nd) p" "unat (map_get (nextIndex nd) p) \<le> length (entries (log nd))"
    using assms(1) order_trans [OF _ g [of "unat (currentTerm nd)" p]] by (simp_all add: leader_rel_def)
qed

lemma votes_rel_grows:
  assumes "votes_rel M n nd a" "grows a b"
  shows "votes_rel M n nd b"
proof -
  obtain C where "C \<subseteq> M - {n}" "votes nd (currentTerm nd) = Suc (card C)"
    "\<forall>p\<in>C. vt a (unat (currentTerm nd)) p = Some n"
    "distinct (rv_peers (currentTerm nd) (threads nd))"
    "C \<inter> set (rv_peers (currentTerm nd) (threads nd)) = {}"
    using assms(1) by (auto simp: votes_rel_def)
  then show ?thesis
    unfolding votes_rel_def by (intro exI [of _ C]) (simp add: growsD(6) [OF assms(2)])
qed

lemma hard_rel_other: "hard_rel m ps a \<Longrightarrow> same_at a b m \<Longrightarrow> hard_rel m ps b"
  by (simp add: hard_rel_def same_at_def)

lemma node_rel_other:
  assumes "node_rel m nd a" "grows a b" "same_at a b m"
  shows "node_rel m nd b"
proof -
  note rel = node_relD [OF assms(1)]
  have "votes_rel M m nd b" if "role nd = Candidate"
    using rel(15) [OF that] assms(2) by (rule votes_rel_grows)
  moreover have "leader_rel M m nd b" if "role nd = Leader"
    using rel(14) [OF that] assms(2) by (rule leader_rel_grows)
  moreover have "threads_rel M m (threads nd) b" using rel(13) assms(2) by (rule threads_rel_grows)
  ultimately show ?thesis
    using rel(16-19) rel(11,12,21) hard_rel_other [OF rel(19) assms(3)] assms(3)
    by (simp add: node_rel_def soft_rel_def same_at_def)
qed

lemma server_rel_other:
  assumes "server_rel m v a" "grows a b" "same_at a b m"
  shows "server_rel m v b"
  using assms node_rel_other calls_rel_grows batch_rel_grows hard_rel_other
  by (cases v) (auto simp: server_rel_def down_rel_def same_at_def)

lemma cluster_step:
  assumes "cluster_rel c a" "safe a" "moves n a b" "server_rel n v b" "msgs_rel M c' b"
    and "servers c' = (servers c)(n := v)"
  shows "\<exists>b. safe b \<and> leads a b \<and> cluster_rel c' b"
proof -
  note keep = moves_keep [OF assms(3,2)]
  have "server_rel m (servers c' m) b" if "m \<in> M" for m
  proof (cases "m = n")
    case False
    then show ?thesis
      using server_rel_other [OF _ keep(2) keep(3) [OF False]] assms(1,6) that by (simp add: cluster_rel_def)
  qed (use assms(4,6) in simp)
  then show ?thesis using keep(1) assms(5) moves_leads [OF assms(3)] by (auto simp: cluster_rel_def)
qed

lemma set_server_simps [simp]:
  "servers (set_server n v c) = (servers c)(n := v)"
  "rvreq (set_server n v c) = rvreq c" "rvrep (set_server n v c) = rvrep c"
  "aereq (set_server n v c) = aereq c" "aerep (set_server n v c) = aerep c"
  "delivered (set_server n v c) = delivered c"
  by (simp_all add: set_server_def)

lemma msgs_rel_set_server [simp]: "msgs_rel M (set_server n v c) a = msgs_rel M c a"
  by (simp add: msgs_rel_def)

lemma cluster_step_local:
  assumes "cluster_rel c a" "safe a" "moves n a b" "server_rel n v b"
  shows "\<exists>b. safe b \<and> leads a b \<and> cluster_rel (set_server n v c) b"
  using assms msgs_rel_grows [OF _ moves_keep(2) [OF assms(3,2)]]
  by (intro cluster_step [OF assms]) (auto simp: cluster_rel_def)

subsection \<open>Actions\<close>

lemma server_runningD:
  assumes "cluster_rel c a" "n \<in> M" "servers c n = Running p"
  shows "node_rel n (node p) a" "calls_rel M n p a" "batch_rel p a" "msgs_rel M c a"
  using assms by (auto simp: cluster_rel_def server_rel_def dest: bspec [of _ _ n])

lemma batch_rel_forward:
  assumes "batch_rel p a" "forward (node p) nd"
  shows "batch_rel (p\<lparr>node := nd\<rparr>) a"
  using assms unfolding batch_rel_def forward_def by (auto split: option.splits)

lemma batch_rel_cong:
  "applying q = applying p \<Longrightarrow> node q = node p \<Longrightarrow> batch_rel q a = batch_rel p a"
  by (cases "applying p") (auto simp: batch_rel_def)

lemma calls_rel_subset:
  "calls_rel M n p a \<Longrightarrow> set (calls q) \<subseteq> set (calls p) \<Longrightarrow> calls_rel M n q a"
  unfolding calls_rel_def by blast

lemma running_rel:
  assumes "safe a" "calls_rel M n p a" "batch_rel p a" "moves n a b" "node_rel n nd b"
    and "forward (node p) nd"
  shows "server_rel n (Running (p\<lparr>node := nd\<rparr>)) b"
proof -
  have g: "grows a b" using moves_keep(2) assms(1,4) by blast
  have "calls_rel M n (p\<lparr>node := nd\<rparr>) b"
    using calls_rel_grows [OF assms(2) g] by (simp add: calls_rel_def)
  moreover have "batch_rel (p\<lparr>node := nd\<rparr>) b"
    using batch_rel_forward [OF batch_rel_grows [OF assms(3) g] assms(6)] .
  ultimately show ?thesis using assms(5) by (simp add: server_rel_def)
qed

lemma settle_step:
  assumes "cluster_rel c a" "safe a" "calls_rel M n p a" "batch_rel p a"
    and "sim n a (node_rel n) r" "on_Ok (forward (node p)) r"
  shows "\<exists>b. safe b \<and> leads a b \<and> cluster_rel (settle n p r c) b"
proof (cases r)
  case (Ok nd)
  then obtain b where b: "moves n a b" "node_rel n nd b" using assms(5) by (auto simp: sim_def)
  have "server_rel n (Running (p\<lparr>node := nd\<rparr>)) b"
    using running_rel [OF assms(2-4) b] assms(6) Ok by simp
  then show ?thesis using cluster_step_local [OF assms(1,2) b(1)] Ok by (simp add: settle_def)
next
  case (Panic e nd)
  then obtain b where b: "moves n a b" "down_rel n (storage nd) b" using assms(5) by (auto simp: sim_def)
  then show ?thesis
    using cluster_step_local [OF assms(1,2) b(1), of "Down (storage nd)"] Panic
    by (simp add: settle_def server_rel_def)
qed

lemma recv_vote_step:
  assumes "cluster_rel c a" "safe a" "n \<in> M" "servers c n = Running p" "(m, n, args) \<in> rvreq c"
  shows "\<exists>b. safe b \<and> leads a b \<and> cluster_rel (recv_vote D m n args ev p c) b"
proof -
  note run = server_runningD [OF assms(1,3,4)]
  note hrv = HandleRequestVote_sim [OF assms(2) run(1) msgs_relD(2,1) [OF run(4) assms(5)], of ev]
    and fwd = forward_HandleRequestVote [of "node p" "dSave D" ev args]
  show ?thesis
  proof (cases "HandleRequestVote (dSave D) ev args (node p)")
    case (Ok x)
    obtain nd r where x: "x = (nd, r)" by (cases x)
    obtain b where b: "moves n a b" "node_rel n nd b"
      "\<And>reply. r = Inr reply \<Longrightarrow> VoteGranted reply \<Longrightarrow> vt b (unat (rvTerm args)) n = Some m"
      using hrv by (auto simp: sim_def Ok x)
    have srv: "server_rel n (Running (p\<lparr>node := nd\<rparr>)) b"
      using running_rel [OF assms(2) run(2,3) b(1,2)] fwd by (simp add: Ok x)
    have ms: "msgs_rel M c b" using msgs_rel_grows [OF run(4) moves_keep(2) [OF b(1) assms(2)]] .
    show ?thesis
    proof (cases r)
      case (Inl e)
      then show ?thesis
        using cluster_step_local [OF assms(1,2) b(1) srv] by (simp add: recv_vote_def Ok x settle_def)
    next
      case (Inr reply)
      have "msgs_rel M (recv_vote D m n args ev p c) b"
        using ms b(3) [OF Inr] by (auto simp: msgs_rel_def recv_vote_def Ok x Inr settle_def)
      then show ?thesis
        by (rule cluster_step [OF assms(1,2) b(1) srv]) (simp add: recv_vote_def Ok x Inr settle_def)
    qed
  next
    case (Panic e nd)
    then have "sim n a (node_rel n) (Panic e nd)" using hrv by (simp add: sim_def)
    then show ?thesis
      using settle_step [OF assms(1,2) run(2,3)] Panic by (simp add: recv_vote_def)
  qed
qed

lemma recv_append_step:
  assumes "cluster_rel c a" "safe a" "n \<in> M" "servers c n = Running p" "(m, n, args) \<in> aereq c"
  shows "\<exists>b. safe b \<and> leads a b \<and> cluster_rel (recv_append D m n args ev p c) b"
proof -
  note run = server_runningD [OF assms(1,3,4)]
  note hae = HandleAppendEntries_sim [OF assms(2) run(1) msgs_relD(4) [OF run(4) assms(5)], of ev]
    and fwd = forward_HandleAppendEntries [of "node p" "dSave D" ev args]
  show ?thesis
  proof (cases "HandleAppendEntries (dSave D) ev args (node p)")
    case (Ok x)
    obtain nd r where x: "x = (nd, r)" by (cases x)
    obtain b where b: "moves n a b" "node_rel n nd b"
      "\<And>reply. r = Inr reply \<Longrightarrow> Success reply \<Longrightarrow>
        unat (PrevLogIndex args) + length (Entries args) \<le> ak b (unat (aeTerm args)) n"
      using hae by (auto simp: sim_def Ok x)
    have srv: "server_rel n (Running (p\<lparr>node := nd\<rparr>)) b"
      using running_rel [OF assms(2) run(2,3) b(1,2)] fwd by (simp add: Ok x)
    have ms: "msgs_rel M c b" using msgs_rel_grows [OF run(4) moves_keep(2) [OF b(1) assms(2)]] .
    show ?thesis
    proof (cases r)
      case (Inl e)
      then show ?thesis
        using cluster_step_local [OF assms(1,2) b(1) srv] by (simp add: recv_append_def Ok x settle_def)
    next
      case (Inr reply)
      have "msgs_rel M (recv_append D m n args ev p c) b"
        using ms b(3) [OF Inr] by (auto simp: msgs_rel_def recv_append_def Ok x Inr settle_def)
      then show ?thesis
        by (rule cluster_step [OF assms(1,2) b(1) srv]) (simp add: recv_append_def Ok x Inr settle_def)
    qed
  next
    case (Panic e nd)
    then have "sim n a (node_rel n) (Panic e nd)" using hae by (simp add: sim_def)
    then show ?thesis
      using settle_step [OF assms(1,2) run(2,3)] Panic by (simp add: recv_append_def)
  qed
qed

lemma end_thread_rel:
  assumes "node_rel n (node p) a" "calls_rel M n p a" "batch_rel p a"
  shows "node_rel n (node (end_thread t p)) a" "calls_rel M n (end_thread t p) a"
    "batch_rel (end_thread t p) a"
proof -
  show "node_rel n (node (end_thread t p)) a"
    using remove_thread_rel [OF assms(1)] by (simp add: end_thread_def)
  show "calls_rel M n (end_thread t p) a"
    by (rule calls_rel_subset [OF assms(2)]) (simp add: end_thread_def)
  show "batch_rel (end_thread t p) a"
    using batch_rel_forward [OF assms(3)] by (simp add: end_thread_def)
qed

lemma vote_reply_sim:
  assumes "cluster_rel c a" "safe a" "n \<in> M" "servers c n = Running p" "node_bounded (node p)"
    and "RequestVoteTo peer args \<in> set (threads (node p))" "(n, peer, args, reply) \<in> rvrep c"
  defines "q \<equiv> end_thread (RequestVoteTo peer args) p"
  shows "sim n a (node_rel n) (requestVote (dSave D) ev args reply (node q))"
proof -
  note run = server_runningD [OF assms(1,3,4)]
  note q = end_thread_rel [OF run(1-3), of "RequestVoteTo peer args", folded q_def]
  show ?thesis
  proof (rule requestVote_sim [OF assms(2) q(1)])
    show "node_bounded (node q)" using assms(5) by (simp add: q_def end_thread_def node_bounded_def)
    assume "role (node q) = Candidate" "rvTerm args = currentTerm (node q)" "VoteGranted reply"
    then show "votes_rel M n (node q\<lparr>votes := (votes (node q))(rvTerm args := votes (node q) (rvTerm args) + 1)\<rparr>) a"
      using count_vote_rel [OF run(1) assms(6)] msgs_relD(3) [OF run(4) assms(7)]
      by (simp add: q_def end_thread_def)
  qed
qed

lemma vote_reply_step:
  assumes "cluster_rel c a" "safe a" "n \<in> M" "servers c n = Running p" "node_bounded (node p)"
    and "RequestVoteTo peer args \<in> set (threads (node p))" "(n, peer, args, reply) \<in> rvrep c"
  defines "q \<equiv> end_thread (RequestVoteTo peer args) p"
  shows "\<exists>b. safe b \<and> leads a b \<and> cluster_rel (settle n q (requestVote (dSave D) ev args reply (node q)) c) b"
proof -
  note run = server_runningD [OF assms(1,3,4)]
  note q = end_thread_rel [OF run(1-3), of "RequestVoteTo peer args", folded q_def]
  show ?thesis
    by (rule settle_step [OF assms(1,2) q(2,3) vote_reply_sim [OF assms(1-7), folded q_def] forward_requestVote])
qed

lemma append_reply_sim:
  assumes "cluster_rel c a" "safe a" "n \<in> M" "servers c n = Running p"
    and "(peer, t, args) \<in> set (calls p)" "(n, peer, args, reply) \<in> aerep c"
  shows "sim n a (node_rel n) (replicateTo_reply (dSave D) ev peer t args reply (node p))"
proof -
  note run = server_runningD [OF assms(1,3,4)]
  have "peer \<in> M - {n}" "aeTerm args = t" "append_req n args a"
    using run(2) assms(5) by (auto simp: calls_rel_def)
  then show ?thesis
    using replicateTo_reply_sim [OF assms(2) run(1), of peer args t reply ev] msgs_relD(5) [OF run(4) assms(6)] by simp
qed

lemma append_reply_step:
  assumes "cluster_rel c a" "safe a" "n \<in> M" "servers c n = Running p"
    and "(peer, t, args) \<in> set (calls p)" "(n, peer, args, reply) \<in> aerep c"
  defines "q \<equiv> p\<lparr>calls := remove1 (peer, t, args) (calls p)\<rparr>"
  shows "\<exists>b. safe b \<and> leads a b \<and> cluster_rel (settle n q (replicateTo_reply (dSave D) ev peer t args reply (node q)) c) b"
proof -
  note run = server_runningD [OF assms(1,3,4)]
  have q: "calls_rel M n q a" "batch_rel q a" "node q = node p"
    using run(3) batch_rel_cong [of q p a] set_remove1_subset [of "(peer, t, args)" "calls p"]
    by (auto simp: q_def intro!: calls_rel_subset [OF run(2)])
  show ?thesis
    using append_reply_sim [OF assms(1-6)] q
    by (intro settle_step [OF assms(1,2) q(1,2)] forward_replicateTo_reply) simp_all
qed

lemma heartbeat_step:
  assumes "cluster_rel c a" "safe a" "n \<in> M" "servers c n = Running p"
  shows "\<exists>b. safe b \<and> leads a b \<and> cluster_rel (heartbeat n t p c) b"
proof -
  note run = server_runningD [OF assms(1,3,4)]
  let ?q = "p\<lparr>node := fst (leaderLoop t (node p))\<rparr>"
  have "server_rel n (Running ?q) a"
    using running_rel [OF assms(2) run(2,3) moves_refl leaderLoop_rel [OF run(1)] forward_leaderLoop] .
  then have "server_rel n (Running (if more then ?q else end_thread (LeaderLoop t) ?q)) a" for more
    using end_thread_rel [of n ?q a] by (simp add: server_rel_def)
  then show ?thesis
    using cluster_step_local [OF assms(1,2) moves_refl]
    by (simp add: heartbeat_def split_def Let_def)
qed

lemma replicate_step:
  assumes "cluster_rel c a" "safe a" "n \<in> M" "servers c n = Running p"
    and "ReplicateTo peer t \<in> set (threads (node p))"
  shows "\<exists>b. safe b \<and> leads a b \<and> cluster_rel (replicate_call n peer t p c) b"
proof -
  note run = server_runningD [OF assms(1,3,4)]
  let ?q = "end_thread (ReplicateTo peer t) p"
  note q = end_thread_rel [OF run(1-3), of "ReplicateTo peer t"]
  have peer: "peer \<in> M - {n}" using node_relD(13) [OF run(1)] assms(5) by (auto simp: threads_rel_def)
  from replicateTo_request_ok [OF assms(2) run(1) peer, of t] show ?thesis
  proof (elim disjE exE conjE)
    assume "replicateTo_request peer t (node p) = Ok None"
    then show ?thesis
      using cluster_step_local [OF assms(1,2) moves_refl, of n "Running ?q"] q
      by (simp add: replicate_call_def server_rel_def)
  next
    fix args
    assume r: "replicateTo_request peer t (node p) = Ok (Some args)" "aeTerm args = t" "append_req n args a"
    let ?q' = "?q\<lparr>calls := calls ?q @ [(peer, t, args)]\<rparr>"
    have "calls_rel M n ?q' a" using q(2) r(2,3) peer by (auto simp: calls_rel_def)
    moreover have "batch_rel ?q' a" using q(3) batch_rel_cong [of ?q' ?q a] by simp
    ultimately have srv: "server_rel n (Running ?q') a" using q(1) by (simp add: server_rel_def)
    have "msgs_rel M (replicate_call n peer t p c) a"
      using run(4) r(3) by (simp add: msgs_rel_def replicate_call_def r(1) Let_def)
    then show ?thesis
      by (rule cluster_step [OF assms(1,2) moves_refl srv]) (simp add: replicate_call_def r(1) Let_def)
  qed
qed

lemma apply_moves:
  "(\<forall>k\<in>set ks. 0 < k \<and> k \<le> ci a n) \<Longrightarrow>
   moves n a (a\<lparr>ap := ap a \<union> (\<lambda>k. (k, lg a n ! (k - 1))) ` set ks\<rparr>)"
proof (induction ks arbitrary: a)
  case (Cons k ks)
  let ?b = "a\<lparr>ap := insert (k, lg a n ! (k - 1)) (ap a)\<rparr>"
  have "moves n a ?b" using Cons.prems by (intro move_apply) auto
  moreover have "moves n ?b (?b\<lparr>ap := ap ?b \<union> (\<lambda>k. (k, lg ?b n ! (k - 1))) ` set ks\<rparr>)"
    using Cons.prems by (intro Cons.IH) simp
  ultimately show ?case using moves_trans by fastforce
qed simp

lemma commit_in_log:
  assumes "safe a" "node_rel n nd a"
  shows "unat (commitIndex nd) \<le> length (alog_of (entries (log nd)))"
proof -
  have "covered (majority M) a (ct a n) (ci a n) (lg a n)"
    using safe_invD(5) [OF assms(1)] by (simp add: commit_inv_def)
  then show ?thesis using node_relD(7,12) [OF assms(2)] by (auto simp: covered_def)
qed

lemma applier_batch_ok:
  assumes "safe a" "node_rel n nd a" "\<not> stopped nd" "lastApplied nd < commitIndex nd"
  obtains es where "applier_batch nd = Ok (Some es)" "es \<noteq> []"
    "map (\<lambda>e. unat (Index e)) es = [Suc (unat (lastApplied nd)) ..< Suc (unat (commitIndex nd))]"
    "\<And>e. e \<in> set es \<Longrightarrow> 0 < unat (Index e) \<and> Index e \<le> commitIndex nd \<and>
       aentry e = lg a n ! (unat (Index e) - 1)"
proof -
  note rel = node_relD [OF assms(2)] and pl = node_plain [OF assms(2)] and ci = commit_in_log [OF assms(1,2)]
  let ?la = "unat (lastApplied nd)" and ?ci = "unat (commitIndex nd)" and ?L = "alog_of (entries (log nd))"
  have lt: "?la < ?ci" using assms(4) by (simp add: word_less_nat_alt)
  have big: "int ?ci < max_int" using ci plain_bound [OF pl] by linarith
  then have la1: "unat (lastApplied nd + 1) = Suc ?la" using lt by (intro unat_inc) linarith
  have d: "unat (commitIndex nd - lastApplied nd) = ?ci - ?la" using assms(4) by (simp add: unat_sub)
  have "?ci - ?la \<le> ?ci" by simp
  then have "int (unat (commitIndex nd - lastApplied nd)) \<le> max_int" using d big by linarith
  then have lim: "sint (commitIndex nd - lastApplied nd) = int (?ci - ?la)"
    using sint_u64 d by metis
  have "0 < lastApplied nd + 1" using la1 by (simp add: word_less_nat_alt)
  then obtain es where raw: "entriesFrom (log nd) (lastApplied nd + 1) (int (?ci - ?la)) = Ok es"
    "map aentry es = take (length es) (drop (unat (lastApplied nd + 1) - 1) ?L)"
    "\<And>k. k < length es \<Longrightarrow> unat (Index (es ! k)) = unat (lastApplied nd + 1) + k"
    "length es = (let r = length ?L + 1 - unat (lastApplied nd + 1)
       in if int (?ci - ?la) > 0 then min r (nat (int (?ci - ?la))) else r)"
    using plain_entriesFrom [OF pl, of "lastApplied nd + 1" "int (?ci - ?la)"] by metis
  have "0 < int (?ci - ?la)" using lt by linarith
  then have "length es = min (length ?L + 1 - Suc ?la) (?ci - ?la)"
    using raw(4) by (simp only: Let_def if_True nat_int la1)
  then have es: "entriesFrom (log nd) (lastApplied nd + 1) (int (?ci - ?la)) = Ok es"
    "map aentry es = take (length es) (drop ?la ?L)"
    "\<And>k. k < length es \<Longrightarrow> unat (Index (es ! k)) = Suc ?la + k" "length es = ?ci - ?la"
    using raw(1-3) ci by (simp_all only: la1 diff_Suc_1)
  show thesis
  proof (rule that [of es])
    show "applier_batch nd = Ok (Some es)" using assms(3,4) es(1) lim by (simp add: applier_batch_def)
    show "es \<noteq> []" using es(4) lt by auto
    show "map (\<lambda>e. unat (Index e)) es = [Suc ?la ..< Suc ?ci]"
      using es(3,4) lt by (intro nth_equalityI) (simp_all del: upt_Suc)
    fix e assume "e \<in> set es"
    then obtain k where k: "k < length es" "e = es ! k" by (auto simp: in_set_conv_nth)
    have "aentry e = ?L ! (?la + k)"
      using arg_cong [OF es(2), of "\<lambda>x. x ! k"] k ci es(4) by simp
    then show "0 < unat (Index e) \<and> Index e \<le> commitIndex nd \<and> aentry e = lg a n ! (unat (Index e) - 1)"
      using es(3) [OF k(1)] k es(4) rel(7) by (simp add: word_le_nat_alt)
  qed
qed

lemma take_batch_step:
  assumes "cluster_rel c a" "safe a" "n \<in> M" "servers c n = Running p"
  shows "\<exists>b. safe b \<and> leads a b \<and> cluster_rel (take_batch n p c) b"
proof (cases "stopped (node p) \<or> \<not> lastApplied (node p) < commitIndex (node p)")
  case True
  then have "take_batch n p c = c" by (auto simp: take_batch_def applier_batch_def not_less)
  then show ?thesis using assms by auto
next
  case False
  note run = server_runningD [OF assms(1,3,4)]
  obtain es where es: "applier_batch (node p) = Ok (Some es)" "es \<noteq> []"
    "map (\<lambda>e. unat (Index e)) es = [Suc (unat (lastApplied (node p))) ..< Suc (unat (commitIndex (node p)))]"
    "\<And>e. e \<in> set es \<Longrightarrow> 0 < unat (Index e) \<and> Index e \<le> commitIndex (node p) \<and>
       aentry e = lg a n ! (unat (Index e) - 1)"
    using applier_batch_ok [OF assms(2) run(1)] False by blast
  let ?ks = "map (\<lambda>e. unat (Index e)) es"
  let ?b = "a\<lparr>ap := ap a \<union> (\<lambda>k. (k, lg a n ! (k - 1))) ` set ?ks\<rparr>"
  let ?q = "p\<lparr>applying := Some (es, es)\<rparr>"
  have mv: "moves n a ?b"
    using es(4) node_relD(12) [OF run(1)] by (intro apply_moves) (auto simp: word_le_nat_alt)
  have g: "grows a ?b" using moves_keep(2) [OF mv assms(2)] .
  have "unat (Index (last es)) = last ?ks" using es(2) by (simp add: last_map)
  also have "\<dots> = unat (commitIndex (node p))"
    unfolding es(3) using False by (auto simp: word_less_nat_alt)
  finally have "lastApplied (node p) \<le> Index (last es)" using False by (simp add: word_le_nat_alt word_less_nat_alt)
  then have "batch_rel ?q ?b" using es(2,4) by (auto simp: batch_rel_def)
  moreover have "calls_rel M n ?q ?b"
    using calls_rel_subset [OF calls_rel_grows [OF run(2) g], of ?q] by simp
  moreover have "node_rel n (node ?q) ?b"
    using node_rel_other [OF run(1) g] by (simp add: same_at_def)
  ultimately show ?thesis
    using cluster_step_local [OF assms(1,2) mv, of "Running ?q"] es(1)
    by (simp add: take_batch_def server_rel_def)
qed

lemma deliver_step:
  assumes "cluster_rel c a" "safe a" "n \<in> M" "servers c n = Running p" "deliver n p c = Some c'"
  shows "\<exists>b. safe b \<and> leads a b \<and> cluster_rel c' b"
proof -
  note run = server_runningD [OF assms(1,3,4)]
  obtain batch e rest where ap: "applying p = Some (batch, e # rest)"
    using assms(5) by (auto simp: deliver_def split: option.splits list.splits)
  let ?q = "p\<lparr>applying := Some (batch, rest), sent := sent p @ [apply_msg e], room := room p - 1\<rparr>"
  have c': "c' = (set_server n (Running ?q) c)\<lparr>delivered := insert (n, apply_msg e) (delivered c)\<rparr>"
    using assms(5) ap by (simp add: deliver_def split: if_splits)
  have "batch_rel ?q a" using run(3) ap by (auto simp: batch_rel_def)
  moreover have "calls_rel M n ?q a" using calls_rel_subset [OF run(2), of ?q] by simp
  ultimately have srv: "server_rel n (Running ?q) a" using run(1) by (simp add: server_rel_def)
  have "(unat (Index e), aentry e) \<in> ap a" using run(3) ap by (auto simp: batch_rel_def)
  then have "msgs_rel M c' a"
    using run(4) by (simp add: msgs_rel_def c' apply_msg_def aentry_def)
  then show ?thesis
    by (rule cluster_step [OF assms(1,2) moves_refl srv]) (simp add: c')
qed

lemma batch_done_step:
  assumes "cluster_rel c a" "safe a" "n \<in> M" "servers c n = Running p" "batch_done n p c = Some c'"
  shows "\<exists>b. safe b \<and> leads a b \<and> cluster_rel c' b"
proof -
  note run = server_runningD [OF assms(1,3,4)]
  obtain batch where ap: "applying p = Some (batch, [])"
    using assms(5) by (auto simp: batch_done_def split: option.splits list.splits)
  have b: "batch \<noteq> []" "Index (last batch) \<le> commitIndex (node p)"
    using run(3) ap by (auto simp: batch_rel_def)
  let ?nd = "node p\<lparr>lastApplied := Index (last batch)\<rparr>"
  let ?q = "p\<lparr>applying := None, node := ?nd\<rparr>"
  have c': "c' = set_server n (Running ?q) c"
    using assms(5) ap b(1) by (simp add: batch_done_def applier_done_def index_at_last settle_def)
  have "node_rel n ?nd a"
    using run(1) b(2) by (simp add: node_rel_def static_rel_def persistent_def soft_rel_def
        leader_rel_def votes_rel_def)
  then have "server_rel n (Running ?q) a"
    using calls_rel_subset [OF run(2), of ?q] by (simp add: server_rel_def batch_rel_def)
  then show ?thesis unfolding c' by (rule cluster_step_local [OF assms(1,2) moves_refl])
qed

lemma propose_step:
  assumes "cluster_rel c a" "safe a" "n \<in> M" "servers c n = Running p" "node_bounded (node p)"
  shows "\<exists>b. safe b \<and> leads a b \<and> cluster_rel (propose D n cmd p c) b"
proof -
  note run = server_runningD [OF assms(1,3,4)]
  have "sim n a (node_rel n) (andThen (Propose (dSave D) cmd (node p)) (\<lambda>(nd, _). Ok nd))"
    by (rule sim_andThen [OF assms(2) Propose_sim [OF assms(2) run(1) assms(5)]])
      (auto intro!: sim_here)
  moreover have "on_Ok (forward (node p)) (andThen (Propose (dSave D) cmd (node p)) (\<lambda>(nd, _). Ok nd))"
    using on_Ok_mono [OF forward_Propose [of "node p" "dSave D" cmd]] by (auto simp: split_def)
  ultimately show ?thesis
    unfolding propose_def by (rule settle_step [OF assms(1,2) run(2,3)])
qed

lemma boot_step:
  assumes "cluster_rel c a" "safe a" "n \<in> M" "servers c n = Down s" "boot D n ev c = Some c'"
  shows "\<exists>b. safe b \<and> leads a b \<and> cluster_rel c' b"
proof -
  have "down_rel n s a" using assms(1,3,4) by (auto simp: cluster_rel_def server_rel_def dest: bspec [of _ _ n])
  moreover obtain nd where nd: "New (dLoad D) ev (boot_config D n s) = Ok (Inr nd)"
    "c' = set_server n (Running \<lparr>node = nd, calls = [], applying = None, sent = [], room = 0\<rparr>) c"
    using assms(4,5) by (auto simp: boot_def split: outcome.splits sum.splits)
  ultimately have "node_rel n nd a" using New_rel(1) [OF assms(3)] by blast
  then show ?thesis
    unfolding nd(2)
    by (intro cluster_step_local [OF assms(1,2) moves_refl]) (simp add: server_rel_def calls_rel_def batch_rel_def)
qed

lemma send_vote_step:
  assumes "cluster_rel c a" "safe a" "n \<in> M" "servers c n = Running p"
    and "RequestVoteTo peer args \<in> set (threads (node p))"
  shows "\<exists>b. safe b \<and> leads a b \<and> cluster_rel (c\<lparr>rvreq := insert (n, peer, args) (rvreq c)\<rparr>) b"
proof -
  note run = server_runningD [OF assms(1,3,4)]
  have "vote_req n args a" "n \<noteq> []"
    using node_relD(3,13) [OF run(1)] assms(5) by (auto simp: threads_rel_def)
  then have "cluster_rel (c\<lparr>rvreq := insert (n, peer, args) (rvreq c)\<rparr>) a"
    using assms(1) by (auto simp: cluster_rel_def msgs_rel_def)
  then show ?thesis using assms(2) by blast
qed

lemma quiet_step:
  assumes "cluster_rel c a" "safe a" "server_rel n v a"
  shows "\<exists>b. safe b \<and> leads a b \<and> cluster_rel (set_server n v c) b"
  using cluster_step_local [OF assms(1,2) moves_refl assms(3)] .

lemma crash_step:
  assumes "cluster_rel c a" "safe a" "n \<in> M" "servers c n = Running p"
  shows "\<exists>b. safe b \<and> leads a b \<and> cluster_rel (set_server n (Down (storage (node p))) c) b"
proof -
  note rel = node_relD [OF server_runningD(1) [OF assms(1,3,4)]]
  obtain b where "moves n a b" "down_rel n (storage (node p)) b"
    using crash_down_rel [of "storage (node p)" n a] rel(16,17,19) by auto
  then show ?thesis using cluster_step_local [OF assms(1,2)] by (simp add: server_rel_def)
qed

lemma proc_action_step:
  assumes "cluster_rel c a" "safe a" "bounded D c" "actor act \<in> M"
    and "servers c (actor act) = Running p" "proc_action D act p c = Some c'"
  shows "\<exists>b. safe b \<and> leads a b \<and> cluster_rel c' b"
proof -
  note run = server_runningD [OF assms(1,4,5)]
  have bnd: "node_bounded (node p)"
    using assms(3-5) by (auto simp: bounded_def dest: bspec [of _ _ "actor act"])
  have tm: "unat (currentTerm (node p)) < max_u64" using bnd by (simp add: node_bounded_def)
  note st = settle_step [OF assms(1,2) run(2,3)]
  show ?thesis
  proof (cases act)
    case (Crash n)
    then show ?thesis using crash_step [OF assms(1,2,4,5)] assms(6) by (auto simp: proc_action_def)
  next
    case (StartUp n ev)
    then show ?thesis
      using st [OF Start_sim [OF assms(2) run(1)] forward_Start] assms(6) by (auto simp: proc_action_def)
  next
    case (ShutDown n)
    then show ?thesis
      using st [of "Ok (Stop (node p))"] assms(6) sim_here [of "node_rel n", OF Stop_rel [OF run(1)[unfolded ShutDown actor.simps]]]
      by (auto simp: proc_action_def Stop_def)
  next
    case (Tick n ev)
    then show ?thesis
      using st [OF ticker_sim [OF assms(2) run(1) bnd] forward_ticker [OF tm]] assms(6)
      by (auto simp: proc_action_def split: if_splits)
  next
    case (SendVote n peer args)
    then show ?thesis
      using send_vote_step [OF assms(1,2,4,5)] assms(6) by (auto simp: proc_action_def split: if_splits)
  next
    case (RecvVote m n args ev)
    then show ?thesis
      using recv_vote_step [OF assms(1,2,4,5)] assms(6) by (auto simp: proc_action_def split: if_splits)
  next
    case (VoteReply n peer args reply ev)
    then show ?thesis
      using vote_reply_step [OF assms(1,2,4,5) bnd] assms(6)
      by (auto simp: proc_action_def Let_def split: if_splits)
  next
    case (VoteFails n peer args)
    then show ?thesis
      using quiet_step [OF assms(1,2)] end_thread_rel [OF run(1-3)] assms(6)
      by (auto simp: proc_action_def server_rel_def)
  next
    case (Heartbeat n t)
    then show ?thesis
      using heartbeat_step [OF assms(1,2,4,5)] assms(6) by (auto simp: proc_action_def split: if_splits)
  next
    case (Replicate n peer t)
    then show ?thesis
      using replicate_step [OF assms(1,2,4,5)] assms(6) by (auto simp: proc_action_def split: if_splits)
  next
    case (RecvAppend m n args ev)
    then show ?thesis
      using recv_append_step [OF assms(1,2,4,5)] assms(6) by (auto simp: proc_action_def split: if_splits)
  next
    case (AppendReply n peer t args reply ev)
    then show ?thesis
      using append_reply_step [OF assms(1,2,4,5)] assms(6)
      by (auto simp: proc_action_def Let_def split: if_splits)
  next
    case (AppendFails n peer t args)
    let ?q = "p\<lparr>calls := remove1 (peer, t, args) (calls p)\<rparr>"
    have "server_rel n (Running ?q) a"
      using run AppendFails calls_rel_subset [of n p a ?q] set_remove1_subset [of _ "calls p"]
        batch_rel_cong [of ?q p a] by (simp add: server_rel_def)
    then show ?thesis using quiet_step [OF assms(1,2)] AppendFails assms(6) by (auto simp: proc_action_def)
  next
    case (TakeBatch n)
    then show ?thesis
      using take_batch_step [OF assms(1,2,4,5)] assms(6) by (auto simp: proc_action_def split: if_splits)
  next
    case (Receive n)
    let ?q = "p\<lparr>room := Suc (room p)\<rparr>"
    have "server_rel n (Running ?q) a"
      using run Receive calls_rel_subset [of n p a ?q] batch_rel_cong [of ?q p a] by (simp add: server_rel_def)
    then show ?thesis using quiet_step [OF assms(1,2)] Receive assms(6) by (auto simp: proc_action_def)
  next
    case (Deliver n)
    then show ?thesis using deliver_step [OF assms(1,2,4,5)] assms(6) by (auto simp: proc_action_def)
  next
    case (ApplierStops n)
    let ?q = "p\<lparr>applying := None\<rparr>"
    have "node_rel n (node ?q) a" "calls_rel M n ?q a" "batch_rel ?q a"
      using run ApplierStops calls_rel_subset [of n p a ?q] by (simp_all add: batch_rel_def)
    from end_thread_rel [OF this, of Applier] show ?thesis
      using quiet_step [OF assms(1,2)] ApplierStops assms(6)
      by (auto simp: proc_action_def server_rel_def split: if_splits)
  next
    case (BatchDone n)
    then show ?thesis using batch_done_step [OF assms(1,2,4,5)] assms(6) by (auto simp: proc_action_def)
  next
    case (ProposeCmd n cmd)
    then show ?thesis
      using propose_step [OF assms(1,2,4,5)] assms(6) bnd by (auto simp: proc_action_def)
  qed (use assms(6) in \<open>simp_all add: proc_action_def\<close>)
qed

lemma perform_step:
  assumes "cluster_rel c a" "safe a" "bounded D c" "perform D act c = Some c'"
  shows "\<exists>b. safe b \<and> leads a b \<and> cluster_rel c' b"
proof (cases "servers c (actor act)")
  case (Running p)
  then show ?thesis
    using proc_action_step [OF assms(1-3) _ Running] assms(4) by (auto simp: perform_def split: if_splits)
next
  case (Down s)
  have n: "actor act \<in> M" using assms(4) by (auto simp: perform_def split: if_splits)
  have rel: "down_rel (actor act) s a"
    using assms(1) n Down by (auto simp: cluster_rel_def server_rel_def dest: bspec [of _ _ "actor act"])
  have kept: "server_rel (actor act) (Down s') a" if "sinv s'" "content s' = content s" for s'
    using rel that by (simp add: server_rel_def down_rel_def stored_def)
  have "sinv s" using rel by (simp add: down_rel_def)
  show ?thesis
  proof (cases act)
    case (Boot m ev)
    then show ?thesis using boot_step [OF assms(1,2)] n Down assms(4) by (simp add: perform_def)
  next
    case (BootFails m)
    then show ?thesis
      using quiet_step [OF assms(1,2) kept] load_inv load_keeps \<open>sinv s\<close> n Down assms(4)
      by (auto simp: perform_def)
  next
    case (Disturb m d)
    then show ?thesis
      using quiet_step [OF assms(1,2) kept] disturb_inv disturb_content \<open>sinv s\<close> n Down assms(4)
      by (auto simp: perform_def)
  qed (use n Down assms(4) in \<open>simp_all add: perform_def\<close>)
qed

lemma initial_rel: "cluster_rel (cinit st) ainit"
proof -
  have "down_rel n (st n) ainit" if "n \<in> M" for n
    using fresh [OF that]
    by (simp add: down_rel_def stored_def restored_def zeroState_def hard_rel_def ainit_def vote_of_def
        newRaftLog_def alog_of_def log_wf_def first_index_def)
  then show ?thesis by (simp add: cluster_rel_def server_rel_def cinit_def msgs_rel_def)
qed

theorem reachable_leads: "creachable D st c \<Longrightarrow> \<exists>a. safe a \<and> leads ainit a \<and> cluster_rel c a"
proof (induction rule: creachable.induct)
  case start
  then show ?case using initial_rel safe_inv_init by blast
next
  case (act c a c')
  then show ?case using perform_step leads_trans by meson
qed

lemma reachable_rel: "creachable D st c \<Longrightarrow> \<exists>a. safe a \<and> cluster_rel c a"
  using reachable_leads by blast

end

section \<open>Consequences\<close>

definition server_storage :: "'s server \<Rightarrow> 's" where
  "server_storage v = (case v of Running p \<Rightarrow> storage (node p) | Down s \<Rightarrow> s)"

definition entry_of :: "ApplyMsg \<Rightarrow> Entry" where
  "entry_of m = \<lparr>Index = amIndex m, Term = amTerm m, Command = amCommand m\<rparr>"

text \<open>An entry of an uncompacted log is determined by its index and its abstract value.\<close>

lemma plain_entry:
  assumes "plain l" "0 < j" "j \<le> length (alog_of (entries l))"
  shows "unat (Index (entries l ! j)) = j" "aentry (entries l ! j) = alog_of (entries l) ! (j - 1)"
    "entry_at l j = Some (entries l ! j)"
proof -
  obtain es where es: "entries l = sentinel 0 0 # es" "alog_of (entries l) = map aentry es"
    using assms(1) by (rule plain_entries)
  show i: "entry_at l j = Some (entries l ! j)"
    using assms plain_snapshot(1) [OF assms(1)] es by (simp add: entry_at_def)
  show "unat (Index (entries l ! j)) = j" using entry_at_Index [OF _ i] assms(1) by (simp add: plain_def)
  show "aentry (entries l ! j) = alog_of (entries l) ! (j - 1)"
    using assms(2,3) es by (cases j) auto
qed

lemma entry_eqI:
  assumes "Index e = Index e'" "aentry e = aentry e'"
  shows "e = (e' :: Entry)"
  using assms by (cases e; cases e') (simp add: aentry_def u64_eq_iff)

lemma plain_entry_at_eq:
  assumes "plain l" "plain l'" "k \<le> length (alog_of (entries l))" "k \<le> length (alog_of (entries l'))"
    and "take k (alog_of (entries l)) = take k (alog_of (entries l'))" "j \<le> k"
  shows "entry_at l j = entry_at l' j"
proof (cases "j = 0")
  case False
  then have "alog_of (entries l) ! (j - 1) = alog_of (entries l') ! (j - 1)"
    using arg_cong [OF assms(5), of "\<lambda>x. x ! (j - 1)"] assms(6) by simp
  then have "entries l ! j = entries l' ! j"
    using plain_entry(1,2) [OF assms(1), of j] plain_entry(1,2) [OF assms(2), of j] False assms(3,4,6)
    by (intro entry_eqI) (simp_all add: u64_eq_iff)
  then show ?thesis
    using plain_entry(3) [OF assms(1), of j] plain_entry(3) [OF assms(2), of j] False assms(3,4,6) by simp
qed (simp add: entry_at_def)

context raft_deployment
begin

lemma reachable_node:
  assumes "creachable D st c" "n \<in> M" "servers c n = Running p"
  obtains a where "safe a" "cluster_rel c a" "node_rel n (node p) a"
  using reachable_rel [OF assms(1)] server_runningD(1) [OF _ assms(2,3)] by blast

lemma one_leader_per_term:
  assumes "creachable D st c" "n \<in> M" "m \<in> M" "servers c n = Running p" "servers c m = Running q"
    and "role (node p) = Leader" "role (node q) = Leader" "currentTerm (node p) = currentTerm (node q)"
  shows "n = m"
proof -
  obtain a where a: "safe a" "cluster_rel c a" using reachable_rel [OF assms(1)] by blast
  note p = node_relD(6,11) [OF server_runningD(1) [OF a(2) assms(2,4)]]
    and q = node_relD(6,11) [OF server_runningD(1) [OF a(2) assms(3,5)]]
  show ?thesis
    using abstract_election_safety [OF a(1), of m n] p q assms(6-8) by simp
qed

lemma logs_match:
  assumes "creachable D st c" "n \<in> M" "m \<in> M" "servers c n = Running p" "servers c m = Running q"
    and "entry_at (log (node p)) i = Some e" "entry_at (log (node q)) i = Some e'" "Term e = Term e'"
    and "j \<le> i"
  shows "entry_at (log (node p)) j = entry_at (log (node q)) j"
proof -
  obtain a where a: "safe a" "cluster_rel c a" using reachable_rel [OF assms(1)] by blast
  note p = server_runningD(1) [OF a(2) assms(2,4)] and q = server_runningD(1) [OF a(2) assms(3,5)]
  note pl = node_plain [OF p] and ql = node_plain [OF q]
  have i: "0 < i" "i \<le> length (lg a n)" "i \<le> length (lg a m)"
    using assms(6,7) plain_length [OF pl] plain_length [OF ql] plain_snapshot [OF pl] plain_snapshot [OF ql]
      node_relD(7) [OF p] node_relD(7) [OF q] by (auto simp: entry_at_def split: if_splits)
  have "aentry e = lg a n ! (i - 1)" "aentry e' = lg a m ! (i - 1)"
    using plain_entry(2,3) [OF pl i(1)] plain_entry(2,3) [OF ql i(1)] i assms(6,7)
      node_relD(7) [OF p] node_relD(7) [OF q] by simp_all
  then have "fst (lg a n ! (i - 1)) = fst (lg a m ! (i - 1))"
    using assms(8) by (metis aentry_def fst_conv)
  then have "take (Suc (i - 1)) (lg a n) = take (Suc (i - 1)) (lg a m)"
    using i by (intro abstract_log_matching [OF a(1)]) auto
  then show ?thesis
    using plain_entry_at_eq [OF pl ql, of i j] i assms(9) node_relD(7) [OF p] node_relD(7) [OF q] by simp
qed

lemma committed_in_leaders:
  assumes "creachable D st c" "n \<in> M" "m \<in> M" "servers c n = Running p" "servers c m = Running q"
    and "role (node q) = Leader" "currentTerm (node p) \<le> currentTerm (node q)"
    and "0 < j" "j \<le> unat (commitIndex (node p))"
  shows "entry_at (log (node q)) j = entry_at (log (node p)) j \<and> entry_at (log (node p)) j \<noteq> None"
proof -
  obtain a where a: "safe a" "cluster_rel c a" using reachable_rel [OF assms(1)] by blast
  note p = server_runningD(1) [OF a(2) assms(2,4)] and q = server_runningD(1) [OF a(2) assms(3,5)]
  note pl = node_plain [OF p] and ql = node_plain [OF q]
  have "covered (majority M) a (ct a n) (ci a n) (lg a n)"
    using safe_invD(5) [OF a(1)] by (simp add: commit_inv_def)
  then obtain u i where u: "u \<le> ct a n" "com (majority M) a u i" "ci a n \<le> i" "ci a n \<le> length (lg a n)"
    "take (ci a n) (lg a n) = take (ci a n) (ll a u)"
    using assms(8,9) node_relD(12) [OF p] by (auto simp: covered_def)
  have "u \<le> ct a m" using u(1) assms(7) node_relD(6) [OF p] node_relD(6) [OF q] by (simp add: word_le_nat_alt)
  then have "holds a (lg a m) u i"
    using abstract_leader_completeness [OF a(1) u(2)] node_relD(11) [OF q] assms(6) by simp
  then have h: "holds a (lg a m) u (ci a n)" using u(3) by (rule holds_shorter)
  then have "take (ci a n) (lg a m) = take (ci a n) (lg a n)" "ci a n \<le> length (lg a m)"
    using u(5) by (auto simp: holds_def)
  then show ?thesis
    using plain_entry_at_eq [OF ql pl, of "ci a n" j] plain_entry(3) [OF pl assms(8)] u(4) assms(9)
      node_relD(7,12) [OF p] node_relD(7) [OF q] by simp
qed

lemma deliveries_agree:
  assumes "creachable D st c" "(n, x) \<in> delivered c" "(m, y) \<in> delivered c" "amIndex x = amIndex y"
  shows "x = y"
proof -
  obtain a where a: "safe a" "msgs_rel M c a"
    using reachable_rel [OF assms(1)] by (auto simp: cluster_rel_def)
  have "(unat (amTerm x), amCommand x) = (unat (amTerm y), amCommand y)"
    using abstract_state_machine_safety [OF a(1)] msgs_relD(6) [OF a(2)] assms(2-4) by metis
  then show ?thesis using assms(4) by (simp add: u64_eq_iff)
qed

lemma disk_in_step:
  assumes "creachable D st c" "n \<in> M" "servers c n = Running p"
  shows "restored (content (storage (node p))) = persistent (node p)"
proof -
  obtain a where "node_rel n (node p) a" using reachable_node [OF assms] by blast
  then show ?thesis using node_relD(17) by (simp add: stored_def)
qed

lemma hard_of_server:
  assumes "cluster_rel c a" "n \<in> M"
  shows "hard_rel n (stored (server_storage (servers c n))) a"
  using assms
  by (auto simp: cluster_rel_def server_rel_def server_storage_def down_rel_def node_rel_def
      split: server.splits dest!: bspec [of _ _ n])

lemma delivered_on_majority:
  assumes "creachable D st c" "(n, x) \<in> delivered c"
  shows "\<exists>Q \<subseteq> M. card M < 2 * card Q \<and> (\<forall>q\<in>Q.
    let es = SavedEntries (content (server_storage (servers c q)))
    in unat (amIndex x) < length es \<and> es ! unat (amIndex x) = entry_of x)"
proof -
  obtain a where a: "safe a" "cluster_rel c a" using reachable_rel [OF assms(1)] by blast
  let ?k = "unat (amIndex x)"
  have "(?k, unat (amTerm x), amCommand x) \<in> ap a"
    using msgs_relD(6) assms(2) a(2) by (auto simp: cluster_rel_def)
  then obtain u i where u: "com (majority M) a u i" "0 < ?k" "?k \<le> i"
    "(unat (amTerm x), amCommand x) = ll a u ! (?k - 1)"
    using safe_invD(6) [OF a(1)] unfolding applied_inv_def by blast
  then obtain Q where Q: "majority M Q" "\<forall>q\<in>Q. i \<le> ak a u q" "own a u i" by (auto simp: com_def)
  have "let es = SavedEntries (content (server_storage (servers c q)))
    in ?k < length es \<and> es ! ?k = entry_of x" if "q \<in> Q" for q
  proof -
    have qM: "q \<in> M" using that Q(1) by (auto simp: majority_def)
    have "holds a (lg a q) u i"
      using safe_invD(4) [OF a(1)] Q(2,3) that com_not_dead [OF u(1)] unfolding keep_inv_def by blast
    then have tk: "i \<le> length (lg a q)" "take i (lg a q) = take i (ll a u)" by (simp_all add: holds_def)
    have h: "?k \<le> length (lg a q)" "lg a q ! (?k - 1) = ll a u ! (?k - 1)"
      using u(2,3) tk(1) arg_cong [OF tk(2), of "\<lambda>x. x ! (?k - 1)"] by simp_all
    let ?s = "server_storage (servers c q)"
    let ?l = "\<lparr>entries = SavedEntries (stored ?s)\<rparr>"
    have hard: "hard_rel q (stored ?s) a" using hard_of_server [OF a(2) qM] .
    then have pl: "plain ?l" "lg a q = alog_of (entries ?l)" by (simp_all add: hard_rel_def plain_def)
    note e = plain_entry [OF pl(1) u(2) h(1) [unfolded pl(2)]]
    have "length (SavedEntries (stored ?s)) > 1"
    proof -
      have "0 < length (alog_of (entries ?l))" using h(1) u(2) unfolding pl(2) by linarith
      then show ?thesis using plain_length [OF pl(1)] by simp
    qed
    then have "SavedEntries (content ?s) = SavedEntries (stored ?s)"
      by (auto simp: stored_def restored_def newRaftLog_def split: if_splits)
    moreover have "entries ?l ! ?k = entry_of x"
      using e(1,2) h(2) pl(2) u(4) by (intro entry_eqI) (auto simp: entry_of_def u64_eq_iff aentry_def)
    ultimately show ?thesis using plain_length [OF pl(1)] h(1) pl(2) by (simp add: Let_def)
  qed
  then show ?thesis using Q(1) by (intro exI [of _ Q]) (auto simp: majority_def)
qed

lemma only_failed_saves_panic:
  assumes "creachable D st c" "bounded D c" "n \<in> M" "servers c n = Running p" "section_panic D c n p e"
  shows "e = PersistFailed"
proof -
  obtain a where a: "safe a" "cluster_rel c a" using reachable_rel [OF assms(1)] by blast
  note run = server_runningD [OF a(2) assms(3,4)]
  have bnd: "node_bounded (node p)"
    using assms(2-4) by (auto simp: bounded_def dest: bspec [of _ _ n])
  show ?thesis
    using assms(5)
  proof cases
    case (PStart ev x)
    then show ?thesis using Start_sim [OF a(1) run(1), of ev] by (simp add: sim_def)
  next
    case (PTicker ev x)
    then show ?thesis using ticker_sim [OF a(1) run(1) bnd, of ev] by (simp add: sim_def)
  next
    case (PRecvVote m vargs ev x)
    then show ?thesis
      using HandleRequestVote_sim [OF a(1) run(1) msgs_relD(2) [OF run(4) PRecvVote(1)]
          msgs_relD(1) [OF run(4) PRecvVote(1)], of ev]
      by (simp add: sim_def)
  next
    case (PVoteReply peer vargs vreply ev x)
    then show ?thesis
      using vote_reply_sim [OF a(2,1) assms(3,4) bnd PVoteReply(1,2), of ev] by (simp add: sim_def)
  next
    case (PReplicate peer t x)
    then show ?thesis
      using replicateTo_request_ok [OF a(1) run(1), of peer t] node_relD(13) [OF run(1)]
      by (auto simp: threads_rel_def)
  next
    case (PRecvAppend m args ev x)
    then show ?thesis
      using HandleAppendEntries_sim [OF a(1) run(1) msgs_relD(4) [OF run(4) PRecvAppend(1)], of ev] by (simp add: sim_def)
  next
    case (PAppendReply peer t args reply ev x)
    then show ?thesis
      using append_reply_sim [OF a(2,1) assms(3,4) PAppendReply(1,2), of ev] by (simp add: sim_def)
  next
    case (PTakeBatch x)
    then have "\<not> stopped (node p)" "lastApplied (node p) < commitIndex (node p)"
      by (auto simp: applier_batch_def not_less split: if_splits)
    then obtain es where "applier_batch (node p) = Ok (Some es)" using applier_batch_ok [OF a(1) run(1)] by blast
    with PTakeBatch show ?thesis by simp
  next
    case (PBatchDone batch x)
    then show ?thesis
      using run(3) by (auto simp: batch_rel_def applier_done_def index_at_last)
  next
    case (PPropose cmd x)
    then show ?thesis using Propose_sim [OF a(1) run(1) bnd, of cmd] by (simp add: sim_def)
  next
    case (PStatus x)
    then show ?thesis using Node_Status_wf [OF node_log_wf [OF run(1)]] by auto
  qed
qed

end

section \<open>Refinement\<close>

text \<open>
  \<open>abstracts members content c a\<close>: the abstract state \<open>a\<close> is what the cluster \<open>c\<close> amounts to.
  Terms, votes and logs are those on the disks, which are those in memory wherever a
  process runs; roles and commit indexes are those of the processes.
\<close>

definition abstracts ::
  "NodeID list \<Rightarrow> ('s \<Rightarrow> PersistentState) \<Rightarrow> 's cluster \<Rightarrow> astate \<Rightarrow> bool" where
  "abstracts members content c a \<longleftrightarrow>
     (\<forall>n\<in>set members. let ps = restored (content (server_storage (servers c n))) in
        ct a n = unat (CurrentTerm ps) \<and> vt a (ct a n) n = vote_of (VotedFor ps) \<and>
        lg a n = alog_of (SavedEntries ps) \<and>
        (case servers c n of
           Running p \<Rightarrow> persistent (node p) = ps \<and> rl a n = role (node p) \<and>
             ci a n = unat (commitIndex (node p))
         | Down s \<Rightarrow> rl a n = Follower \<and> ci a n = 0)) \<and>
     (\<forall>(n, m)\<in>delivered c. (unat (amIndex m), unat (amTerm m), amCommand m) \<in> ap a)"

context raft_deployment
begin

lemma cluster_rel_abstracts:
  assumes "cluster_rel c a"
  shows "abstracts (dMembers D) content c a"
proof -
  have "let ps = restored (content (server_storage (servers c n))) in
        ct a n = unat (CurrentTerm ps) \<and> vt a (ct a n) n = vote_of (VotedFor ps) \<and>
        lg a n = alog_of (SavedEntries ps) \<and>
        (case servers c n of
           Running p \<Rightarrow> persistent (node p) = ps \<and> rl a n = role (node p) \<and>
             ci a n = unat (commitIndex (node p))
         | Down s \<Rightarrow> rl a n = Follower \<and> ci a n = 0)" if "n \<in> M" for n
  proof -
    have hard: "hard_rel n (stored (server_storage (servers c n))) a" by (rule hard_of_server [OF assms that])
    show ?thesis
    proof (cases "servers c n")
      case (Running p)
      note rel = server_runningD(1) [OF assms that Running]
      have "persistent (node p) = stored (storage (node p))" using node_relD(17) [OF rel] by simp
      then show ?thesis
        using hard node_relD(11,12) [OF rel] Running
        by (simp add: hard_rel_def stored_def server_storage_def Let_def)
    next
      case (Down s)
      have "down_rel n s a"
        using assms that Down by (auto simp: cluster_rel_def server_rel_def dest: bspec [of _ _ n])
      then show ?thesis
        using hard Down by (simp add: hard_rel_def stored_def server_storage_def down_rel_def Let_def)
    qed
  qed
  moreover have "(unat (amIndex m), unat (amTerm m), amCommand m) \<in> ap a" if "(n, m) \<in> delivered c" for n m
    using assms that msgs_relD(6) by (auto simp: cluster_rel_def)
  ultimately show ?thesis unfolding abstracts_def by blast
qed

lemma leads_reachable: "leads a b \<Longrightarrow> areachable (majority M) a \<Longrightarrow> areachable (majority M) b"
  unfolding leads_def by (induction rule: rtranclp_induct) (auto intro: areachable.step)

lemma refines:
  assumes "creachable D st c"
  shows "\<exists>a. areachable (majority M) a \<and> abstracts (dMembers D) content c a \<and>
    (\<forall>act c'. bounded D c \<and> perform D act c = Some c' \<longrightarrow>
       (\<exists>b. (astep (majority M))\<^sup>*\<^sup>* a b \<and> abstracts (dMembers D) content c' b))"
proof -
  obtain a where a: "safe a" "leads ainit a" "cluster_rel c a" using reachable_leads [OF assms] by blast
  have "\<exists>b. (astep (majority M))\<^sup>*\<^sup>* a b \<and> abstracts (dMembers D) content c' b"
    if "bounded D c" "perform D act c = Some c'" for act c'
    using perform_step [OF a(3,1) that] cluster_rel_abstracts unfolding leads_def by blast
  then show ?thesis
    using leads_reachable [OF a(2) areachable.init] cluster_rel_abstracts [OF a(3)] by blast
qed

lemma leads_keep:
  assumes "leads a b" "safe a"
  shows "safe b" "ct a n \<le> ct b n" "vt a t n = Some v \<Longrightarrow> vt b t n = Some v"
proof -
  have "safe b \<and> ct a n \<le> ct b n \<and> (vt a t n = Some v \<longrightarrow> vt b t n = Some v)"
    using assms unfolding leads_def
  proof (induction rule: rtranclp_induct)
    case (step y z)
    then have y: "safe y" by blast
    then have e: "election_inv (majority M) y" using base_invD(1) safe_invD(1) by blast
    show ?case
      using step growsD(6) [OF step_grows [OF step(2) e]] extendsD(1) [OF step_extends [OF step(2) e]]
        safe_inv_step [OF step(2) y] order_trans by meson
  qed simp
  then show "safe b" "ct a n \<le> ct b n" "vt a t n = Some v \<Longrightarrow> vt b t n = Some v" by blast+
qed

lemma run_leads:
  assumes "run D as c = Some c'" "safe a" "cluster_rel c a"
  shows "\<exists>b. leads a b \<and> cluster_rel c' b"
  using assms
proof (induction as arbitrary: c a)
  case (Cons x as)
  then obtain d where d: "bounded D c" "perform D x c = Some d" "run D as d = Some c'"
    by (auto split: if_splits option.splits)
  then obtain b where "safe b" "leads a b" "cluster_rel d b"
    using perform_step [OF Cons.prems(3,2)] by blast
  then show ?case using Cons.IH [OF d(3)] leads_trans by blast
qed auto

lemma durable_votes:
  assumes "creachable D st c" "run D as c = Some c'" "n \<in> M"
    and "ps = content (server_storage (servers c n))" "ps' = content (server_storage (servers c' n))"
  shows "CurrentTerm ps \<le> CurrentTerm ps'"
    "CurrentTerm ps' = CurrentTerm ps \<Longrightarrow> VotedFor ps \<noteq> [] \<Longrightarrow> VotedFor ps' = VotedFor ps"
proof -
  obtain a where a: "safe a" "cluster_rel c a" using reachable_rel [OF assms(1)] by blast
  obtain b where b: "leads a b" "cluster_rel c' b" using run_leads [OF assms(2) a] by blast
  have r: "CurrentTerm (stored s) = CurrentTerm (content s)" "VotedFor (stored s) = VotedFor (content s)" for s
    by (simp_all add: stored_def restored_def)
  have h: "ct a n = unat (CurrentTerm ps)" "vt a (unat (CurrentTerm ps)) n = vote_of (VotedFor ps)"
    "ct b n = unat (CurrentTerm ps')" "vt b (unat (CurrentTerm ps')) n = vote_of (VotedFor ps')"
    using hard_of_server [OF a(2) assms(3)] hard_of_server [OF b(2) assms(3)] assms(4,5)
    by (simp_all add: hard_rel_def r)
  show "CurrentTerm ps \<le> CurrentTerm ps'"
    using leads_keep(2) [OF b(1) a(1), of n] h by (simp add: word_le_nat_alt)
  show "VotedFor ps' = VotedFor ps" if "CurrentTerm ps' = CurrentTerm ps" "VotedFor ps \<noteq> []"
    using leads_keep(3) [OF b(1) a(1), of "unat (CurrentTerm ps)" n "VotedFor ps"] h that
    by (simp add: vote_of_def split: if_splits)
qed

end

end
