(* ===== verification/Raft_Delivery.thy ===== *)
theory Raft_Delivery
  imports Raft_Safety
begin

text \<open>
  What an action does to a process that goes on running: its counters never go back, a
  vote cast in a term stays, and its applier sends the committed entries to the delivery
  channel one by one from index 1 on, without gaps and without repetition.
\<close>

section \<open>Steps of a process\<close>

inductive proc_step :: "'s proc \<Rightarrow> 's proc \<Rightarrow> bool" where
  Section: "forward (node p) (node p') \<Longrightarrow> applying p' = applying p \<Longrightarrow> sent p' = sent p \<Longrightarrow> proc_step p p'"
| Take: "applying p = None \<Longrightarrow> \<not> stopped (node p) \<Longrightarrow> batch \<noteq> [] \<Longrightarrow>
    map (\<lambda>e. unat (Index e)) batch = [Suc (unat (lastApplied (node p))) ..< Suc (unat (commitIndex (node p)))] \<Longrightarrow>
    proc_step p (p\<lparr>applying := Some (batch, batch)\<rparr>)"
| Send: "applying p = Some (batch, e # rest) \<Longrightarrow>
    proc_step p (p\<lparr>applying := Some (batch, rest), sent := sent p @ [apply_msg e], room := k\<rparr>)"
| Done: "applying p = Some (batch, []) \<Longrightarrow> batch \<noteq> [] \<Longrightarrow>
    proc_step p (p\<lparr>applying := None, node := (node p)\<lparr>lastApplied := Index (last batch)\<rparr>\<rparr>)"
| Quit: "stopped (node p) \<Longrightarrow> forward (node p) (node p') \<Longrightarrow> applying p' = None \<Longrightarrow> sent p' = sent p \<Longrightarrow>
    proc_step p p'"

lemma settle_section:
  assumes "servers (settle n q r c) n = Running p'" "on_Ok (forward (node p)) r"
    and "applying q = applying p" "sent q = sent p"
  shows "proc_step p p'"
  using assms by (cases r) (auto simp: settle_def set_server_def intro!: Section)

lemma settle_servers: "m \<noteq> n \<Longrightarrow> servers (settle n p r c) m = servers c m"
  by (simp add: settle_def set_server_def)

lemma end_thread_simps [simp]:
  "applying (end_thread t p) = applying p" "sent (end_thread t p) = sent p"
  "forward nd (node (end_thread t p)) = forward nd (node p)" "forward (node (end_thread t p)) = forward (node p)"
  by (simp_all add: end_thread_def forward_def fun_eq_iff)

lemma perform_other:
  assumes "perform D a c = Some c'" "m \<noteq> actor a"
  shows "servers c' m = servers c m"
proof (cases "servers c (actor a)")
  case (Running p)
  then have "proc_action D a p c = Some c'" using assms(1) by (auto simp: perform_def split: if_splits)
  then show ?thesis
    using assms(2)
    by (cases a) (auto simp: proc_action_def settle_servers recv_vote_def recv_append_def heartbeat_def
        replicate_call_def take_batch_def deliver_def batch_done_def propose_def set_server_def Let_def
        split: if_splits outcome.splits prod.splits sum.splits option.splits list.splits)
next
  case (Down s)
  then show ?thesis
    using assms by (cases a) (auto simp: perform_def boot_def set_server_def
        split: if_splits outcome.splits sum.splits)
qed

text \<open>A running process goes down only by a crash or by a panic of the section it runs.\<close>

lemma settle_down:
  assumes "servers (settle n q r c) n = Down s"
  obtains e x where "r = Panic e x"
  using assms by (cases r) (simp_all add: settle_def set_server_def)

lemma goes_down:
  assumes "perform D a c = Some c'" "servers c n = Running p" "servers c' n = Down s"
  shows "a = Crash n \<or> (\<exists>e. section_panic D c n p e)"
proof -
  have n: "actor a = n" using perform_other [OF assms(1), of n] assms(2,3) by fastforce
  then have act: "proc_action D a p c = Some c'"
    using assms(1,2) by (auto simp: perform_def split: if_splits)
  have down: "\<exists>e x. r = Panic e x" if "c' = settle n q r c" for q r
    using settle_down [of n q r c s] assms(3) that by blast
  show ?thesis
  proof (cases a)
    case (StartUp m ev)
    then show ?thesis using act n down by (fastforce simp: proc_action_def intro: section_panic.PStart)
  next
    case (ShutDown m)
    then show ?thesis using act n down by (fastforce simp: proc_action_def)
  next
    case (Tick m ev)
    then show ?thesis
      using act n down by (fastforce simp: proc_action_def intro: section_panic.PTicker split: if_splits)
  next
    case (RecvVote k m args ev)
    then show ?thesis
      using act n assms(3)
      by (auto simp: proc_action_def recv_vote_def settle_def set_server_def intro: section_panic.PRecvVote
          split: if_splits outcome.splits sum.splits)
  next
    case (VoteReply m peer args reply ev)
    then show ?thesis
      using act n down
      by (fastforce simp: proc_action_def Let_def intro: section_panic.PVoteReply split: if_splits)
  next
    case (Replicate m peer t)
    then show ?thesis
      using act n assms(3)
      by (auto simp: proc_action_def replicate_call_def settle_def set_server_def Let_def
          intro: section_panic.PReplicate split: if_splits outcome.splits option.splits)
  next
    case (RecvAppend k m args ev)
    then show ?thesis
      using act n assms(3)
      by (auto simp: proc_action_def recv_append_def settle_def set_server_def intro: section_panic.PRecvAppend
          split: if_splits outcome.splits sum.splits)
  next
    case (AppendReply m peer t args reply ev)
    then show ?thesis
      using act n down
      by (fastforce simp: proc_action_def Let_def intro: section_panic.PAppendReply split: if_splits)
  next
    case (TakeBatch m)
    then show ?thesis
      using act n assms(2,3)
      by (auto simp: proc_action_def take_batch_def settle_def set_server_def
          intro: section_panic.PTakeBatch split: if_splits outcome.splits option.splits)
  next
    case (BatchDone m)
    then show ?thesis
      using act n down
      by (fastforce simp: proc_action_def batch_done_def intro: section_panic.PBatchDone
          split: option.splits list.splits)
  next
    case (ProposeCmd m cmd)
    then show ?thesis
      using act n down [of p "andThen (Propose (dSave D) cmd (node p)) (\<lambda>(nd, _). Ok nd)"]
      by (auto simp: proc_action_def propose_def andThen_eq_Panic intro: section_panic.PPropose)
  qed (use act n assms(2,3) in \<open>auto simp: proc_action_def heartbeat_def deliver_def set_server_def Let_def
      split: if_splits option.splits list.splits prod.splits\<close>)
qed

context raft_deployment
begin

lemma proc_action_proc_step:
  assumes "cluster_rel c a" "safe a" "bounded D c" "actor act \<in> M"
    and "servers c (actor act) = Running p" "proc_action D act p c = Some c'"
    and "servers c' (actor act) = Running p'"
  shows "proc_step p p'"
proof -
  note run = server_runningD [OF assms(1,4,5)]
  have tm: "unat (currentTerm (node p)) < max_u64"
    using assms(3-5) by (auto simp: bounded_def node_bounded_def dest: bspec [of _ _ "actor act"])
  show ?thesis
  proof (cases act)
    case (StartUp n ev)
    then show ?thesis
      using assms(6,7) settle_section [OF _ forward_Start refl refl] by (auto simp: proc_action_def)
  next
    case (ShutDown n)
    then show ?thesis
      using assms(6,7) settle_section [of n p "Ok (Stop (node p))" c p' p]
      by (auto simp: proc_action_def Stop_def)
  next
    case (Tick n ev)
    then show ?thesis
      using assms(6,7) settle_section [OF _ forward_ticker [OF tm] refl refl]
      by (auto simp: proc_action_def split: if_splits)
  next
    case (SendVote n peer args)
    then show ?thesis
      using assms(5-7) by (auto simp: proc_action_def intro!: Section split: if_splits)
  next
    case (RecvVote m n args ev)
    show ?thesis
    proof (cases "HandleRequestVote (dSave D) ev args (node p)")
      case (Ok x)
      then show ?thesis
        using assms(6,7) RecvVote forward_HandleRequestVote [of "node p" "dSave D" ev args]
        by (cases x) (auto simp: proc_action_def recv_vote_def settle_def set_server_def intro!: Section
            split: if_splits sum.splits)
    next
      case (Panic e nd)
      then show ?thesis
        using assms(6,7) RecvVote
        by (auto simp: proc_action_def recv_vote_def settle_def set_server_def split: if_splits)
    qed
  next
    case (VoteReply n peer args reply ev)
    let ?q = "end_thread (RequestVoteTo peer args) p"
    have "on_Ok (forward (node p)) (requestVote (dSave D) ev args reply (node ?q))"
      using forward_requestVote [of "node ?q" "dSave D" ev args reply] by simp
    then show ?thesis
      using assms(6,7) VoteReply settle_section [of n ?q _ c p' p]
      by (auto simp: proc_action_def Let_def split: if_splits)
  next
    case (VoteFails n peer args)
    then show ?thesis
      using assms(6,7) by (auto simp: proc_action_def set_server_def intro!: Section)
  next
    case (Heartbeat n t)
    then show ?thesis
      using assms(6,7) forward_leaderLoop [of "node p" t]
      by (auto simp: proc_action_def heartbeat_def set_server_def Let_def intro!: Section
          split: if_splits prod.splits)
  next
    case (Replicate n peer t)
    then show ?thesis
      using assms(6,7)
      by (auto simp: proc_action_def replicate_call_def settle_def set_server_def Let_def intro!: Section
          split: if_splits outcome.splits option.splits)
  next
    case (RecvAppend m n args ev)
    show ?thesis
    proof (cases "HandleAppendEntries (dSave D) ev args (node p)")
      case (Ok x)
      then show ?thesis
        using assms(6,7) RecvAppend forward_HandleAppendEntries [of "node p" "dSave D" ev args]
        by (cases x) (auto simp: proc_action_def recv_append_def settle_def set_server_def intro!: Section
            split: if_splits sum.splits)
    next
      case (Panic e nd)
      then show ?thesis
        using assms(6,7) RecvAppend
        by (auto simp: proc_action_def recv_append_def settle_def set_server_def split: if_splits)
    qed
  next
    case (AppendReply n peer t args reply ev)
    let ?q = "p\<lparr>calls := remove1 (peer, t, args) (calls p)\<rparr>"
    have "on_Ok (forward (node p)) (replicateTo_reply (dSave D) ev peer t args reply (node ?q))"
      using forward_replicateTo_reply [of "node p" "dSave D" ev peer t args reply] by simp
    then show ?thesis
      using assms(6,7) AppendReply settle_section [of n ?q _ c p' p]
      by (auto simp: proc_action_def Let_def split: if_splits)
  next
    case (AppendFails n peer t args)
    then show ?thesis using assms(6,7) by (auto simp: proc_action_def set_server_def intro!: Section)
  next
    case (TakeBatch n)
    show ?thesis
    proof (cases "stopped (node p) \<or> \<not> lastApplied (node p) < commitIndex (node p)")
      case True
      then have "take_batch n p c = c" by (auto simp: take_batch_def applier_batch_def not_less)
      then show ?thesis using assms(5-7) TakeBatch by (auto simp: proc_action_def intro!: Section split: if_splits)
    next
      case False
      obtain es where es: "applier_batch (node p) = Ok (Some es)" "es \<noteq> []"
        "map (\<lambda>e. unat (Index e)) es = [Suc (unat (lastApplied (node p))) ..< Suc (unat (commitIndex (node p)))]"
        using applier_batch_ok [OF assms(2) run(1)] False by blast
      then have "p' = p\<lparr>applying := Some (es, es)\<rparr>" "applying p = None"
        using assms(6,7) TakeBatch by (auto simp: proc_action_def take_batch_def set_server_def split: if_splits)
      then show ?thesis using Take es(2,3) False by metis
    qed
  next
    case (Receive n)
    then show ?thesis using assms(6,7) by (auto simp: proc_action_def set_server_def intro!: Section)
  next
    case (Deliver n)
    then show ?thesis
      using assms(6,7) by (auto simp: proc_action_def deliver_def set_server_def intro!: Send
          split: option.splits list.splits if_splits)
  next
    case (ApplierStops n)
    then show ?thesis
      using assms(6,7) by (auto simp: proc_action_def set_server_def intro!: Quit split: if_splits)
  next
    case (BatchDone n)
    then obtain batch where b: "applying p = Some (batch, [])"
      using assms(6) by (auto simp: proc_action_def batch_done_def split: option.splits list.splits)
    have "batch \<noteq> []" using run(3) b by (auto simp: batch_rel_def)
    moreover from this have "p' = p\<lparr>applying := None, node := (node p)\<lparr>lastApplied := Index (last batch)\<rparr>\<rparr>"
      using assms(6,7) BatchDone b
      by (auto simp: proc_action_def batch_done_def applier_done_def index_at_last settle_def set_server_def)
    ultimately show ?thesis using Done [OF b] by simp
  next
    case (ProposeCmd n cmd)
    have "on_Ok (forward (node p)) (andThen (Propose (dSave D) cmd (node p)) (\<lambda>(nd, _). Ok nd))"
      by (rule on_Ok_andThenI [OF forward_Propose]) auto
    then show ?thesis
      using assms(6,7) ProposeCmd settle_section [of n p _ c p' p] by (auto simp: proc_action_def propose_def)
  qed (use assms(6,7) in \<open>auto simp: proc_action_def set_server_def\<close>)
qed

lemma running_step:
  assumes "creachable D st c" "bounded D c" "n \<in> M" "perform D a c = Some c'"
    and "servers c n = Running p" "servers c' n = Running p'"
  shows "proc_step p p'"
proof (cases "n = actor a")
  case True
  obtain b where b: "safe b" "cluster_rel c b" using reachable_rel [OF assms(1)] by blast
  have "proc_action D a p c = Some c'"
    using assms(4,5) True by (auto simp: perform_def split: if_splits)
  then show ?thesis
    using proc_action_proc_step [OF b(2,1) assms(2)] assms(3,5,6) True by blast
next
  case False
  then show ?thesis using perform_other [OF assms(4), of n] assms(5,6) by (auto intro!: Section)
qed

lemma booted:
  assumes "perform D a c = Some c'" "servers c n = Down s" "servers c' n = Running p'"
  shows "applying p' = None" "sent p' = []" "lastApplied (node p') = 0" "commitIndex (node p') = 0"
proof -
  have a: "n = actor a" using perform_other [OF assms(1), of n] assms(2,3) by fastforce
  then obtain ev where "a = Boot n ev" "boot D n ev c = Some c'"
    using assms by (cases a) (auto simp: perform_def set_server_def split: if_splits)
  then obtain nd where nd: "New (dLoad D) ev (boot_config D n s) = Ok (Inr nd)"
    "p' = \<lparr>node = nd, calls = [], applying = None, sent = [], room = 0\<rparr>"
    using assms(2,3) by (auto simp: boot_def set_server_def split: outcome.splits sum.splits)
  then show "applying p' = None" "sent p' = []" by simp_all
  show "lastApplied (node p') = 0" "commitIndex (node p') = 0"
    using nd by (auto simp: New_def Let_def restoreState_def resetElectionTimer_def within_eq_Ok
        split: option.splits prod.splits if_splits)
qed

end

section \<open>Deliveries in order\<close>

definition sent_indexes :: "'s proc \<Rightarrow> nat list" where
  "sent_indexes p = map (\<lambda>m. unat (amIndex m)) (sent p)"

definition in_order :: "'s proc \<Rightarrow> bool" where
  "in_order p \<longleftrightarrow> lastApplied (node p) \<le> commitIndex (node p) \<and>
     (case applying p of
        None \<Rightarrow> \<exists>k. sent_indexes p = [1 ..< Suc k] \<and> k \<le> unat (commitIndex (node p)) \<and>
                  (stopped (node p) \<or> k = unat (lastApplied (node p)))
      | Some (batch, rest) \<Rightarrow> \<exists>old hi. batch = old @ rest \<and> batch \<noteq> [] \<and> hi \<le> unat (commitIndex (node p)) \<and>
          map (\<lambda>e. unat (Index e)) batch = [Suc (unat (lastApplied (node p))) ..< Suc hi] \<and>
          sent_indexes p = [1 ..< Suc (unat (lastApplied (node p)) + length old)])"

lemma in_order_applying:
  assumes "in_order p" "applying p = Some (batch, rest)"
  obtains old hi where "batch = old @ rest" "batch \<noteq> []" "hi \<le> unat (commitIndex (node p))"
    "map (\<lambda>e. unat (Index e)) batch = [Suc (unat (lastApplied (node p))) ..< Suc hi]"
    "sent_indexes p = [1 ..< Suc (unat (lastApplied (node p)) + length old)]"
proof -
  have "\<exists>old hi. batch = old @ rest \<and> batch \<noteq> [] \<and> hi \<le> unat (commitIndex (node p)) \<and>
      map (\<lambda>e. unat (Index e)) batch = [Suc (unat (lastApplied (node p))) ..< Suc hi] \<and>
      sent_indexes p = [1 ..< Suc (unat (lastApplied (node p)) + length old)]"
    using assms unfolding in_order_def by (simp only: option.case prod.case)
  then show thesis using that by blast
qed

lemma in_order_sent:
  assumes "in_order p"
  shows "\<exists>k. sent_indexes p = [1 ..< Suc k] \<and> k \<le> unat (commitIndex (node p))"
proof (cases "applying p")
  case (Some x)
  obtain batch rest where x: "x = (batch, rest)" by (cases x)
  obtain old hi where b: "batch = old @ rest" "batch \<noteq> []" "hi \<le> unat (commitIndex (node p))"
    "map (\<lambda>e. unat (Index e)) batch = [Suc (unat (lastApplied (node p))) ..< Suc hi]"
    "sent_indexes p = [1 ..< Suc (unat (lastApplied (node p)) + length old)]"
    using in_order_applying [OF assms Some [unfolded x]] .
  have "length old + length rest = hi - unat (lastApplied (node p))"
    using arg_cong [OF b(4), of length] b(1) by (simp del: upt_Suc)
  moreover have "0 < length old + length rest" using b(1,2) by (cases old) auto
  ultimately have "unat (lastApplied (node p)) + length old \<le> unat (commitIndex (node p))" using b(1,3) by simp
  then show ?thesis using b(5) by blast
qed (use assms in \<open>auto simp: in_order_def\<close>)

lemma in_order_step:
  assumes "proc_step p p'" "in_order p"
  shows "in_order p'"
  using assms(1)
proof cases
  case Section
  have f: "lastApplied (node p') = lastApplied (node p)" "commitIndex (node p) \<le> commitIndex (node p')"
    "stopped (node p) \<Longrightarrow> stopped (node p')" "sent_indexes p' = sent_indexes p"
    using Section by (simp_all add: forward_def sent_indexes_def)
  then have c: "unat (commitIndex (node p)) \<le> unat (commitIndex (node p'))" by (simp add: word_le_nat_alt)
  show ?thesis
  proof (cases "applying p")
    case None
    then show ?thesis using assms(2) f order_trans [OF _ c] Section(2) by (auto simp: in_order_def)
  next
    case (Some x)
    obtain batch rest where x: "x = (batch, rest)" by (cases x)
    obtain old hi where "batch = old @ rest" "batch \<noteq> []" "hi \<le> unat (commitIndex (node p))"
      "map (\<lambda>e. unat (Index e)) batch = [Suc (unat (lastApplied (node p))) ..< Suc hi]"
      "sent_indexes p = [1 ..< Suc (unat (lastApplied (node p)) + length old)]"
      using in_order_applying [OF assms(2) Some [unfolded x]] .
    then have "\<exists>old hi. batch = old @ rest \<and> batch \<noteq> [] \<and> hi \<le> unat (commitIndex (node p')) \<and>
        map (\<lambda>e. unat (Index e)) batch = [Suc (unat (lastApplied (node p'))) ..< Suc hi] \<and>
        sent_indexes p' = [1 ..< Suc (unat (lastApplied (node p')) + length old)]"
      unfolding f using c order_trans by metis
    moreover have "lastApplied (node p') \<le> commitIndex (node p')" using assms(2) f by (auto simp: in_order_def)
    ultimately show ?thesis using Section(2) by (simp add: in_order_def Some x)
  qed
next
  case (Take batch)
  then show ?thesis
    using assms(2) by (auto simp: in_order_def sent_indexes_def intro!: exI [of _ "unat (commitIndex (node p))"])
next
  case (Send batch e rest k)
  obtain old hi where b: "batch = old @ e # rest" "batch \<noteq> []" "hi \<le> unat (commitIndex (node p))"
    "map (\<lambda>e. unat (Index e)) batch = [Suc (unat (lastApplied (node p))) ..< Suc hi]"
    "sent_indexes p = [1 ..< Suc (unat (lastApplied (node p)) + length old)]"
    using in_order_applying [OF assms(2) Send(2)] .
  have len: "length batch = hi - unat (lastApplied (node p))"
    using arg_cong [OF b(4), of length] by (simp del: upt_Suc)
  have "unat (Index e) = Suc (unat (lastApplied (node p)) + length old)"
    using arg_cong [OF b(4), of "\<lambda>x. x ! length old"] len b(1) by (simp add: nth_append del: upt_Suc)
  then have "sent_indexes p' = [1 ..< Suc (unat (lastApplied (node p)) + length (old @ [e]))]"
    using b(5) Send(1) by (simp add: sent_indexes_def apply_msg_def)
  then show ?thesis
    using assms(2) b(1-4) unfolding Send(1) in_order_def
    by (auto simp del: upt_Suc intro!: exI [of _ "old @ [e]"])
next
  case (Done batch)
  obtain hi where b: "hi \<le> unat (commitIndex (node p))"
    "map (\<lambda>e. unat (Index e)) batch = [Suc (unat (lastApplied (node p))) ..< Suc hi]"
    "sent_indexes p = [1 ..< Suc (unat (lastApplied (node p)) + length batch)]"
    using in_order_applying [OF assms(2) Done(2)] by (metis append_Nil2)
  have len: "length batch = hi - unat (lastApplied (node p))" using arg_cong [OF b(2), of length] by (simp del: upt_Suc)
  then have hi: "unat (lastApplied (node p)) + length batch = hi" "unat (lastApplied (node p)) < hi"
    using Done(3) by (cases batch; simp)+
  have "unat (Index (last batch)) = last [Suc (unat (lastApplied (node p))) ..< Suc hi]"
    using Done(3) b(2) by (metis last_map)
  also have "\<dots> = hi" using hi(2) by simp
  finally show ?thesis
    using b(1,3) hi(1) unfolding Done(1) by (auto simp: in_order_def sent_indexes_def word_le_nat_alt simp del: upt_Suc)
next
  case Quit
  have f: "lastApplied (node p') = lastApplied (node p)" "commitIndex (node p) \<le> commitIndex (node p')"
    "stopped (node p')" "sent_indexes p' = sent_indexes p"
    using Quit by (simp_all add: forward_def sent_indexes_def)
  have "\<exists>k. sent_indexes p = [1 ..< Suc k] \<and> k \<le> unat (commitIndex (node p))"
    using assms(2) by (rule in_order_sent)
  then show ?thesis
    using f assms(2) Quit(3) by (auto simp: in_order_def word_le_nat_alt)
qed

context raft_deployment
begin

lemma reachable_in_order:
  assumes "creachable D st c" "n \<in> M" "servers c n = Running p"
  shows "in_order p"
  using assms
proof (induction arbitrary: p rule: creachable.induct)
  case start
  then show ?case by (simp add: cinit_def)
next
  case (act c a c')
  show ?case
  proof (cases "servers c n")
    case (Running q)
    then show ?thesis
      using in_order_step [OF running_step [OF act(1,2) \<open>n \<in> M\<close> act(3)]] act by blast
  next
    case (Down s)
    then show ?thesis
      using booted [OF act(3) Down act(6)] by (simp add: in_order_def sent_indexes_def)
  qed
qed

lemma process_never_goes_back:
  assumes "creachable D st c" "bounded D c" "n \<in> M" "perform D a c = Some c'"
    and "servers c n = Running p" "servers c' n = Running p'"
  shows "currentTerm (node p) \<le> currentTerm (node p')" "commitIndex (node p) \<le> commitIndex (node p')"
    "lastApplied (node p) \<le> lastApplied (node p')" "lastApplied (node p') \<le> commitIndex (node p')"
    "currentTerm (node p') = currentTerm (node p) \<Longrightarrow> votedFor (node p) \<noteq> [] \<Longrightarrow>
       votedFor (node p') = votedFor (node p)"
    "\<exists>new. sent p' = sent p @ new"
proof -
  have s: "proc_step p p'" using running_step [OF assms] .
  have o: "in_order p" "in_order p'"
    using reachable_in_order [OF _ assms(3)] assms(1,2,4-6) creachable.act by blast+
  then show "lastApplied (node p') \<le> commitIndex (node p')" by (simp add: in_order_def)
  obtain b where b: "safe b" "cluster_rel c b" using reachable_rel [OF assms(1)] by blast
  have la: "lastApplied (node p) \<le> Index (last batch)" if "applying p = Some (batch, rest)" for batch rest
    using server_runningD(3) [OF b(2) assms(3,5)] that by (simp add: batch_rel_def)
  show "currentTerm (node p) \<le> currentTerm (node p')" "commitIndex (node p) \<le> commitIndex (node p')"
    "lastApplied (node p) \<le> lastApplied (node p')"
    "currentTerm (node p') = currentTerm (node p) \<Longrightarrow> votedFor (node p) \<noteq> [] \<Longrightarrow>
       votedFor (node p') = votedFor (node p)" "\<exists>new. sent p' = sent p @ new"
    using s by (cases; auto simp: forward_def dest: la)+
qed

end

end
