(* ===== verification/Raft_Progress.thy ===== *)
theory Raft_Progress
  imports Raft_Delivery
begin

text \<open>
  What goes right when the network, the disks and the consumer of the deliveries let it: the applier of a server
  delivers everything that is committed, and a leader that can exchange messages with a majority brings their logs up to its own, however far they
  diverge, and commits its log.
\<close>

section \<open>Progress of the applier\<close>

text \<open>
  The applier goroutine is deterministic: \<open>applier_turn\<close> is its next action. \<open>backlog\<close> counts the actions it
  still has to take before everything that is committed now is delivered.
\<close>

definition applier_turn :: "NodeID \<Rightarrow> 's proc \<Rightarrow> 'd action" where
  "applier_turn n p =
     (case applying p of
        None \<Rightarrow> TakeBatch n
      | Some (batch, rest) \<Rightarrow> if rest = [] then BatchDone n else Deliver n)"

definition backlog_after :: "u64 \<Rightarrow> u64 \<Rightarrow> nat" where
  "backlog_after applied committed =
     (if applied < committed then unat committed - unat applied + 2 else 0)"

definition backlog :: "'s proc \<Rightarrow> nat" where
  "backlog p =
     (case applying p of
        None \<Rightarrow> backlog_after (lastApplied (node p)) (commitIndex (node p))
      | Some (batch, rest) \<Rightarrow>
          Suc (length rest + backlog_after (Index (last batch)) (commitIndex (node p))))"

text \<open>
  The one thing the applier waits for is the service that receives the deliveries: it has a message to send and the
  channel has no room. \<open>delivery_turn\<close> is the next action of the applier together with a service that receives
  whenever the applier waits for it. \<open>delivery_work\<close> counts the actions of both that are left.
\<close>

definition awaits_consumer :: "'s proc \<Rightarrow> bool" where
  "awaits_consumer p \<longleftrightarrow> room p = 0 \<and> (\<exists>batch e rest. applying p = Some (batch, e # rest))"

definition delivery_turn :: "NodeID \<Rightarrow> 's proc \<Rightarrow> 'd action" where
  "delivery_turn n p = (if awaits_consumer p then Receive n else applier_turn n p)"

definition unsent :: "'s proc \<Rightarrow> nat" where
  "unsent p = unat (commitIndex (node p)) - length (sent p)"

definition delivery_work :: "'s proc \<Rightarrow> nat" where
  "delivery_work p = backlog p + (unsent p - room p)"

text \<open>\<open>turns D n k c\<close>: the applier of server \<open>n\<close> and its service take their next \<open>k\<close> actions, and nothing else runs.\<close>

fun turns :: "('s, 'd) deployment \<Rightarrow> NodeID \<Rightarrow> nat \<Rightarrow> 's cluster \<Rightarrow> 's cluster option" where
  "turns D n 0 c = Some c"
| "turns D n (Suc k) c =
     (case servers c n of
        Running p \<Rightarrow> (case perform D (delivery_turn n p) c of Some c' \<Rightarrow> turns D n k c' | None \<Rightarrow> None)
      | Down s \<Rightarrow> None)"

definition ready_to_apply :: "'s proc \<Rightarrow> bool" where
  "ready_to_apply p \<longleftrightarrow> Applier \<in> set (threads (node p)) \<and> \<not> stopped (node p)"

lemma actor_applier_turn [simp]: "actor (applier_turn n p) = n"
  by (simp add: applier_turn_def split: option.splits)

lemma actor_delivery_turn [simp]: "actor (delivery_turn n p) = n"
  by (simp add: delivery_turn_def)

lemma bounded_update:
  assumes "bounded D c" "servers c n = Running p" "servers c' = (servers c)(n := Running q)"
    and "currentTerm (node q) = currentTerm (node p)" "log (node q) = log (node p)"
  shows "bounded D c'"
  unfolding bounded_def
proof
  fix m assume "m \<in> set (dMembers D)"
  then show "case servers c' m of Running p \<Rightarrow> node_bounded (node p) | Down s \<Rightarrow> True"
    using assms unfolding bounded_def by (cases "m = n") (fastforce simp: node_bounded_def)+
qed

lemma backlog_idle:
  assumes "in_order p" "backlog p = 0" "\<not> stopped (node p)"
  shows "sent_indexes p = [1 ..< Suc (unat (commitIndex (node p)))]" "lastApplied (node p) = commitIndex (node p)"
proof -
  have a: "applying p = None" "\<not> lastApplied (node p) < commitIndex (node p)"
    using assms(2) by (auto simp: backlog_def backlog_after_def split: option.splits if_splits)
  then show l: "lastApplied (node p) = commitIndex (node p)" using assms(1) by (simp add: in_order_def)
  show "sent_indexes p = [1 ..< Suc (unat (commitIndex (node p)))]"
    using a(1) assms(1,3) l by (auto simp: in_order_def)
qed

lemma backlog_bound:
  assumes "in_order p"
  shows "backlog p \<le> unat (commitIndex (node p)) + 3"
proof (cases "applying p")
  case None
  then show ?thesis by (simp add: backlog_def backlog_after_def le_SucI)
next
  case (Some x)
  obtain batch rest where x: "x = (batch, rest)" by (cases x)
  obtain old hi where b: "batch = old @ rest" "batch \<noteq> []" "hi \<le> unat (commitIndex (node p))"
    "map (\<lambda>e. unat (Index e)) batch = [Suc (unat (lastApplied (node p))) ..< Suc hi]"
    using in_order_applying [OF assms Some [unfolded x]] by metis
  have len: "length old + length rest = hi - unat (lastApplied (node p))"
    using arg_cong [OF b(4), of length] b(1) by (simp del: upt_Suc)
  moreover have "0 < length old + length rest" using b(1,2) by (cases old) auto
  ultimately have "unat (lastApplied (node p)) < hi" by simp
  moreover have "unat (Index (last batch)) = last (map (\<lambda>e. unat (Index e)) batch)" using b(2) by (simp add: last_map)
  ultimately have "unat (Index (last batch)) = hi" using b(4) by simp
  moreover have "length rest \<le> hi" using len by linarith
  ultimately show ?thesis using b(3) by (auto simp: backlog_def backlog_after_def Some x)
qed

lemma delivery_work_bound: "in_order p \<Longrightarrow> delivery_work p \<le> 2 * unat (commitIndex (node p)) + 3"
  using backlog_bound [of p] by (simp add: delivery_work_def unsent_def)

context raft_deployment
begin

lemma applier_turn_progress:
  assumes "creachable D st c" "n \<in> M" "servers c n = Running p" "ready_to_apply p" "backlog p = Suc k"
    and "\<not> awaits_consumer p"
  obtains c' q where "perform D (applier_turn n p) c = Some c'" "servers c' = (servers c)(n := Running q)"
    "backlog q = k" "ready_to_apply q" "commitIndex (node q) = commitIndex (node p)"
    "currentTerm (node q) = currentTerm (node p)" "log (node q) = log (node p)" "unsent q - room q = unsent p - room p"
proof (cases "applying p")
  case None
  obtain a where a: "safe a" "cluster_rel c a" using reachable_rel [OF assms(1)] by blast
  have lt: "lastApplied (node p) < commitIndex (node p)" "\<not> stopped (node p)"
    using assms(4,5) None by (auto simp: backlog_def backlog_after_def ready_to_apply_def split: if_splits)
  obtain es where es: "applier_batch (node p) = Ok (Some es)" "es \<noteq> []"
    "map (\<lambda>e. unat (Index e)) es = [Suc (unat (lastApplied (node p))) ..< Suc (unat (commitIndex (node p)))]"
    using applier_batch_ok [OF a(1) server_runningD(1) [OF a(2) assms(2,3)] lt(2,1)] by blast
  let ?q = "p\<lparr>applying := Some (es, es)\<rparr>"
  have "unat (Index (last es)) = last (map (\<lambda>e. unat (Index e)) es)" using es(2) by (simp add: last_map)
  also have "\<dots> = unat (commitIndex (node p))" unfolding es(3) using lt(1) by (auto simp: word_less_nat_alt)
  finally have l: "Index (last es) = commitIndex (node p)" by (simp add: word_unat_eq_iff)
  have "length es = unat (commitIndex (node p)) - unat (lastApplied (node p))"
    using arg_cong [OF es(3), of length] by (simp del: upt_Suc)
  then have "backlog ?q = k" using assms(5) None lt(1) l by (simp add: backlog_def backlog_after_def)
  then show thesis
    using that [of "set_server n (Running ?q) c" ?q] None es(1) assms(2-4)
    by (simp add: applier_turn_def perform_def proc_action_def take_batch_def set_server_def ready_to_apply_def
        unsent_def)
next
  case (Some x)
  obtain batch rest where x: "x = (batch, rest)" by (cases x)
  show thesis
  proof (cases rest)
    case (Cons e es)
    let ?q = "p\<lparr>applying := Some (batch, es), sent := sent p @ [apply_msg e], room := room p - 1\<rparr>"
    have "0 < room p" using assms(6) Some x Cons by (auto simp: awaits_consumer_def)
    then show thesis
      using that [of "(set_server n (Running ?q) c)\<lparr>delivered := insert (n, apply_msg e) (delivered c)\<rparr>" ?q]
        Some x Cons assms(2-5)
      by (simp add: applier_turn_def perform_def proc_action_def deliver_def set_server_def ready_to_apply_def
          backlog_def unsent_def)
  next
    case Nil
    obtain a where a: "safe a" "cluster_rel c a" using reachable_rel [OF assms(1)] by blast
    have b: "batch \<noteq> []" using server_runningD(3) [OF a(2) assms(2,3)] Some x by (auto simp: batch_rel_def)
    let ?q = "p\<lparr>applying := None, node := (node p)\<lparr>lastApplied := Index (last batch)\<rparr>\<rparr>"
    show thesis
      using that [of "set_server n (Running ?q) c" ?q] Some x Nil b assms(2-5)
      by (simp add: applier_turn_def perform_def proc_action_def batch_done_def applier_done_def index_at_last
          settle_def set_server_def ready_to_apply_def backlog_def unsent_def)
  qed
qed

lemma awaits_consumer_unsent:
  assumes "in_order p" "awaits_consumer p"
  shows "0 < unsent p" "0 < backlog p"
proof -
  obtain batch e rest where a: "applying p = Some (batch, e # rest)"
    using assms(2) by (auto simp: awaits_consumer_def)
  obtain old hi where b: "batch = old @ e # rest" "hi \<le> unat (commitIndex (node p))"
    "map (\<lambda>e. unat (Index e)) batch = [Suc (unat (lastApplied (node p))) ..< Suc hi]"
    "sent_indexes p = [1 ..< Suc (unat (lastApplied (node p)) + length old)]"
    using in_order_applying [OF assms(1) a] by metis
  have "length old + Suc (length rest) = hi - unat (lastApplied (node p))"
    using arg_cong [OF b(3), of length] b(1) by (simp del: upt_Suc)
  moreover have "length (sent p) = unat (lastApplied (node p)) + length old"
    using arg_cong [OF b(4), of length] by (simp add: sent_indexes_def del: upt_Suc)
  ultimately show "0 < unsent p" using b(2) by (simp add: unsent_def)
  show "0 < backlog p" by (simp add: backlog_def a)
qed

text \<open>An applier that is not idle is blocked exactly when it waits for the service.\<close>

lemma applier_blocked:
  assumes "creachable D st c" "n \<in> M" "servers c n = Running p" "ready_to_apply p" "0 < backlog p"
  shows "perform D (applier_turn n p) c = None \<longleftrightarrow> awaits_consumer p"
proof
  assume "awaits_consumer p"
  then show "perform D (applier_turn n p) c = None"
    using assms(3) by (auto simp: awaits_consumer_def applier_turn_def perform_def proc_action_def deliver_def)
next
  assume none: "perform D (applier_turn n p) c = None"
  obtain k where k: "backlog p = Suc k" using assms(5) gr0_implies_Suc by blast
  show "awaits_consumer p"
  proof (rule ccontr)
    assume "\<not> awaits_consumer p"
    then show False using applier_turn_progress [OF assms(1-4) k] none by fastforce
  qed
qed

lemma delivery_turn_progress:
  assumes "creachable D st c" "n \<in> M" "servers c n = Running p" "ready_to_apply p" "delivery_work p = Suc k"
  obtains c' q where "perform D (delivery_turn n p) c = Some c'" "servers c' = (servers c)(n := Running q)"
    "delivery_work q = k" "ready_to_apply q" "commitIndex (node q) = commitIndex (node p)"
    "currentTerm (node q) = currentTerm (node p)" "log (node q) = log (node p)"
proof -
  have o: "in_order p" using reachable_in_order [OF assms(1-3)] .
  show thesis
  proof (cases "awaits_consumer p")
    case True
    let ?q = "p\<lparr>room := Suc (room p)\<rparr>"
    have "backlog ?q = backlog p" "unsent ?q = unsent p" by (simp_all add: backlog_def unsent_def split: option.split)
    moreover have "room p = 0" using True by (simp add: awaits_consumer_def)
    ultimately have "delivery_work ?q = k"
      using assms(5) awaits_consumer_unsent(1) [OF o True] by (simp add: delivery_work_def)
    then show thesis
      using that [of "set_server n (Running ?q) c" ?q] assms(2-4) True
      by (simp add: delivery_turn_def perform_def proc_action_def set_server_def ready_to_apply_def)
  next
    case False
    have "0 < backlog p"
    proof (rule ccontr)
      assume "\<not> 0 < backlog p"
      then have "sent_indexes p = [1 ..< Suc (unat (commitIndex (node p)))]" "backlog p = 0"
        using backlog_idle(1) [OF o] assms(4) by (auto simp: ready_to_apply_def)
      then have "length (sent_indexes p) = unat (commitIndex (node p))" by (simp del: upt_Suc)
      then have "unsent p = 0" by (simp add: unsent_def sent_indexes_def)
      then show False using assms(5) \<open>backlog p = 0\<close> by (simp add: delivery_work_def)
    qed
    then obtain i where i: "backlog p = Suc i" using gr0_implies_Suc by blast
    show thesis
    proof (rule applier_turn_progress [OF assms(1-4) i False])
      fix c' q
      assume q: "perform D (applier_turn n p) c = Some c'" "servers c' = (servers c)(n := Running q)"
        "backlog q = i" "ready_to_apply q" "commitIndex (node q) = commitIndex (node p)"
        "currentTerm (node q) = currentTerm (node p)" "log (node q) = log (node p)"
        "unsent q - room q = unsent p - room p"
      then show thesis
        using assms(5) i False by (intro that [of c' q]) (simp_all add: delivery_work_def delivery_turn_def)
    qed
  qed
qed

lemma applier_finishes:
  assumes "creachable D st c" "bounded D c" "n \<in> M" "servers c n = Running p" "ready_to_apply p"
  shows "\<exists>c' q. turns D n (delivery_work p) c = Some c' \<and> creachable D st c' \<and> servers c' n = Running q \<and>
    commitIndex (node q) = commitIndex (node p) \<and> lastApplied (node q) = commitIndex (node p) \<and>
    sent_indexes q = [1 ..< Suc (unat (commitIndex (node p)))]"
  using assms
proof (induction "delivery_work p" arbitrary: c p)
  case 0
  then have "backlog p = 0" by (simp add: delivery_work_def)
  then show ?case
    using 0 backlog_idle [OF reachable_in_order [OF 0(2,4,5)]] by (auto simp: ready_to_apply_def)
next
  case (Suc k)
  obtain c' q where q: "perform D (delivery_turn n p) c = Some c'" "servers c' = (servers c)(n := Running q)"
    "delivery_work q = k" "ready_to_apply q" "commitIndex (node q) = commitIndex (node p)"
    "currentTerm (node q) = currentTerm (node p)" "log (node q) = log (node p)"
    using delivery_turn_progress [OF Suc(3,5,6,7) Suc(2) [symmetric]] .
  have "creachable D st c'" using creachable.act [OF Suc(3,4) q(1)] .
  moreover have "bounded D c'" using bounded_update [OF Suc(4,6) q(2,6,7)] .
  ultimately have "\<exists>c'' r. turns D n (delivery_work q) c' = Some c'' \<and> creachable D st c'' \<and>
      servers c'' n = Running r \<and>
      commitIndex (node r) = commitIndex (node q) \<and> lastApplied (node r) = commitIndex (node q) \<and>
      sent_indexes r = [1 ..< Suc (unat (commitIndex (node q)))]"
    using Suc(1) [of q c'] q(2-4) Suc(5) by simp
  then show ?case using q(1,3,5) Suc(2,6) by (auto simp del: upt_Suc simp flip: Suc(2))
qed

end

section \<open>Progress of replication\<close>

text \<open>
  A leader and a follower exchange AppendEntries messages: the leader's loop starts a goroutine for the follower,
  which sends a request; the follower answers, and the goroutine handles the reply.
\<close>

definition exchange :: "NodeID \<Rightarrow> NodeID \<Rightarrow> u64 \<Rightarrow> 'd action \<Rightarrow> bool" where
  "exchange n m t a \<longleftrightarrow>
     (case a of
        Heartbeat k u \<Rightarrow> k = n \<and> u = t
      | Replicate k l u \<Rightarrow> k = n \<and> l = m \<and> u = t
      | RecvAppend k l args ev \<Rightarrow> k = n \<and> l = m
      | AppendReply k l u args reply ev \<Rightarrow> k = n \<and> l = m \<and> u = t
      | _ \<Rightarrow> False)"

definition leading :: "NodeID \<Rightarrow> u64 \<Rightarrow> 's cluster \<Rightarrow> 's proc \<Rightarrow> bool" where
  "leading n t c p \<longleftrightarrow> servers c n = Running p \<and> role (node p) = Leader \<and> currentTerm (node p) = t \<and>
     LeaderLoop t \<in> set (threads (node p)) \<and> \<not> stopped (node p)"

definition listening :: "NodeID \<Rightarrow> u64 \<Rightarrow> 's cluster \<Rightarrow> 's proc \<Rightarrow> bool" where
  "listening m t c q \<longleftrightarrow> servers c m = Running q \<and> \<not> stopped (node q) \<and> currentTerm (node q) \<le> t"

definition linked :: "NodeID \<Rightarrow> NodeID \<Rightarrow> u64 \<Rightarrow> 's cluster \<Rightarrow> 's proc \<Rightarrow> 's proc \<Rightarrow> bool" where
  "linked n m t c p q \<longleftrightarrow> leading n t c p \<and> listening m t c q"

lemmas linked_defs = linked_def leading_def listening_def

text \<open>What exchanges of the leader \<open>n\<close> with the followers of the set \<open>S\<close> leave alone.\<close>

definition passes ::
  "NodeID \<Rightarrow> NodeID set \<Rightarrow> 's cluster \<Rightarrow> 's proc \<Rightarrow> 's cluster \<Rightarrow> 's proc \<Rightarrow> bool" where
  "passes n S c p c' p' \<longleftrightarrow> log (node p') = log (node p) \<and> (\<forall>k. k \<notin> S \<longrightarrow>
     map_get (nextIndex (node p')) k = map_get (nextIndex (node p)) k \<and>
     map_get (matchIndex (node p')) k = map_get (matchIndex (node p)) k \<and>
     (k \<noteq> n \<longrightarrow> servers c' k = servers c k))"

lemma passes_refl [simp]: "passes n S c p c p"
  by (simp add: passes_def)

lemma passes_trans: "passes n S c p c1 p1 \<Longrightarrow> passes n T c1 p1 c2 p2 \<Longrightarrow> passes n (S \<union> T) c p c2 p2"
  by (simp add: passes_def)

text \<open>The commit index has reached the end of the log if a quorum has the log and its last entry is of this term.\<close>

definition quorum_committed :: "'s Node \<Rightarrow> bool" where
  "quorum_committed nd \<longleftrightarrow> (let i = end_index (log nd)
     in fst (term_of (log nd) i) = currentTerm nd \<and> quorum nd \<le> replica_count nd i \<longrightarrow> i \<le> commitIndex nd)"

lemma advance_committed: "quorum_committed (advance_commit nd)"
proof (cases "quorum_committed nd")
  case True
  have "quorum_committed (advance_scan nd i)" if "quorum_committed nd" for i
    using that
    by (induction nd i rule: advance_scan.induct)
      (subst advance_scan.simps, auto simp: quorum_committed_def quorum_def replica_count_def Let_def intro: order_trans less_imp_le)
  then show ?thesis using True by (simp add: advance_commit_def)
next
  case False
  then show ?thesis unfolding advance_commit_def
    by (subst advance_scan.simps) (auto simp: quorum_committed_def Let_def)
qed

text \<open>
  How far the leader is from knowing that the follower has its log \<open>L\<close>: \<open>i\<close> entries are before the next one it
  sends, and \<open>j\<close> are known to be stored. While the follower's log \<open>l\<close> disagrees at \<open>i\<close>, the leader steps back one
  by one; from the first agreement on it moves forward.
\<close>

definition agree_at :: "'c alog \<Rightarrow> 'c alog \<Rightarrow> nat \<Rightarrow> bool" where
  "agree_at l L i \<longleftrightarrow> i \<le> length l \<and> last_term (take i l) = last_term (take i L)"

definition gap :: "'c alog \<Rightarrow> 'c alog \<Rightarrow> nat \<Rightarrow> nat \<Rightarrow> nat" where
  "gap l L i j =
     (if agree_at l L i then if i = length L \<and> j = length L then 0 else Suc (length L - i)
      else length L + 2 + i)"

lemma agree_at_0 [simp]: "agree_at l L 0"
  by (simp add: agree_at_def)

lemma gap_stored:
  assumes "agree_at l L i" "k = i + len" "k \<le> length L" "i < length L \<Longrightarrow> 0 < len" "gap l L i j \<noteq> 0"
    and "j \<le> length L" "agree_at l' L k"
  shows "gap l' L k (max j k) < gap l L i j"
  using assms by (auto simp: gap_def split: if_splits)

lemma gap_rejected: "\<not> agree_at l L i \<Longrightarrow> gap l L (i - 1) j' < gap l L i j"
  by (cases i) (auto simp: gap_def)

lemma gap_bound: "i \<le> length L \<Longrightarrow> gap l L i j \<le> 2 * length L + 2"
  by (auto simp: gap_def)

definition proc_gap :: "NodeID \<Rightarrow> 's proc \<Rightarrow> 's proc \<Rightarrow> nat" where
  "proc_gap m p q = gap (alog_of (entries (log (node q)))) (alog_of (entries (log (node p))))
     (unat (map_get (nextIndex (node p)) m) - 1) (unat (map_get (matchIndex (node p)) m))"

text \<open>\<open>caught_up n t c p m\<close>: the follower \<open>m\<close> has the whole log of the leader, and the leader knows.\<close>

definition caught_up :: "NodeID \<Rightarrow> u64 \<Rightarrow> 's cluster \<Rightarrow> 's proc \<Rightarrow> NodeID \<Rightarrow> bool" where
  "caught_up n t c p m \<longleftrightarrow> (\<exists>q. linked n m t c p q \<and> proc_gap m p q = 0)"

context raft_deployment
begin

lemma append_result:
  assumes "safe a" "node_rel m nd a" "append_req n args a" "\<not> stopped nd" "currentTerm nd \<le> aeTerm args"
  defines "k \<equiv> unat (PrevLogIndex args) + length (Entries args)"
  shows "on_Ok (\<lambda>(x, r). \<exists>reply. r = Inr reply \<and> aerTerm reply = aeTerm args \<and> currentTerm x = aeTerm args \<and>
      \<not> stopped x \<and> Success reply = agrees (log nd) (PrevLogIndex args) (PrevLogTerm args) \<and>
      alog_of (entries (log x)) = (if Success reply then adopt_prefix (lg a m) (ll a (unat (aeTerm args))) k else lg a m))
    (HandleAppendEntries sv ev args nd)" (is "on_Ok ?Q _")
proof -
  note rel = node_relD [OF assms(2)] and pl = node_plain [OF assms(2)]
  let ?same = "\<lambda>x. log x = log nd \<and> \<not> stopped x \<and> currentTerm x = aeTerm args"
  have timer: "on_Ok ?same (resetElectionTimer ev x)" if "?same x" for x
    using that by (simp add: resetElectionTimer_def Let_def)
  have follow: "on_Ok ?same (becomeFollower sv ev (aeTerm args) x)"
    if "log x = log nd" "\<not> stopped x" "currentTerm x \<le> aeTerm args" for x
    using that unfolding becomeFollower_def Let_def
    by (auto simp: not_less resetElectionTimer_def Let_def split: prod.split option.split)
  have store: "on_Ok (\<lambda>y. alog_of (entries (log y)) = adopt_prefix (lg a m) (ll a (unat (aeTerm args))) k \<and>
      \<not> stopped y \<and> currentTerm y = aeTerm args) (store_entries sv (Entries args) x)"
    if "?same x" "agrees (log nd) (PrevLogIndex args) (PrevLogTerm args)" for x
    using store_log [OF assms(1), of x m n args "unat (aeTerm args)" k sv] that pl rel(7) assms(3)
    by (auto simp: k_def split: prod.split option.split)
  have seen: "on_Ok (\<lambda>(x, b). ?same x) (observeTerm sv ev (aeTerm args) nd)"
    using follow [of nd] assms(4,5) by (auto simp: observeTerm_def elim!: on_Ok_mono)
  have down: "on_Ok ?same (if role x \<noteq> Follower then becomeFollower sv ev (aeTerm args) x else Ok x)" if "?same x" for x
    using follow [of x] that by simp
  let ?commit = "min (LeaderCommit args) (PrevLogIndex args + of_nat (length (Entries args)))"
  have body: "on_Ok ?Q (within x (matches (log x) (PrevLogIndex args) (PrevLogTerm args))
      (\<lambda>ok. if \<not> ok then Ok (x, Inr \<lparr>aerTerm = aeTerm args, Success = False\<rparr>)
      else andThen (store_entries sv (Entries args) x)
        (\<lambda>n. Ok ((if ?commit > commitIndex n then n\<lparr>commitIndex := ?commit\<rparr> else n),
                 Inr (\<lparr>aerTerm = aeTerm args, Success = True\<rparr>)))))" if "?same x" for x
  proof (cases "agrees (log nd) (PrevLogIndex args) (PrevLogTerm args)")
    case True
    then show ?thesis using on_Ok_mono [OF store [OF that True]] that node_reads(5) [OF assms(2)] by auto
  next
    case False
    then show ?thesis using that rel(7) node_reads(5) [OF assms(2)] by simp
  qed
  have rest: "on_Ok ?Q (andThen (if role x \<noteq> Follower then becomeFollower sv ev (aeTerm args) x else Ok x)
        (\<lambda>n. andThen (resetElectionTimer ev (n\<lparr>leaderID := LeaderID args\<rparr>))
        (\<lambda>n. within n (matches (log n) (PrevLogIndex args) (PrevLogTerm args))
        (\<lambda>ok. if \<not> ok then Ok (n, Inr \<lparr>aerTerm = aeTerm args, Success = False\<rparr>)
             else andThen (store_entries sv (Entries args) n)
               (\<lambda>n. Ok ((if ?commit > commitIndex n then n\<lparr>commitIndex := ?commit\<rparr> else n),
                        Inr (\<lparr>aerTerm = aeTerm args, Success = True\<rparr>)))))))" if "?same x" for x
    by (rule on_Ok_andThenI [OF down [OF that]], rule on_Ok_andThenI [OF timer]) (simp, rule body)
  show ?thesis
    unfolding HandleAppendEntries_def Let_def if_not_P [OF assms(4)]
    by (rule on_Ok_andThenI [OF seen], clarsimp simp del: on_Ok_simps(3) split del: if_split)
      (use rest in \<open>simp del: on_Ok_simps(3) split del: if_split cong: if_cong\<close>)
qed

lemma leader_request:
  assumes "safe a" "node_rel n nd a" "role nd = Leader" "m \<in> M - {n}"
  obtains args where "replicateTo_request m (currentTerm nd) nd = Ok (Some args)"
    "aeTerm args = currentTerm nd" "append_req n args a"
    "map_get (nextIndex nd) m = PrevLogIndex args + 1"
    "unat (map_get (nextIndex nd) m) = Suc (unat (PrevLogIndex args))"
    "unat (PrevLogIndex args) + length (Entries args) \<le> length (alog_of (entries (log nd)))"
    "unat (PrevLogIndex args) < length (alog_of (entries (log nd))) \<Longrightarrow> Entries args \<noteq> []"
proof -
  note pl = node_plain [OF assms(2)]
  let ?next = "map_get (nextIndex nd) m" and ?L = "alog_of (entries (log nd))"
  obtain args where args: "replicateTo_request m (currentTerm nd) nd = Ok (Some args)"
    "aeTerm args = currentTerm nd" "append_req n args a"
    using replicateTo_request_ok [OF assms(1,2,4), of "currentTerm nd"] assms(3)
    by (auto simp: replicateTo_request_def Let_def within_eq_Ok split: prod.splits)
  have nxt: "0 < ?next" using node_relD(14) [OF assms(2,3)] assms(4) by (auto simp: leader_rel_def)
  obtain es where es: "entriesFrom (log nd) ?next (MaxEntriesPerAppend (cfg nd)) = Ok es"
    "length es = (let r = length ?L + 1 - unat ?next
       in if MaxEntriesPerAppend (cfg nd) > 0 then min r (nat (MaxEntriesPerAppend (cfg nd))) else r)"
    using plain_entriesFrom [OF pl nxt] by metis
  have prev: "PrevLogIndex args = ?next - 1" "Entries args = es"
    using args(1) assms(3) es(1) by (auto simp: replicateTo_request_def Let_def within_eq_Ok split: prod.splits)
  have sc: "unat ?next = Suc (unat (PrevLogIndex args))"
    unfolding prev(1) using nxt by (simp add: unat_dec word_less_nat_alt)
  have "unat (PrevLogIndex args) + length (Entries args) \<le> length ?L"
    using args(2,3) leader_log(2) [OF assms(1-3)] by (simp add: append_req_def Let_def)
  moreover have "Entries args \<noteq> []" if "unat (PrevLogIndex args) < length ?L"
    using es(2) that sc by (auto simp: prev(2) Let_def split: if_splits)
  ultimately show thesis using that [OF args _ sc] prev(1) by simp
qed

lemma reply_result:
  assumes "\<not> stopped nd" "role nd = Leader" "aerTerm reply = currentTerm nd"
    and "map_get (nextIndex nd) m = PrevLogIndex args + 1" "log_wf (log nd)"
  defines "match \<equiv> PrevLogIndex args + of_nat (length (Entries args))"
  obtains x where "replicateTo_reply sv ev m (currentTerm nd) args reply nd = Ok x" "log x = log nd"
    "role x = Leader" "currentTerm x = currentTerm nd" "\<not> stopped x" "set (threads nd) \<subseteq> set (threads x)"
    "Success reply \<longrightarrow> map_get (nextIndex x) m = max (PrevLogIndex args + 1) (match + 1)"
    "Success reply \<longrightarrow> map_get (matchIndex x) m = max (map_get (matchIndex nd) m) match"
    "\<not> Success reply \<and> 0 < PrevLogIndex args \<longrightarrow> map_get (nextIndex x) m = PrevLogIndex args"
    "\<forall>k. k \<noteq> m \<longrightarrow> map_get (nextIndex x) k = map_get (nextIndex nd) k \<and>
       map_get (matchIndex x) k = map_get (matchIndex nd) k"
    "Success reply \<longrightarrow> quorum_committed x"
proof (cases "Success reply")
  case True
  let ?x = "nd\<lparr>matchIndex := (matchIndex nd)(m \<mapsto> max (map_get (matchIndex nd) m) match),
    nextIndex := (nextIndex nd)(m \<mapsto> max (map_get (nextIndex nd) m) (match + 1))\<rparr>"
  have "?x = ?x\<lparr>commitIndex := commitIndex ?x\<rparr>" by simp
  then obtain j where j: "advance_commit ?x = ?x\<lparr>commitIndex := j\<rparr>"
    using advance_scan_result [of ?x "end_index (log ?x)"] unfolding advance_commit_def by metis
  moreover have "replicateTo_reply sv ev m (currentTerm nd) args reply nd = Ok (advance_commit ?x)"
    using assms(1-3,5) True by (simp add: replicateTo_reply_def observeTerm_def advanceCommitIndex_wf match_def Let_def)
  ultimately show thesis
    using assms(1,2,4) True advance_committed [of ?x]
    by (intro that [of "?x\<lparr>commitIndex := j\<rparr>"]) (simp_all add: map_get_def)
next
  case False
  then show thesis
    using assms(1-4) by (intro that [of "if 0 < PrevLogIndex args
        then spawn (ReplicateTo m (currentTerm nd)) (nd\<lparr>nextIndex := (nextIndex nd)(m \<mapsto> PrevLogIndex args)\<rparr>) else nd"])
      (auto simp: replicateTo_reply_def observeTerm_def spawn_def map_get_def Let_def)
qed

lemma round_result:
  assumes "safe a" "node_rel n nd a" "node_rel m fd a" "m \<in> M - {n}" "role nd = Leader"
    and "\<not> stopped nd" "\<not> stopped fd" "currentTerm fd \<le> currentTerm nd"
    and "aeTerm args = currentTerm nd" "append_req n args a" "map_get (nextIndex nd) m = PrevLogIndex args + 1"
    and "unat (map_get (nextIndex nd) m) = Suc (unat (PrevLogIndex args))"
    and "unat (PrevLogIndex args) < length (alog_of (entries (log nd))) \<Longrightarrow> Entries args \<noteq> []"
    and "HandleAppendEntries (dSave D) ev args fd = Ok (x, r)"
  defines "G \<equiv> \<lambda>nd fd. gap (alog_of (entries (log fd))) (alog_of (entries (log nd)))
     (unat (map_get (nextIndex nd) m) - 1) (unat (map_get (matchIndex nd) m))"
  obtains reply y where "r = Inr reply" "replicateTo_reply (dSave D) ev m (currentTerm nd) args reply nd = Ok y"
    "log y = log nd" "role y = Leader" "currentTerm y = currentTerm nd" "\<not> stopped y"
    "set (threads nd) \<subseteq> set (threads y)" "\<not> stopped x" "currentTerm x = currentTerm nd"
    "length (alog_of (entries (log x))) \<le> max (length (alog_of (entries (log fd)))) (length (alog_of (entries (log nd))))"
    "\<forall>k. k \<noteq> m \<longrightarrow> map_get (nextIndex y) k = map_get (nextIndex nd) k \<and>
       map_get (matchIndex y) k = map_get (matchIndex nd) k"
    "G nd fd \<noteq> 0 \<longrightarrow> G y x < G nd fd" "G nd fd = 0 \<longrightarrow> G y x = 0 \<and> quorum_committed y"
proof -
  note rel = node_relD [OF assms(2)] and relf = node_relD [OF assms(3)]
  let ?L = "alog_of (entries (log nd))" and ?l = "alog_of (entries (log fd))" and ?l' = "alog_of (entries (log x))"
    and ?i = "unat (PrevLogIndex args)" and ?j = "unat (map_get (matchIndex nd) m)"
    and ?match = "PrevLogIndex args + of_nat (length (Entries args))"
  define k where "k = ?i + length (Entries args)"
  have ll: "ll a (unat (aeTerm args)) = ?L" using leader_log(2) [OF assms(1,2,5)] assms(9) by simp
  have req: "k \<le> length ?L" "unat (PrevLogTerm args) = last_term (take ?i ?L)" "int k < max_int"
    using assms(10) ll by (simp_all add: append_req_def Let_def k_def)
  have ct: "currentTerm fd \<le> aeTerm args" using assms(8,9) by simp
  have agree: "agrees (log fd) (PrevLogIndex args) (PrevLogTerm args) = agree_at ?l ?L ?i"
    using plain_agrees [OF node_plain [OF assms(3)]] req(2) by (auto simp: agree_at_def)
  obtain reply where reply: "r = Inr reply" "aerTerm reply = currentTerm nd" "currentTerm x = currentTerm nd"
    "\<not> stopped x" "Success reply = agree_at ?l ?L ?i"
    "?l' = (if Success reply then adopt_prefix ?l ?L k else ?l)"
    using append_result [OF assms(1,3,10,7) ct, of "dSave D" ev, folded k_def, unfolded assms(14) ll relf(7) agree]
      assms(9) by auto
  obtain y where y: "replicateTo_reply (dSave D) ev m (currentTerm nd) args reply nd = Ok y" "log y = log nd"
    "role y = Leader" "currentTerm y = currentTerm nd" "\<not> stopped y" "set (threads nd) \<subseteq> set (threads y)"
    "Success reply \<longrightarrow> map_get (nextIndex y) m = max (PrevLogIndex args + 1) (?match + 1)"
    "Success reply \<longrightarrow> map_get (matchIndex y) m = max (map_get (matchIndex nd) m) ?match"
    "\<not> Success reply \<and> 0 < PrevLogIndex args \<longrightarrow> map_get (nextIndex y) m = PrevLogIndex args"
    "\<forall>k. k \<noteq> m \<longrightarrow> map_get (nextIndex y) k = map_get (nextIndex nd) k \<and>
       map_get (matchIndex y) k = map_get (matchIndex nd) k" "Success reply \<longrightarrow> quorum_committed y"
    using reply_result [OF assms(6,5) reply(2) assms(11) node_log_wf [OF assms(2)], of "dSave D" ev] .
  have len: "length ?l' \<le> max (length ?l) (length ?L)"
    using reply(6) by (auto simp: adopt_prefix_def)
  have mt: "unat ?match = k" using req(3) unfolding k_def by (intro unat_plus_of_nat) linarith
  have stored: "unat (map_get (nextIndex y) m) - 1 = k" "unat (map_get (matchIndex y) m) = max ?j k" "agree_at ?l' ?L k"
    if "Success reply"
  proof -
    have m1: "unat (?match + 1) = Suc k" using req(3) unfolding mt [symmetric] by (intro unat_inc) linarith
    have "PrevLogIndex args + 1 \<le> ?match + 1"
      using m1 assms(11,12) by (simp add: word_le_nat_alt k_def)
    then show "unat (map_get (nextIndex y) m) - 1 = k" using y(7) that m1 by (simp add: max_absorb2)
    show "unat (map_get (matchIndex y) m) = max ?j k"
      using y(8) that mt by (auto simp: max_def word_le_nat_alt)
    show "agree_at ?l' ?L k" using adopt_gains [OF req(1), of ?l] reply(6) that by (simp add: agree_at_def)
  qed
  have G: "G nd fd = gap ?l ?L ?i ?j"
    "G y x = gap ?l' ?L (unat (map_get (nextIndex y) m) - 1) (unat (map_get (matchIndex y) m))"
    using assms(12) y(2) by (simp_all add: G_def)
  have dec: "G y x < G nd fd" if "G nd fd \<noteq> 0"
  proof (cases "Success reply")
    case True
    have "?j \<le> length ?L"
      using rel(14) assms(4,5) base_invD(10) [OF safe_invD(1) [OF assms(1)], of "unat (currentTerm nd)" m] ll assms(9)
      by (force simp: leader_rel_def)
    then show ?thesis
      using gap_stored [of ?l ?L ?i k "length (Entries args)" ?j ?l'] that reply(5) assms(13) req(1) stored [OF True] True
      by (simp add: G k_def)
  next
    case False
    then have "0 < ?i" using reply(5) agree_at_0 by (metis gr0I)
    then have "unat (map_get (nextIndex y) m) - 1 = ?i - 1" using y(9) False by (simp add: word_less_nat_alt)
    then show ?thesis using gap_rejected [of ?l ?L ?i] False reply(5,6) by (simp add: G)
  qed
  have keep: "G y x = 0 \<and> quorum_committed y" if "G nd fd = 0"
  proof -
    have 0: "agree_at ?l ?L ?i" "?i = length ?L" "?j = length ?L"
      using that by (auto simp: G gap_def split: if_splits)
    then have "Success reply" "k = length ?L" using reply(5) req(1) by (simp_all add: k_def)
    then show ?thesis using stored y(11) 0(3) by (simp add: G gap_def)
  qed
  show thesis by (rule that [OF reply(1) y(1-6) reply(4,3) len y(10)]) (use dec keep in blast)+
qed

lemma send_append:
  assumes "creachable D st c" "bounded D c" "n \<in> M" "m \<in> M" "n \<noteq> m" "linked n m t c p q"
  obtains c' p' ts args where "run D [Heartbeat n t, Replicate n m t] c = Some c'" "bounded D c'"
    "servers c' = (servers c)(n := Running p')" "node p' = (node p)\<lparr>threads := ts\<rparr>" "LeaderLoop t \<in> set ts"
    "(n, m, args) \<in> aereq c'" "(m, t, args) \<in> set (calls p')" "aeTerm args = t"
    "map_get (nextIndex (node p)) m = PrevLogIndex args + 1"
    "unat (map_get (nextIndex (node p)) m) = Suc (unat (PrevLogIndex args))"
    "unat (PrevLogIndex args) < length (alog_of (entries (log (node p)))) \<Longrightarrow> Entries args \<noteq> []"
proof -
  have l: "servers c n = Running p" "role (node p) = Leader" "currentTerm (node p) = t"
    "LeaderLoop t \<in> set (threads (node p))" "\<not> stopped (node p)" using assms(6) by (simp_all add: linked_defs)
  define ts where "ts = threads (node p) @ map (\<lambda>peer. ReplicateTo peer t) (peers (node p))"
  define p1 where "p1 = p\<lparr>node := (node p)\<lparr>threads := ts\<rparr>\<rparr>"
  define c1 where "c1 = set_server n (Running p1) c"
  have loop: "leaderLoop t (node p) = ((node p)\<lparr>threads := ts\<rparr>, True)"
    using l by (simp add: leaderLoop_def fold_spawn ts_def)
  have s1: "perform D (Heartbeat n t) c = Some c1"
    using l assms(3) by (simp add: perform_def proc_action_def heartbeat_def loop c1_def p1_def)
  have b1: "bounded D c1"
    using bounded_update [OF assms(2) l(1), of c1 p1] by (simp add: c1_def p1_def set_server_def)
  have c1n: "servers c1 n = Running p1" by (simp add: c1_def)
  have reach: "creachable D st c1" using creachable.act [OF assms(1,2) s1] .
  obtain a where a: "safe a" "cluster_rel c1 a" "node_rel n (node p1) a"
    using reachable_node [OF reach assms(3) c1n] .
  have mp: "m \<in> set (peers (node p))" using node_relD(4) [OF a(3)] assms(4,5) by (simp add: p1_def)
  have role1: "role (node p1) = Leader" "currentTerm (node p1) = t" using l by (simp_all add: p1_def)
  obtain args where args: "replicateTo_request m t (node p1) = Ok (Some args)" "aeTerm args = t"
    "map_get (nextIndex (node p)) m = PrevLogIndex args + 1"
    "unat (map_get (nextIndex (node p)) m) = Suc (unat (PrevLogIndex args))"
    "unat (PrevLogIndex args) < length (alog_of (entries (log (node p)))) \<Longrightarrow> Entries args \<noteq> []"
  proof (rule leader_request [OF a(1,3) role1(1), of m])
    show "m \<in> M - {n}" using assms(4,5) by simp
  qed (use that role1(2) in \<open>simp_all add: p1_def\<close>)
  define p2 where "p2 = (end_thread (ReplicateTo m t) p1)\<lparr>calls := calls p @ [(m, t, args)]\<rparr>"
  define c2 where "c2 = (set_server n (Running p2) c1)\<lparr>aereq := insert (n, m, args) (aereq c1)\<rparr>"
  have th: "ReplicateTo m t \<in> set (threads (node p1))" using mp by (simp add: p1_def ts_def)
  have "calls (end_thread (ReplicateTo m t) p1) = calls p" by (simp add: end_thread_def p1_def)
  then have s2: "perform D (Replicate n m t) c1 = Some c2"
    using c1n assms(3) th args(1) by (simp add: perform_def proc_action_def replicate_call_def c2_def p2_def Let_def)
  have nd: "node p2 = (node p)\<lparr>threads := remove1 (ReplicateTo m t) ts\<rparr>"
    by (simp add: p2_def end_thread_def p1_def)
  have sv: "servers c2 = (servers c)(n := Running p2)" by (simp add: c2_def c1_def set_server_def)
  have b2: "bounded D c2" using bounded_update [OF assms(2) l(1) sv] by (simp add: nd)
  have ll: "LeaderLoop t \<in> set (remove1 (ReplicateTo m t) ts)" using l(4) by (simp add: ts_def in_set_remove1)
  show thesis
    by (rule that [of c2 p2 "remove1 (ReplicateTo m t) ts" args])
      (use s1 s2 assms(2) b1 b2 sv nd ll args(2-5) in \<open>simp_all add: c2_def p2_def\<close>)
qed

lemma bounded_running:
  "bounded D c \<Longrightarrow> n \<in> M \<Longrightarrow> servers c n = Running p \<Longrightarrow> node_bounded (node p)"
  by (auto simp: bounded_def dest: bspec [of _ _ n])

lemma appended_bounded:
  assumes "creachable D st c" "m \<in> M" "servers c m = Running q" "node_bounded nd" "node_bounded fd"
    and "plain (log nd)" "plain (log fd)"
    and "length (alog_of (entries (log (node q)))) \<le> max (length (alog_of (entries (log fd)))) (length (alog_of (entries (log nd))))"
    and "currentTerm (node q) = currentTerm nd"
  shows "node_bounded (node q)"
proof -
  obtain b where "node_rel m (node q) b" using reachable_node [OF assms(1-3)] by blast
  then have "plain (log (node q))" by (rule node_plain)
  then have "length (entries (log (node q))) \<le> max (length (entries (log fd))) (length (entries (log nd)))"
    using assms(6-8) plain_length by (auto simp: le_max_iff_disj)
  then show ?thesis using assms(4,5,9) by (auto simp: node_bounded_def le_max_iff_disj)
qed

lemma answer_append:
  assumes "creachable D st c" "bounded D c" "n \<in> M" "m \<in> M" "n \<noteq> m" "linked n m t c p q"
    and "(n, m, args) \<in> aereq c" "(m, t, args) \<in> set (calls p)" "aeTerm args = t"
    and "map_get (nextIndex (node p)) m = PrevLogIndex args + 1"
    and "unat (map_get (nextIndex (node p)) m) = Suc (unat (PrevLogIndex args))"
    and "unat (PrevLogIndex args) < length (alog_of (entries (log (node p)))) \<Longrightarrow> Entries args \<noteq> []"
  shows "\<exists>as c'. run D as c = Some c' \<and> (\<forall>a\<in>set as. exchange n m t a) \<and> length as \<le> 2 \<and>
    ((\<exists>s. servers c' m = Down s) \<or>
     (\<exists>p' q'. linked n m t c' p' q' \<and> bounded D c' \<and> passes n {m} c p c' p' \<and>
        (proc_gap m p q \<noteq> 0 \<longrightarrow> proc_gap m p' q' < proc_gap m p q) \<and>
        (proc_gap m p q = 0 \<longrightarrow> proc_gap m p' q' = 0 \<and> quorum_committed (node p'))))"
proof -
  have l: "servers c n = Running p" "servers c m = Running q" "role (node p) = Leader" "currentTerm (node p) = t"
    "\<not> stopped (node p)" "\<not> stopped (node q)" "currentTerm (node q) \<le> t" "LeaderLoop t \<in> set (threads (node p))"
    using assms(6) by (simp_all add: linked_defs)
  obtain a where a: "safe a" "cluster_rel c a" using reachable_rel [OF assms(1)] by blast
  note np = server_runningD [OF a(2) assms(3) l(1)] and nq = server_runningD(1) [OF a(2) assms(4) l(2)]
  let ?ev = "\<lparr>now = 0, draw = 0\<rparr>"
  show ?thesis
  proof (cases "HandleAppendEntries (dSave D) ?ev args (node q)")
    case (Panic e x)
    then have "run D [RecvAppend n m args ?ev] c = Some (set_server m (Down (storage x)) c)"
      using assms(2,4,7) l(2) by (simp add: perform_def proc_action_def recv_append_def settle_def)
    then show ?thesis by - (intro exI conjI, assumption, simp_all add: exchange_def)
  next
    case (Ok z)
    obtain x r where z: "z = (x, r)" by (cases z)
    obtain reply y where y: "r = Inr reply"
      "replicateTo_reply (dSave D) ?ev m (currentTerm (node p)) args reply (node p) = Ok y"
      "log y = log (node p)" "role y = Leader" "currentTerm y = currentTerm (node p)" "\<not> stopped y"
      "set (threads (node p)) \<subseteq> set (threads y)" "\<not> stopped x" "currentTerm x = currentTerm (node p)"
      "length (alog_of (entries (log x))) \<le>
         max (length (alog_of (entries (log (node q))))) (length (alog_of (entries (log (node p)))))"
      "\<forall>k. k \<noteq> m \<longrightarrow> map_get (nextIndex y) k = map_get (nextIndex (node p)) k \<and>
         map_get (matchIndex y) k = map_get (matchIndex (node p)) k"
      "proc_gap m p q \<noteq> 0 \<longrightarrow> proc_gap m (p\<lparr>node := y\<rparr>) (q\<lparr>node := x\<rparr>) < proc_gap m p q"
      "proc_gap m p q = 0 \<longrightarrow> proc_gap m (p\<lparr>node := y\<rparr>) (q\<lparr>node := x\<rparr>) = 0 \<and> quorum_committed y"
      by (rule round_result [OF a(1) np(1) nq _ _ _ l(6) _ _ msgs_relD(4) [OF np(4) assms(7)] _ _ _ Ok [unfolded z]])
        (use assms(4,5,9-12) l in \<open>simp_all add: proc_gap_def\<close>)
    let ?q = "q\<lparr>node := x\<rparr>"
    let ?c1 = "(set_server m (Running ?q) c)\<lparr>aerep := insert (n, m, args, reply) (aerep c)\<rparr>"
    let ?p = "p\<lparr>calls := remove1 (m, t, args) (calls p), node := y\<rparr>"
    let ?c2 = "set_server n (Running ?p) ?c1"
    have s1: "run D [RecvAppend n m args ?ev] c = Some ?c1"
      using assms(2,4,7) l(2) Ok by (simp add: perform_def proc_action_def recv_append_def settle_def z y(1))
    have bx: "node_bounded x"
      using appended_bounded [OF run_reachable [OF s1 assms(1)] assms(4), of ?q "node p" "node q"] y(9,10)
        bounded_running [OF assms(2,3) l(1)] bounded_running [OF assms(2,4) l(2)] node_plain [OF np(1)] node_plain [OF nq]
      by simp
    have b1: "bounded D ?c1" using assms(2) bx by (auto simp: bounded_def)
    have s2: "run D [RecvAppend n m args ?ev, AppendReply n m t args reply ?ev] c = Some ?c2"
      using run_append [of D "[RecvAppend n m args ?ev]" "[AppendReply n m t args reply ?ev]" c]
        s1 b1 l(1,4) assms(3,5,8) y(2) by (simp add: perform_def proc_action_def settle_def Let_def)
    have b2: "bounded D ?c2"
      using b1 bounded_running [OF assms(2,3) l(1)] y(3,5) by (auto simp: bounded_def node_bounded_def)
    have "linked n m t ?c2 ?p ?q" using y(4-9) l(4,8) assms(5) by (auto simp: linked_defs)
    moreover have "passes n {m} c p ?c2 ?p" using y(3,11) by (simp add: passes_def)
    moreover have "proc_gap m ?p ?q = proc_gap m (p\<lparr>node := y\<rparr>) ?q" by (simp add: proc_gap_def)
    ultimately show ?thesis
      using s2 b2 y(12,13)
      by - (intro exI conjI, assumption, simp add: exchange_def, simp, rule disjI2, intro exI conjI, assumption, simp_all)
  qed
qed

lemma exchange_round:
  assumes "creachable D st c" "bounded D c" "n \<in> M" "m \<in> M" "n \<noteq> m" "linked n m t c p q"
  shows "\<exists>as c'. run D as c = Some c' \<and> (\<forall>a\<in>set as. exchange n m t a) \<and> length as \<le> 4 \<and>
    ((\<exists>s. servers c' m = Down s) \<or>
     (\<exists>p' q'. linked n m t c' p' q' \<and> bounded D c' \<and> passes n {m} c p c' p' \<and>
        (proc_gap m p q \<noteq> 0 \<longrightarrow> proc_gap m p' q' < proc_gap m p q) \<and>
        (proc_gap m p q = 0 \<longrightarrow> proc_gap m p' q' = 0 \<and> quorum_committed (node p'))))"
proof -
  obtain c1 p1 ts args where s: "run D [Heartbeat n t, Replicate n m t] c = Some c1" "bounded D c1"
    "servers c1 = (servers c)(n := Running p1)" "node p1 = (node p)\<lparr>threads := ts\<rparr>" "LeaderLoop t \<in> set ts"
    "(n, m, args) \<in> aereq c1" "(m, t, args) \<in> set (calls p1)" "aeTerm args = t"
    "map_get (nextIndex (node p)) m = PrevLogIndex args + 1"
    "unat (map_get (nextIndex (node p)) m) = Suc (unat (PrevLogIndex args))"
    "unat (PrevLogIndex args) < length (alog_of (entries (log (node p)))) \<Longrightarrow> Entries args \<noteq> []"
    by (rule send_append [OF assms]) blast
  have "linked n m t c1 p1 q" using assms(5,6) s(3-5) by (simp add: linked_defs)
  then obtain as c' where as: "run D as c1 = Some c'" "\<forall>a\<in>set as. exchange n m t a" "length as \<le> 2"
    "(\<exists>s. servers c' m = Down s) \<or>
     (\<exists>p' q'. linked n m t c' p' q' \<and> bounded D c' \<and> passes n {m} c1 p1 c' p' \<and>
        (proc_gap m p1 q \<noteq> 0 \<longrightarrow> proc_gap m p' q' < proc_gap m p1 q) \<and>
        (proc_gap m p1 q = 0 \<longrightarrow> proc_gap m p' q' = 0 \<and> quorum_committed (node p')))"
    using answer_append [OF run_reachable [OF s(1) assms(1)] s(2) assms(3-5) _ s(6-8)] s(4,9-11) by fastforce
  have "run D ([Heartbeat n t, Replicate n m t] @ as) c = Some c'" using s(1) as(1) by (simp only: run_append option.case)
  moreover have "\<forall>a\<in>set ([Heartbeat n t, Replicate n m t] @ as). exchange n m t a" using as(2) by (auto simp: exchange_def)
  moreover have "length ([Heartbeat n t, Replicate n m t] @ as) \<le> 4" using as(3) by simp
  moreover have "passes n {m} c p c' p'" if "passes n {m} c1 p1 c' p'" for p'
    using that s(3,4) by (simp add: passes_def)
  moreover have "proc_gap m p1 q = proc_gap m p q" using s(4) by (simp add: proc_gap_def)
  ultimately show ?thesis using as(4) by metis
qed

lemma exchange_converges:
  assumes "creachable D st c" "bounded D c" "n \<in> M" "m \<in> M" "n \<noteq> m" "linked n m t c p q"
  shows "\<exists>as c'. run D as c = Some c' \<and> (\<forall>a\<in>set as. exchange n m t a) \<and> length as \<le> 4 * proc_gap m p q \<and>
    ((\<exists>s. servers c' m = Down s) \<or> (\<exists>p'. bounded D c' \<and> passes n {m} c p c' p' \<and> caught_up n t c' p' m))"
  using assms
proof (induction "proc_gap m p q" arbitrary: c p q rule: less_induct)
  case less
  show ?case
  proof (cases "proc_gap m p q = 0")
    case True
    then have "caught_up n t c p m" using less.prems(6) by (auto simp: caught_up_def)
    then show ?thesis
      using less.prems(2) by (intro exI [of _ "[]"] exI [of _ c] conjI disjI2 exI [of _ p]) simp_all
  next
    case False
    obtain as c1 where as: "run D as c = Some c1" "\<forall>a\<in>set as. exchange n m t a" "length as \<le> 4"
      "(\<exists>s. servers c1 m = Down s) \<or> (\<exists>p' q'. linked n m t c1 p' q' \<and> bounded D c1 \<and>
         passes n {m} c p c1 p' \<and> proc_gap m p' q' < proc_gap m p q)"
      using exchange_round [OF less.prems] False by blast
    from as(4) show ?thesis
    proof (elim disjE exE conjE)
      fix s assume "servers c1 m = Down s"
      then show ?thesis using as(1-3) False by (intro exI [of _ as] exI [of _ c1]) auto
    next
      fix p1 q1
      assume 1: "linked n m t c1 p1 q1" "bounded D c1" "passes n {m} c p c1 p1" "proc_gap m p1 q1 < proc_gap m p q"
      have "creachable D st c1" using run_reachable [OF as(1) less.prems(1)] .
      then obtain bs c' where bs: "run D bs c1 = Some c'" "\<forall>a\<in>set bs. exchange n m t a"
        "length bs \<le> 4 * proc_gap m p1 q1" "(\<exists>s. servers c' m = Down s) \<or>
         (\<exists>p'. bounded D c' \<and> passes n {m} c1 p1 c' p' \<and> caught_up n t c' p' m)"
        using less.hyps [OF 1(4) _ 1(2) less.prems(3-5) 1(1)] by blast
      have "length (as @ bs) \<le> 4 * proc_gap m p q" using as(3) bs(3) 1(4) by simp
      moreover have "run D (as @ bs) c = Some c'" using as(1) bs(1) by (simp add: run_append)
      moreover have "\<forall>a\<in>set (as @ bs). exchange n m t a" using as(2) bs(2) by auto
      ultimately show ?thesis using bs(4) passes_trans [OF 1(3)] by (metis Un_absorb)
    qed
  qed
qed

lemma no_gap:
  assumes "creachable D st c" "n \<in> M" "m \<in> M" "linked n m t c p q" "proc_gap m p q = 0"
  shows "map_get (matchIndex (node p)) m = end_index (log (node p))"
    "i \<le> unat (end_index (log (node p))) \<Longrightarrow> entry_at (log (node q)) i = entry_at (log (node p)) i"
proof -
  obtain a where a: "safe a" "cluster_rel c a" using reachable_rel [OF assms(1)] by blast
  have srv: "servers c n = Running p" "servers c m = Running q" using assms(4) by (simp_all add: linked_defs)
  note p = server_runningD(1) [OF a(2) assms(2) srv(1)] and q = server_runningD(1) [OF a(2) assms(3) srv(2)]
  note pl = node_plain [OF p] and ql = node_plain [OF q]
  let ?L = "alog_of (entries (log (node p)))" and ?l = "alog_of (entries (log (node q)))"
  have g: "agree_at ?l ?L (length ?L)" "unat (map_get (matchIndex (node p)) m) = length ?L"
    using assms(5) by (auto simp: proc_gap_def gap_def split: if_splits)
  show "map_get (matchIndex (node p)) m = end_index (log (node p))"
    using g(2) plain_end_index [OF pl] by (simp add: u64_eq_iff)
  have ok: "log_ok a ?l" "log_ok a ?L"
    using base_invD(5) [OF safe_invD(1) [OF a(1)]] node_relD(7) [OF p] node_relD(7) [OF q] by metis+
  have "take (length ?L) ?l = take (length ?L) ?L"
  proof (rule logs_agree [OF ok])
    assume "0 < length ?L"
    then show "fst (?l ! (length ?L - 1)) = fst (?L ! (length ?L - 1))"
      using g(1) last_term_take [of "length ?L" ?l] last_term_take [of "length ?L" ?L] by (simp add: agree_at_def)
  qed (use g(1) in \<open>simp_all add: agree_at_def\<close>)
  then show "entry_at (log (node q)) i = entry_at (log (node p)) i" if "i \<le> unat (end_index (log (node p)))"
    using plain_entry_at_eq [OF ql pl, of "length ?L" i] g(1) that plain_end_index [OF pl]
    by (simp add: agree_at_def)
qed

lemma gap_actions:
  assumes "creachable D st c" "n \<in> M" "m \<in> M" "n \<noteq> m" "leading n t c p"
  shows "proc_gap m p q \<le> 2 * unat (end_index (log (node p))) + 2"
proof -
  have srv: "servers c n = Running p" "role (node p) = Leader" using assms(5) by (simp_all add: leading_def)
  obtain a where a: "node_rel n (node p) a" using reachable_node [OF assms(1,2) srv(1)] by blast
  note pl = node_plain [OF a]
  have "unat (map_get (nextIndex (node p)) m) \<le> length (entries (log (node p)))"
    using node_relD(14) [OF a srv(2)] assms(3,4) by (auto simp: leader_rel_def)
  then show ?thesis
    unfolding proc_gap_def plain_end_index [OF pl] by (intro gap_bound) (simp add: plain_length [OF pl])
qed

lemma followers_converge:
  assumes "creachable D st c" "bounded D c" "n \<in> M" "set ms \<subseteq> M - {n}" "distinct ms" "leading n t c p"
    and "\<forall>m\<in>set ms. \<exists>q. listening m t c q"
  shows "\<exists>as c'. run D as c = Some c' \<and> (\<forall>a\<in>set as. \<exists>m\<in>set ms. exchange n m t a) \<and>
    length as \<le> length ms * (8 * unat (end_index (log (node p))) + 8) \<and>
    ((\<exists>m\<in>set ms. \<exists>s. servers c' m = Down s) \<or>
     (\<exists>p'. bounded D c' \<and> leading n t c' p' \<and> passes n (set ms) c p c' p' \<and> (\<forall>m\<in>set ms. caught_up n t c' p' m)))"
  using assms
proof (induction ms arbitrary: c p)
  case Nil
  then show ?case by (intro exI [of _ "[]"] exI [of _ c]) auto
next
  case (Cons m ms)
  let ?L = "8 * unat (end_index (log (node p))) + 8"
  have m: "m \<in> M" "n \<noteq> m" "m \<notin> set ms" using Cons.prems(4,5) by auto
  obtain q where q: "linked n m t c p q" using Cons.prems(6,7) by (auto simp: linked_def)
  obtain as c1 where as: "run D as c = Some c1" "\<forall>a\<in>set as. exchange n m t a" "length as \<le> 4 * proc_gap m p q"
    "(\<exists>s. servers c1 m = Down s) \<or> (\<exists>p'. bounded D c1 \<and> passes n {m} c p c1 p' \<and> caught_up n t c1 p' m)"
    using exchange_converges [OF Cons.prems(1-3) m(1,2) q] by blast
  have len: "length as \<le> ?L" using as(3) gap_actions [OF Cons.prems(1,3) m(1,2) Cons.prems(6), of q] by simp
  from as(4) show ?case
  proof (elim disjE exE conjE)
    fix s assume "servers c1 m = Down s"
    then show ?thesis using as(1,2) len by (intro exI [of _ as] exI [of _ c1]) auto
  next
    fix p1 assume 1: "bounded D c1" "passes n {m} c p c1 p1" "caught_up n t c1 p1 m"
    have lead: "leading n t c1 p1" using 1(3) by (auto simp: caught_up_def linked_def)
    have "\<forall>k\<in>set ms. \<exists>q. listening k t c1 q"
      using Cons.prems(4,7) 1(2) m(3) by (auto simp: listening_def passes_def)
    moreover have "set ms \<subseteq> M - {n}" "distinct ms" using Cons.prems(4,5) by auto
    ultimately obtain bs c' where bs: "run D bs c1 = Some c'" "\<forall>a\<in>set bs. \<exists>m\<in>set ms. exchange n m t a"
      "length bs \<le> length ms * (8 * unat (end_index (log (node p1))) + 8)"
      "(\<exists>m\<in>set ms. \<exists>s. servers c' m = Down s) \<or>
       (\<exists>p'. bounded D c' \<and> leading n t c' p' \<and> passes n (set ms) c1 p1 c' p' \<and> (\<forall>m\<in>set ms. caught_up n t c' p' m))"
      using Cons.IH [OF run_reachable [OF as(1) Cons.prems(1)] 1(1) Cons.prems(3) _ _ lead] by blast
    have "length (as @ bs) \<le> length (m # ms) * ?L" using len bs(3) 1(2) by (simp add: passes_def)
    moreover have "run D (as @ bs) c = Some c'" using as(1) bs(1) by (simp add: run_append)
    moreover have "\<forall>a\<in>set (as @ bs). \<exists>k\<in>set (m # ms). exchange n k t a" using as(2) bs(2) by auto
    moreover have "caught_up n t c' p' m" if "leading n t c' p'" "passes n (set ms) c1 p1 c' p'" for p'
      using 1(3) that m(2,3) by (auto simp: caught_up_def linked_defs passes_def proc_gap_def)
    moreover have "passes n (set (m # ms)) c p c' p'" if "passes n (set ms) c1 p1 c' p'" for p'
      using passes_trans [OF 1(2) that] by simp
    ultimately show ?thesis using bs(4) by (intro exI [of _ "as @ bs"] exI [of _ c']) fastforce
  qed
qed

lemma leader_last_term:
  assumes "safe a" "node_rel n nd a" "role nd = Leader"
  shows "fst (term_of (log nd) (end_index (log nd))) = currentTerm nd"
proof -
  note b = safe_invD(1) [OF assms(1)] and lead = leader_log [OF assms] and pl = node_plain [OF assms(2)]
  let ?t = "unat (currentTerm nd)" and ?L = "alog_of (entries (log nd))"
  obtain l x z where l: "?L = l @ (?t, x) # z"
    using election_invD(9) [OF base_invD(1) [OF b] lead(1)] lead(2) by auto
  have "sorted (map fst ?L)" "\<forall>e\<in>set ?L. fst e \<le> ?t"
    using base_invD(3,9) [OF b] lead(2) unfolding terms_inv_def by metis+
  then have "last_term ?L = ?t"
    unfolding l by (cases z rule: rev_cases) (auto simp: last_term_def sorted_append)
  then show ?thesis
    using plain_term_of(2) [OF pl, of "end_index (log nd)"] plain_end_index [OF pl] by (simp add: u64_eq_iff)
qed

lemma quorum_of_followers:
  assumes "static_rel M n nd" "set ms \<subseteq> M - {n}" "distinct ms" "card M < 2 * (length ms + 1)"
    and "\<forall>m\<in>set ms. i \<le> map_get (matchIndex nd) m"
  shows "quorum nd \<le> replica_count nd i"
proof -
  have "set ms \<subseteq> set (filter (\<lambda>p. i \<le> map_get (matchIndex nd) p) (peers nd))"
    using assms(1,2,5) by (auto simp: static_rel_def)
  then have "length ms \<le> length (filter (\<lambda>p. i \<le> map_get (matchIndex nd) p) (peers nd))"
    using assms(3) by (metis card_length card_mono distinct_card finite_set le_trans)
  then show ?thesis using card_peers(2) [OF assms(1)] assms(4) by (simp add: replica_count_def)
qed

lemma caught_up_entries:
  assumes "creachable D st c" "n \<in> M" "m \<in> M" "caught_up n t c p m"
  shows "map_get (matchIndex (node p)) m = end_index (log (node p)) \<and> (\<exists>q. servers c m = Running q \<and>
    (\<forall>i \<le> unat (end_index (log (node p))). entry_at (log (node q)) i = entry_at (log (node p)) i))"
  using assms(4) no_gap [OF assms(1-3), of t p] by (auto simp: caught_up_def linked_defs)

lemma majority_committed:
  assumes "creachable D st c" "n \<in> M" "set ms \<subseteq> M - {n}" "distinct ms" "card M < 2 * (length ms + 1)"
    and "leading n t c p" "\<forall>m\<in>set ms. caught_up n t c p m" "quorum_committed (node p)"
  shows "commitIndex (node p) = end_index (log (node p))"
proof -
  have p: "servers c n = Running p" "role (node p) = Leader" using assms(6) by (simp_all add: leading_def)
  obtain a where a: "safe a" "node_rel n (node p) a" using reachable_node [OF assms(1,2) p(1)] by blast
  have "\<forall>m\<in>set ms. end_index (log (node p)) \<le> map_get (matchIndex (node p)) m"
    using caught_up_entries [OF assms(1,2)] assms(3,7) by (metis DiffD1 order_refl subsetD)
  then have "quorum (node p) \<le> replica_count (node p) (end_index (log (node p)))"
    by (rule quorum_of_followers [OF node_relD(18) [OF a(2)] assms(3-5)])
  moreover have "commitIndex (node p) \<le> end_index (log (node p))"
    using commit_in_log [OF a] plain_end_index [OF node_plain [OF a(2)]] by (simp add: word_le_nat_alt)
  ultimately show ?thesis using assms(8) leader_last_term [OF a p(2)] by (simp add: quorum_committed_def Let_def)
qed

lemma leader_commits_log:
  assumes "creachable D st c" "bounded D c" "n \<in> M" "set ms \<subseteq> M - {n}" "distinct ms" "ms \<noteq> []"
    and "card M < 2 * (length ms + 1)" "leading n t c p" "\<forall>m\<in>set ms. \<exists>q. listening m t c q"
  shows "\<exists>as c'. run D as c = Some c' \<and> (\<forall>a\<in>set as. \<exists>m\<in>set ms. exchange n m t a) \<and>
    length as \<le> length ms * (8 * unat (end_index (log (node p))) + 8) + 4 \<and>
    ((\<exists>m\<in>set ms. \<exists>s. servers c' m = Down s) \<or>
     (\<exists>p'. servers c' n = Running p' \<and> role (node p') = Leader \<and> log (node p') = log (node p) \<and>
        commitIndex (node p') = end_index (log (node p)) \<and>
        (\<forall>m\<in>set ms. \<exists>q. servers c' m = Running q \<and>
           (\<forall>i \<le> unat (end_index (log (node p))). entry_at (log (node q)) i = entry_at (log (node p)) i))))"
proof -
  obtain as c1 where as: "run D as c = Some c1" "\<forall>a\<in>set as. \<exists>m\<in>set ms. exchange n m t a"
    "length as \<le> length ms * (8 * unat (end_index (log (node p))) + 8)"
    "(\<exists>m\<in>set ms. \<exists>s. servers c1 m = Down s) \<or>
     (\<exists>p'. bounded D c1 \<and> leading n t c1 p' \<and> passes n (set ms) c p c1 p' \<and> (\<forall>m\<in>set ms. caught_up n t c1 p' m))"
    using followers_converge [OF assms(1-5,8,9)] by blast
  obtain m where m: "m \<in> set ms" "m \<in> M" "n \<noteq> m" using assms(4,6) by (cases ms) auto
  from as(4) show ?thesis
  proof (elim disjE exE conjE)
    assume "\<exists>m\<in>set ms. \<exists>s. servers c1 m = Down s"
    then show ?thesis using as(1-3) by (intro exI [of _ as] exI [of _ c1]) auto
  next
    fix p1 assume 1: "bounded D c1" "leading n t c1 p1" "passes n (set ms) c p c1 p1" "\<forall>m\<in>set ms. caught_up n t c1 p1 m"
    obtain q1 where q1: "linked n m t c1 p1 q1" "proc_gap m p1 q1 = 0" using 1(4) m(1) by (auto simp: caught_up_def)
    obtain bs c2 where bs: "run D bs c1 = Some c2" "\<forall>a\<in>set bs. exchange n m t a" "length bs \<le> 4"
      "(\<exists>s. servers c2 m = Down s) \<or> (\<exists>p' q'. linked n m t c2 p' q' \<and> passes n {m} c1 p1 c2 p' \<and>
         proc_gap m p' q' = 0 \<and> quorum_committed (node p'))"
      using exchange_round [OF run_reachable [OF as(1) assms(1)] 1(1) assms(3) m(2,3) q1(1)] q1(2) by blast
    have all: "run D (as @ bs) c = Some c2" "\<forall>a\<in>set (as @ bs). \<exists>m\<in>set ms. exchange n m t a"
      "length (as @ bs) \<le> length ms * (8 * unat (end_index (log (node p))) + 8) + 4"
      using as(1-3) bs(1-3) m(1) by (auto simp: run_append)
    from bs(4) show ?thesis
    proof (elim disjE exE conjE)
      fix s assume "servers c2 m = Down s"
      then show ?thesis using all m(1) by (intro exI [of _ "as @ bs"] exI [of _ c2]) auto
    next
      fix p2 q2 assume 2: "linked n m t c2 p2 q2" "passes n {m} c1 p1 c2 p2" "proc_gap m p2 q2 = 0" "quorum_committed (node p2)"
      have reach: "creachable D st c2" using run_reachable [OF all(1) assms(1)] .
      have lg: "log (node p2) = log (node p)" using 1(3) 2(2) by (simp add: passes_def)
      have up: "caught_up n t c2 p2 k" if "k \<in> set ms" for k
      proof (cases "k = m")
        case False
        then show ?thesis
          using 1(4) 2(1,2) that assms(4) by (fastforce simp: caught_up_def linked_defs passes_def proc_gap_def)
      qed (use 2 in \<open>auto simp: caught_up_def\<close>)
      have lead: "leading n t c2 p2" using 2(1) by (simp add: linked_def)
      have "commitIndex (node p2) = end_index (log (node p))"
        using majority_committed [OF reach assms(3-5,7) lead _ 2(4)] up lg by simp
      then show ?thesis
        using all lead lg caught_up_entries [OF reach assms(3) _ up] assms(4)
        by (intro exI [of _ "as @ bs"] exI [of _ c2] conjI disjI2 exI [of _ p2]) (auto simp: leading_def)
    qed
  qed
qed

end

end
