(* ===== verification/Raft_Campaign.thy ===== *)
theory Raft_Campaign
  imports Raft_Delivery
begin

text \<open>
  Elections that succeed: a server whose election timer runs out and whose log is at least as up to date as those of
  a majority becomes leader of the next term after one exchange with each of them.
\<close>

section \<open>Progress of elections\<close>

text \<open>
  A server whose election timer has run out asks the others for their votes: a goroutine for each sends the request
  and handles the reply.
\<close>

definition canvass :: "NodeID \<Rightarrow> NodeID set \<Rightarrow> 'd action \<Rightarrow> bool" where
  "canvass n S a \<longleftrightarrow>
     (case a of
        Tick k ev \<Rightarrow> k = n
      | SendVote k m args \<Rightarrow> k = n \<and> m \<in> S
      | RecvVote k m args ev \<Rightarrow> k = n \<and> m \<in> S
      | VoteReply k m args reply ev \<Rightarrow> k = n \<and> m \<in> S
      | _ \<Rightarrow> False)"

definition campaigning :: "NodeID \<Rightarrow> RequestVoteArgs \<Rightarrow> 's cluster \<Rightarrow> 's proc \<Rightarrow> bool" where
  "campaigning n args c p \<longleftrightarrow> servers c n = Running p \<and> role (node p) = Candidate \<and>
     currentTerm (node p) = rvTerm args \<and> \<not> stopped (node p) \<and> votes (node p) (rvTerm args) < quorum (node p)"

definition free_voter :: "u64 \<Rightarrow> u64 \<Rightarrow> u64 \<Rightarrow> 's cluster \<Rightarrow> NodeID \<Rightarrow> bool" where
  "free_voter t lt li c m \<longleftrightarrow> (case servers c m of
     Running q \<Rightarrow> \<not> stopped (node q) \<and> currentTerm (node q) < t \<and> covered_by (log (node q)) lt li
   | Down s \<Rightarrow> False)"

lemma becomeLeader_result: "on_Ok (\<lambda>x. role x = Leader \<and> currentTerm x = currentTerm nd) (becomeLeader sv nd)"
  unfolding becomeLeader_def Let_def
  by (auto simp: spawn_def split: prod.split option.split intro!: on_Ok_reads on_Ok_mono [OF advance_moves])

lemma grant_result:
  assumes "\<not> stopped nd" "currentTerm nd < rvTerm args" "covered_by (log nd) (LastLogTerm args) (LastLogIndex args)"
  shows "on_Ok (\<lambda>(x, r). r = Inr \<lparr>rvrTerm = rvTerm args, VoteGranted = True\<rparr> \<and>
    currentTerm x = rvTerm args \<and> log x = log nd) (HandleRequestVote sv ev args nd)"
proof -
  let ?same = "\<lambda>x. log x = log nd \<and> currentTerm x = rvTerm args \<and> votedFor x = []"
  have "on_Ok (\<lambda>(x, b). ?same x) (observeTerm sv ev (rvTerm args) nd)"
    using assms(2) by (auto simp: observeTerm_def becomeFollower_def resetElectionTimer_def not_le Let_def
        split: prod.split option.split)
  then show ?thesis
    unfolding HandleRequestVote_def Let_def if_not_P [OF assms(1)]
    by (rule on_Ok_andThenI)
      (use assms(3) in \<open>auto simp: resetElectionTimer_def Let_def intro!: on_Ok_mono [OF on_Ok_log_ends(3)]
         split: prod.split option.split\<close>)
qed

lemma count_result:
  assumes "\<not> stopped nd" "role nd = Candidate" "currentTerm nd = rvTerm args"
  shows "on_Ok (\<lambda>x. role x = Leader \<and> currentTerm x = rvTerm args \<or>
      x = nd\<lparr>votes := (votes nd)(rvTerm args := votes nd (rvTerm args) + 1)\<rparr> \<and> votes nd (rvTerm args) + 1 < quorum nd)
    (requestVote sv ev args \<lparr>rvrTerm = rvTerm args, VoteGranted = True\<rparr> nd)"
  using assms becomeLeader_result [of "nd\<lparr>votes := (votes nd)(rvTerm args := votes nd (rvTerm args) + 1)\<rparr>" sv]
  by (auto simp: requestVote_def observeTerm_def quorum_def Let_def elim!: on_Ok_mono)

lemma campaign_result:
  fixes nd :: "'s Node"
  assumes "\<not> stopped nd" "role nd \<noteq> Leader" "electionDeadline nd < now ev"
  defines "args \<equiv> \<lparr>rvTerm = currentTerm nd + 1, CandidateID = id nd,
    LastLogIndex = end_index (log nd), LastLogTerm = end_term (log nd)\<rparr>"
  shows "on_Ok (\<lambda>x. currentTerm x = rvTerm args \<and> (role x = Leader \<or>
      role x = Candidate \<and> \<not> stopped x \<and> votes x (rvTerm args) = 1 \<and> 1 < quorum x \<and> quorum x = quorum nd \<and>
      log x = log nd \<and> set (map (\<lambda>m. RequestVoteTo m args) (peers nd)) \<subseteq> set (threads x)))
    (ticker sv ev nd)" (is "on_Ok ?Q _")
proof -
  have spawned: "fold (\<lambda>p. spawn (f p)) ps x = (if stopped x then x else x\<lparr>threads := threads x @ map f ps\<rparr>)"
    for f :: "NodeID \<Rightarrow> thread" and ps and x :: "'s Node"
    by (induction ps arbitrary: x) (simp_all add: spawn_def)
  have "on_Ok (\<lambda>x. currentTerm x = rvTerm args \<and> role x = Candidate \<and> \<not> stopped x \<and> log x = log nd \<and>
      id x = id nd \<and> peers x = peers nd) (becomeCandidate sv ev nd)"
    using assms(1) by (auto simp: becomeCandidate_def resetElectionTimer_def args_def Let_def split: prod.split option.split)
  then have "on_Ok ?Q (startElection sv ev nd)"
    unfolding startElection_def
  proof (rule on_Ok_andThenI)
    fix x :: "'s Node"
    assume x: "currentTerm x = rvTerm args \<and> role x = Candidate \<and> \<not> stopped x \<and> log x = log nd \<and>
      id x = id nd \<and> peers x = peers nd"
    let ?x = "x\<lparr>votes := (votes x)(currentTerm x := 1)\<rparr>"
    have lead: "on_Ok ?Q (becomeLeader sv ?x)"
      using becomeLeader_result [of ?x sv] x by (auto elim!: on_Ok_mono)
    show "on_Ok ?Q
      (let n = ?x
       in if votes n (currentTerm n) \<ge> quorum n then becomeLeader sv n
          else within n (lastIndex (log n)) (\<lambda>li. within n (lastTerm (log n))
            (\<lambda>lt. let args = \<lparr>rvTerm = currentTerm n, CandidateID = id n,
                               LastLogIndex = li, LastLogTerm = lt\<rparr>
                  in Ok (fold (\<lambda>peer. spawn (RequestVoteTo peer args)) (peers n) n))))"
    proof (cases "quorum ?x \<le> votes ?x (currentTerm ?x)")
      case True
      then show ?thesis using lead by (simp only: Let_def if_True)
    next
      case False
      then show ?thesis
        using x by (auto simp: spawned args_def quorum_def Let_def intro!: on_Ok_mono [OF on_Ok_log_ends(1)]
            on_Ok_mono [OF on_Ok_log_ends(2)])
    qed
  qed
  then show ?thesis using assms(1-3) by (simp add: ticker_def)
qed

definition elected :: "NodeID \<Rightarrow> u64 \<Rightarrow> 's cluster \<Rightarrow> bool" where
  "elected n t c \<longleftrightarrow> (\<exists>p. servers c n = Running p \<and> role (node p) = Leader \<and> currentTerm (node p) = t)"

definition polled ::
  "NodeID \<Rightarrow> NodeID \<Rightarrow> RequestVoteArgs \<Rightarrow> 's cluster \<Rightarrow> 's proc \<Rightarrow> 's cluster \<Rightarrow> 's proc \<Rightarrow> bool" where
  "polled n m args c p c' p' \<longleftrightarrow> campaigning n args c' p' \<and> quorum (node p') = quorum (node p) \<and>
     votes (node p') (rvTerm args) = Suc (votes (node p) (rvTerm args)) \<and>
     (\<forall>k. k \<noteq> n \<and> k \<noteq> m \<longrightarrow> servers c' k = servers c k) \<and>
     (\<forall>k. k \<noteq> m \<and> RequestVoteTo k args \<in> set (threads (node p)) \<longrightarrow> RequestVoteTo k args \<in> set (threads (node p')))"

lemma vote_counted:
  fixes c :: "'s cluster" and ev :: env
  assumes "bounded D c" "n \<noteq> m" "n \<in> set (dMembers D)" "campaigning n args c p" "\<forall>k. k \<noteq> n \<and> k \<noteq> m \<longrightarrow> servers c k = servers c0 k"
  defines "q \<equiv> end_thread (RequestVoteTo m args) p"
  defines "c' \<equiv> settle n q (requestVote (dSave D) ev args \<lparr>rvrTerm = rvTerm args, VoteGranted = True\<rparr> (node q)) c"
  shows "(\<exists>s. servers c' n = Down s) \<or> elected n (rvTerm args) c' \<or>
    (\<exists>p'. bounded D c' \<and> polled n m args c0 p c' p')"
proof -
  have p: "servers c n = Running p" "role (node p) = Candidate" "currentTerm (node p) = rvTerm args"
    "\<not> stopped (node p)" using assms(4) by (simp_all add: campaigning_def)
  let ?r = "requestVote (dSave D) ev args \<lparr>rvrTerm = rvTerm args, VoteGranted = True\<rparr> (node q)"
  have count: "on_Ok (\<lambda>y. role y = Leader \<and> currentTerm y = rvTerm args \<or>
    y = (node q)\<lparr>votes := (votes (node q))(rvTerm args := votes (node q) (rvTerm args) + 1)\<rparr> \<and>
      votes (node q) (rvTerm args) + 1 < quorum (node q)) ?r"
    by (rule count_result) (use p in \<open>simp_all add: q_def end_thread_def\<close>)
  show ?thesis
  proof (cases ?r)
    case (Panic e y)
    then show ?thesis by (simp add: c'_def settle_def set_server_def)
  next
    case (Ok y)
    have srv: "servers c' = (servers c)(n := Running (q\<lparr>node := y\<rparr>))"
      by (simp add: c'_def Ok settle_def set_server_def)
    from count Ok consider (lead) "role y = Leader" "currentTerm y = rvTerm args"
      | (more) "y = (node q)\<lparr>votes := (votes (node q))(rvTerm args := votes (node q) (rvTerm args) + 1)\<rparr>"
        "votes (node q) (rvTerm args) + 1 < quorum (node q)"
      by auto
    then show ?thesis
    proof cases
      case lead
      then show ?thesis using srv by (simp add: elected_def)
    next
      case more
      have "node_bounded (node p)" using assms(1,3) p(1) by (auto simp: bounded_def dest: bspec [of _ _ n])
      then have "node_bounded y" using more(1) by (simp add: node_bounded_def q_def end_thread_def)
      then have "bounded D c'" using assms(1) srv by (auto simp: bounded_def)
      moreover have "polled n m args c0 p c' (q\<lparr>node := y\<rparr>)"
        using srv more p assms(2,5) by (auto simp: polled_def campaigning_def q_def end_thread_def quorum_def in_set_remove1)
      ultimately show ?thesis by blast
    qed
  qed
qed

lemma poll_voter:
  assumes "bounded D c" "n \<in> set (dMembers D)" "m \<in> set (dMembers D)" "n \<noteq> m" "campaigning n args c p"
    and "RequestVoteTo m args \<in> set (threads (node p))"
    and "free_voter (rvTerm args) (LastLogTerm args) (LastLogIndex args) c m"
  shows "\<exists>as c'. run D as c = Some c' \<and> (\<forall>a\<in>set as. canvass n {m} a) \<and> length as \<le> 3 \<and>
    ((\<exists>k\<in>{n, m}. \<exists>s. servers c' k = Down s) \<or> elected n (rvTerm args) c' \<or>
     (\<exists>p'. bounded D c' \<and> polled n m args c p c' p'))"
proof -
  have p: "servers c n = Running p" "role (node p) = Candidate" "currentTerm (node p) = rvTerm args"
    "\<not> stopped (node p)" using assms(5) by (simp_all add: campaigning_def)
  obtain q where q: "servers c m = Running q" "\<not> stopped (node q)" "currentTerm (node q) < rvTerm args"
    "covered_by (log (node q)) (LastLogTerm args) (LastLogIndex args)"
    using assms(7) by (auto simp: free_voter_def split: server.splits)
  let ?ev = "\<lparr>now = 0, draw = 0\<rparr>" and ?reply = "\<lparr>rvrTerm = rvTerm args, VoteGranted = True\<rparr>"
  let ?c1 = "c\<lparr>rvreq := insert (n, m, args) (rvreq c)\<rparr>"
  have s1: "run D [SendVote n m args] c = Some ?c1"
    using assms(1,2,6) p(1) by (simp add: perform_def proc_action_def)
  have b1: "bounded D ?c1" using assms(1) by (simp add: bounded_def)
  show ?thesis
  proof (cases "HandleRequestVote (dSave D) ?ev args (node q)")
    case (Panic e x)
    have "run D [SendVote n m args, RecvVote n m args ?ev] c = Some (set_server m (Down (storage x)) ?c1)"
      using run_append [of D "[SendVote n m args]" "[RecvVote n m args ?ev]" c] s1 b1 assms(3) q(1)
      by (simp add: perform_def proc_action_def recv_vote_def settle_def Panic)
    then show ?thesis
      by - (intro exI conjI, assumption, simp_all add: canvass_def set_server_def)
  next
    case (Ok z)
    obtain x r where z: "z = (x, r)" by (cases z)
    have x: "r = Inr ?reply" "currentTerm x = rvTerm args" "log x = log (node q)"
      using grant_result [OF q(2-4), of "dSave D" ?ev] by (simp_all add: Ok z)
    let ?c2 = "(set_server m (Running (q\<lparr>node := x\<rparr>)) ?c1)\<lparr>rvrep := insert (n, m, args, ?reply) (rvrep c)\<rparr>"
    have s2: "run D [SendVote n m args, RecvVote n m args ?ev] c = Some ?c2"
      using run_append [of D "[SendVote n m args]" "[RecvVote n m args ?ev]" c] s1 b1 assms(3) q(1)
      by (simp add: perform_def proc_action_def recv_vote_def settle_def Ok z x(1))
    have bnd: "node_bounded (node p)" "node_bounded (node q)"
      using assms(1-3) p(1) q(1) by (auto simp: bounded_def dest: bspec [of _ _ n] bspec [of _ _ m])
    then have "node_bounded x" using x(2,3) p(3) by (simp add: node_bounded_def)
    then have b2: "bounded D ?c2" using assms(1) by (auto simp: bounded_def set_server_def)
    let ?p = "end_thread (RequestVoteTo m args) p"
    let ?r = "requestVote (dSave D) ?ev args ?reply (node ?p)"
    let ?c3 = "settle n ?p ?r ?c2"
    have s3: "run D [SendVote n m args, RecvVote n m args ?ev, VoteReply n m args ?reply ?ev] c = Some ?c3"
      using run_append [of D "[SendVote n m args, RecvVote n m args ?ev]" "[VoteReply n m args ?reply ?ev]" c] s2 b2 assms(2,4,6) p(1)
      by (simp add: perform_def proc_action_def set_server_def Let_def)
    have "(\<exists>s. servers ?c3 n = Down s) \<or> elected n (rvTerm args) ?c3 \<or> (\<exists>p'. bounded D ?c3 \<and> polled n m args c p ?c3 p')"
      by (rule vote_counted [OF b2 assms(4,2)]) (use assms(4,5) in \<open>simp_all add: campaigning_def set_server_def\<close>)
    then show ?thesis using s3
      by - (intro exI conjI, assumption, simp add: canvass_def, simp, blast)
  qed
qed

lemma voters_elect:
  assumes "bounded D c" "n \<in> set (dMembers D)" "set ms \<subseteq> set (dMembers D) - {n}" "distinct ms" "campaigning n args c p"
    and "quorum (node p) \<le> votes (node p) (rvTerm args) + length ms"
    and "\<forall>m\<in>set ms. RequestVoteTo m args \<in> set (threads (node p))"
    and "\<forall>m\<in>set ms. free_voter (rvTerm args) (LastLogTerm args) (LastLogIndex args) c m"
  shows "\<exists>as c'. run D as c = Some c' \<and> (\<forall>a\<in>set as. canvass n (set ms) a) \<and> length as \<le> 3 * length ms \<and>
    ((\<exists>k\<in>insert n (set ms). \<exists>s. servers c' k = Down s) \<or> elected n (rvTerm args) c')"
  using assms
proof (induction ms arbitrary: c p)
  case Nil
  then show ?case by (simp add: campaigning_def)
next
  case (Cons m ms)
  have m: "m \<in> set (dMembers D)" "n \<noteq> m" "m \<notin> set ms" using Cons.prems(3,4) by auto
  obtain as c1 where as: "run D as c = Some c1" "\<forall>a\<in>set as. canvass n {m} a" "length as \<le> 3"
    "(\<exists>k\<in>{n, m}. \<exists>s. servers c1 k = Down s) \<or> elected n (rvTerm args) c1 \<or>
     (\<exists>p'. bounded D c1 \<and> polled n m args c p c1 p')"
    using poll_voter [OF Cons.prems(1,2) m(1,2) Cons.prems(5)] Cons.prems(7,8) by (metis list.set_intros(1))
  have cm: "canvass n (set (m # ms)) a" if "canvass n S a" "S \<subseteq> set (m # ms)" for a S
    using that by (auto simp: canvass_def split: action.splits)
  from as(4) show ?case
  proof (elim disjE exE conjE)
    assume "\<exists>k\<in>{n, m}. \<exists>s. servers c1 k = Down s"
    then show ?thesis using as(1-3) cm by (intro exI [of _ as] exI [of _ c1]) auto
  next
    assume "elected n (rvTerm args) c1"
    then show ?thesis using as(1-3) cm by (intro exI [of _ as] exI [of _ c1]) auto
  next
    fix p1 assume 1: "bounded D c1" "polled n m args c p c1 p1"
    have "\<forall>k\<in>set ms. free_voter (rvTerm args) (LastLogTerm args) (LastLogIndex args) c1 k"
      using Cons.prems(3,8) 1(2) m(3) by (auto simp: free_voter_def polled_def)
    moreover have "set ms \<subseteq> set (dMembers D) - {n}" "distinct ms" using Cons.prems(3,4) by auto
    moreover have "campaigning n args c1 p1" "quorum (node p1) \<le> votes (node p1) (rvTerm args) + length ms"
      using 1(2) Cons.prems(6) by (simp_all add: polled_def)
    moreover have "\<forall>k\<in>set ms. RequestVoteTo k args \<in> set (threads (node p1))"
      using 1(2) Cons.prems(7) m(3) by (auto simp: polled_def)
    ultimately obtain bs c' where bs: "run D bs c1 = Some c'" "\<forall>a\<in>set bs. canvass n (set ms) a"
      "length bs \<le> 3 * length ms" "(\<exists>k\<in>insert n (set ms). \<exists>s. servers c' k = Down s) \<or> elected n (rvTerm args) c'"
      using Cons.IH [OF 1(1) Cons.prems(2)] by blast
    have "run D (as @ bs) c = Some c'" using as(1) bs(1) by (simp add: run_append)
    then show ?thesis
      using as(2,3) bs(2-4) cm by (intro exI [of _ "as @ bs"] exI [of _ c']) fastforce
  qed
qed

context raft_deployment
begin

lemma candidate_elected:
  assumes "creachable D st c" "bounded D c" "n \<in> M" "servers c n = Running p" "set ms \<subseteq> M - {n}" "distinct ms"
    and "card M < 2 * (length ms + 1)" "Ticker \<in> set (threads (node p))" "\<not> stopped (node p)" "role (node p) \<noteq> Leader"
    and "Suc (unat (currentTerm (node p))) < max_u64"
    and "\<forall>m\<in>set ms. free_voter (currentTerm (node p) + 1) (end_term (log (node p))) (end_index (log (node p))) c m"
  shows "\<exists>as c'. run D as c = Some c' \<and> (\<forall>a\<in>set as. canvass n (set ms) a) \<and> length as \<le> 3 * length ms + 1 \<and>
    ((\<exists>k\<in>insert n (set ms). \<exists>s. servers c' k = Down s) \<or> elected n (currentTerm (node p) + 1) c')"
proof -
  obtain a where a: "node_rel n (node p) a" using reachable_node [OF assms(1,3,4)] by blast
  let ?ev = "\<lparr>now = electionDeadline (node p) + 1, draw = 0\<rparr>"
  let ?r = "ticker (dSave D) ?ev (node p)" and ?c1 = "settle n p (ticker (dSave D) ?ev (node p)) c"
  let ?args = "\<lparr>rvTerm = currentTerm (node p) + 1, CandidateID = id (node p),
    LastLogIndex = end_index (log (node p)), LastLogTerm = end_term (log (node p))\<rparr>"
  have s1: "run D [Tick n ?ev] c = Some ?c1"
    using assms(2,3,4,8) by (simp add: perform_def proc_action_def)
  have tick: "canvass n (set ms) (Tick n ?ev)" by (simp add: canvass_def)
  have res: "on_Ok (\<lambda>x. currentTerm x = rvTerm ?args \<and> (role x = Leader \<or>
      role x = Candidate \<and> \<not> stopped x \<and> votes x (rvTerm ?args) = 1 \<and> 1 < quorum x \<and> quorum x = quorum (node p) \<and>
      log x = log (node p) \<and> set (map (\<lambda>m. RequestVoteTo m ?args) (peers (node p))) \<subseteq> set (threads x))) ?r"
    by (rule campaign_result [OF assms(9,10)]) simp
  consider (down) "\<exists>s. servers ?c1 n = Down s" | (leader) "elected n (currentTerm (node p) + 1) ?c1"
    | (votes) x where "?r = Ok x" "currentTerm x = currentTerm (node p) + 1" "role x = Candidate" "\<not> stopped x"
      "votes x (rvTerm ?args) = 1" "1 < quorum x" "quorum x = quorum (node p)" "log x = log (node p)"
      "set (map (\<lambda>m. RequestVoteTo m ?args) (peers (node p))) \<subseteq> set (threads x)"
    using res by (cases ?r) (auto simp: settle_def set_server_def elected_def)
  then show ?thesis
  proof cases
    case (votes x)
    let ?p = "p\<lparr>node := x\<rparr>"
    have srv: "servers ?c1 = (servers c)(n := Running ?p)" by (simp add: votes(1) settle_def set_server_def)
    have "node_bounded (node p)" using assms(2-4) by (auto simp: bounded_def dest: bspec [of _ _ n])
    then have "node_bounded x" using votes(2,8) assms(11) by (simp add: node_bounded_def)
    then have "bounded D ?c1" using assms(2) srv by (auto simp: bounded_def)
    moreover have "campaigning n ?args ?c1 ?p" using srv votes(2-6) by (simp add: campaigning_def)
    moreover have "quorum (node ?p) \<le> votes (node ?p) (rvTerm ?args) + length ms"
      using votes(5,7) card_peers(2) [OF node_relD(18) [OF a]] assms(7) by simp
    moreover have "\<forall>m\<in>set ms. RequestVoteTo m ?args \<in> set (threads (node ?p))"
      using votes(9) node_relD(4) [OF a] assms(5) by auto
    moreover have "\<forall>m\<in>set ms. free_voter (rvTerm ?args) (LastLogTerm ?args) (LastLogIndex ?args) ?c1 m"
      using assms(5,12) srv by (auto simp: free_voter_def)
    ultimately obtain bs c' where bs: "run D bs ?c1 = Some c'" "\<forall>a\<in>set bs. canvass n (set ms) a"
      "length bs \<le> 3 * length ms" "(\<exists>k\<in>insert n (set ms). \<exists>s. servers c' k = Down s) \<or> elected n (rvTerm ?args) c'"
      using voters_elect [of D ?c1 n ms ?args ?p] assms(3,5,6) by blast
    have "run D (Tick n ?ev # bs) c = Some c'" using run_append [of D "[Tick n ?ev]" bs c] s1 bs(1) by simp
    then show ?thesis using bs(2-4) tick by (intro exI [of _ "Tick n ?ev # bs"] exI [of _ c']) auto
  qed (use s1 tick in \<open>intro exI [of _ "[Tick n ?ev]"] exI [of _ ?c1], auto\<close>)+
qed

end

end
