(* ===== verification/Gob.thy ===== *)
theory Gob
  imports Raft_Message
begin

text \<open>
  The bytes in which the persistent state is stored (\<open>encodeGob\<close> and \<open>decodeGob\<close> of
  raft/persist.go, on Go's package encoding/gob): unsigned integers in one byte or as a
  negated byte count and big-endian bytes, strings and byte slices with their length,
  structs as their non-zero fields, each behind the distance from the last one, and a
  zero. A stream is a sequence of messages with their lengths; messages with a negative
  type number describe types, and the first other message is the value.

  The numbers of the types and the text of their descriptions depend on what the process
  encoded before, so they are a parameter (\<open>gob_types\<close>). Reading skips the descriptions.
\<close>

section \<open>Encoding\<close>

fun be_bytes :: "nat \<Rightarrow> bytes" where
  "be_bytes x = (if x = 0 then [] else be_bytes (x div 256) @ [of_nat (x mod 256)])"

declare be_bytes.simps [simp del]

definition enc_uint :: "nat \<Rightarrow> bytes" where
  "enc_uint x =
     (if x \<le> 127 then [of_nat x] else let bs = be_bytes x in of_nat (256 - length bs) # bs)"

definition enc_int :: "int \<Rightarrow> bytes" where
  "enc_int i = enc_uint (nat (if i < 0 then 2 * (- i - 1) + 1 else 2 * i))"

definition enc_bytes :: "bytes \<Rightarrow> bytes" where
  "enc_bytes bs = enc_uint (length bs) @ bs"

definition str_bytes :: "string \<Rightarrow> bytes" where
  "str_bytes s = map (\<lambda>c. of_nat (of_char c)) s"

text \<open>The fields of a struct, \<open>None\<close> for one that is zero; \<open>g\<close> fields were left out so far.\<close>

fun enc_fields :: "nat \<Rightarrow> bytes option list \<Rightarrow> bytes" where
  "enc_fields g [] = enc_uint 0"
| "enc_fields g (None # fs) = enc_fields (Suc g) fs"
| "enc_fields g (Some v # fs) = enc_uint (Suc g) @ v @ enc_fields 0 fs"

definition uint_field :: "u64 \<Rightarrow> bytes option" where
  "uint_field x = (if x = 0 then None else Some (enc_uint (unat x)))"

definition bytes_field :: "bytes \<Rightarrow> bytes option" where
  "bytes_field bs = (if bs = [] then None else Some (enc_bytes bs))"

definition enc_entry :: "Entry \<Rightarrow> bytes" where
  "enc_entry e = enc_fields 0 [uint_field (Index e), uint_field (Term e), bytes_field (Command e)]"

definition entries_field :: "Entry list \<Rightarrow> bytes option" where
  "entries_field es =
     (if es = [] then None else Some (enc_uint (length es) @ concat (map enc_entry es)))"

definition enc_state :: "PersistentState \<Rightarrow> bytes" where
  "enc_state st = enc_fields 0
     [uint_field (CurrentTerm st), bytes_field (str_bytes (VotedFor st)),
      entries_field (SavedEntries st)]"

record gob_types =
  descriptions :: "bytes list"
  state_type :: nat

abbreviation tooBig :: nat where "tooBig \<equiv> 8589934592"

definition frame :: "bytes \<Rightarrow> bytes" where
  "frame m = enc_uint (length m) @ m"

definition encodeGob :: "gob_types \<Rightarrow> PersistentState \<Rightarrow> string + bytes" where
  "encodeGob G st =
     (let m = enc_int (int (state_type G)) @ enc_state st
      in if length m \<ge> tooBig then Inl ''gob: encoder: message too big''
         else Inr (concat (map frame (descriptions G)) @ frame m))"

section \<open>Decoding\<close>

definition be_val :: "bytes \<Rightarrow> nat" where
  "be_val bs = foldl (\<lambda>a b. a * 256 + unat b) 0 bs"

definition dec_uint :: "bytes \<Rightarrow> (nat \<times> bytes) option" where
  "dec_uint bs =
     (case bs of
        [] \<Rightarrow> None
      | b # r \<Rightarrow>
          if unat b \<le> 127 then Some (unat b, r)
          else let n = 256 - unat b
               in if n > 8 \<or> length r < n then None else Some (be_val (take n r), drop n r))"

definition dec_int :: "bytes \<Rightarrow> (int \<times> bytes) option" where
  "dec_int bs = map_option (\<lambda>(x, r).
     (if x mod 2 = 1 then - int (x div 2) - 1 else int (x div 2), r)) (dec_uint bs)"

definition dec_bytes :: "bytes \<Rightarrow> (bytes \<times> bytes) option" where
  "dec_bytes bs =
     (case dec_uint bs of
        None \<Rightarrow> None
      | Some (n, r) \<Rightarrow> if length r < n then None else Some (take n r, drop n r))"

definition bytes_str :: "bytes \<Rightarrow> string" where
  "bytes_str bs = map (\<lambda>b. char_of (unat b)) bs"

text \<open>
  Reading a struct: \<open>field r i bs\<close> reads field \<open>i\<close> into \<open>r\<close> and fails when there is no
  such field. Distances are positive, so a struct of \<open>k\<close> fields is over after at most
  \<open>k + 1\<close> rounds, which is the fuel.
\<close>

fun dec_fields ::
  "('r \<Rightarrow> nat \<Rightarrow> bytes \<Rightarrow> ('r \<times> bytes) option) \<Rightarrow> nat \<Rightarrow> nat \<Rightarrow> 'r \<Rightarrow> bytes \<Rightarrow> ('r \<times> bytes) option"
where
  "dec_fields field 0 i r bs = None"
| "dec_fields field (Suc k) i r bs =
     (case dec_uint bs of
        None \<Rightarrow> None
      | Some (d, bs) \<Rightarrow>
          if d = 0 then Some (r, bs)
          else case field r (i + d - 1) bs of
                 None \<Rightarrow> None
               | Some (r, bs) \<Rightarrow> dec_fields field k (i + d) r bs)"

definition entry_dec :: "Entry \<Rightarrow> nat \<Rightarrow> bytes \<Rightarrow> (Entry \<times> bytes) option" where
  "entry_dec e i bs =
     (if i = 0 then map_option (\<lambda>(x, r). (e\<lparr>Index := of_nat x\<rparr>, r)) (dec_uint bs)
      else if i = 1 then map_option (\<lambda>(x, r). (e\<lparr>Term := of_nat x\<rparr>, r)) (dec_uint bs)
      else if i = 2 then map_option (\<lambda>(x, r). (e\<lparr>Command := x\<rparr>, r)) (dec_bytes bs)
      else None)"

definition dec_entry :: "bytes \<Rightarrow> (Entry \<times> bytes) option" where
  "dec_entry bs = dec_fields entry_dec 4 0 (sentinel 0 0) bs"

fun dec_many :: "nat \<Rightarrow> bytes \<Rightarrow> (Entry list \<times> bytes) option" where
  "dec_many 0 bs = Some ([], bs)"
| "dec_many (Suc k) bs =
     (case dec_entry bs of
        None \<Rightarrow> None
      | Some (e, bs) \<Rightarrow> map_option (\<lambda>(es, r). (e # es, r)) (dec_many k bs))"

text \<open>\<open>fits u\<close>: the decoder is willing to allocate a slice of \<open>u\<close> entries.\<close>

definition state_dec ::
  "(nat \<Rightarrow> bool) \<Rightarrow> PersistentState \<Rightarrow> nat \<Rightarrow> bytes \<Rightarrow> (PersistentState \<times> bytes) option" where
  "state_dec fits st i bs =
     (if i = 0 then map_option (\<lambda>(x, r). (st\<lparr>CurrentTerm := of_nat x\<rparr>, r)) (dec_uint bs)
      else if i = 1 then map_option (\<lambda>(x, r). (st\<lparr>VotedFor := bytes_str x\<rparr>, r)) (dec_bytes bs)
      else if i = 2 then
        (case dec_uint bs of
           None \<Rightarrow> None
         | Some (u, r) \<Rightarrow>
             if \<not> fits u then None
             else map_option (\<lambda>(es, r). (st\<lparr>SavedEntries := es\<rparr>, r)) (dec_many u r))
      else None)"

text \<open>The messages of a stream up to the first value; \<open>k\<close> bounds their number.\<close>

fun dec_stream ::
  "(nat \<Rightarrow> bool) \<Rightarrow> gob_types \<Rightarrow> nat \<Rightarrow> bytes \<Rightarrow> PersistentState option" where
  "dec_stream fits G 0 bs = None"
| "dec_stream fits G (Suc k) bs =
     (case dec_uint bs of
        None \<Rightarrow> None
      | Some (n, r) \<Rightarrow>
          if n \<ge> tooBig \<or> length r < n then None
          else case dec_int (take n r) of
                 None \<Rightarrow> None
               | Some (t, m) \<Rightarrow>
                   if t < 0 then dec_stream fits G k (drop n r)
                   else if t \<noteq> int (state_type G) then None
                   else map_option fst (dec_fields (state_dec fits) 4 0 zeroState m))"

text \<open>
  An entry takes 40 bytes in memory, and the decoder refuses slices of more than \<open>tooBig\<close>
  bytes. Every message takes at least one byte, so as many rounds as bytes are enough.
\<close>

definition slice_fits :: "nat \<Rightarrow> bool" where
  "slice_fits u \<longleftrightarrow> u * 40 \<le> tooBig"

definition decodeGob :: "gob_types \<Rightarrow> bytes \<Rightarrow> PersistentState option" where
  "decodeGob G data = dec_stream slice_fits G (length data) data"

section \<open>Round trips\<close>

definition gob_ok :: "gob_types \<Rightarrow> bool" where
  "gob_ok G \<longleftrightarrow> state_type G \<le> 1000000 \<and> (\<forall>d\<in>set (descriptions G).
     length d < tooBig \<and> (case dec_int d of None \<Rightarrow> False | Some (t, r) \<Rightarrow> t < 0))"

lemma length_be_bytes: "x < 256 ^ k \<Longrightarrow> length (be_bytes x) \<le> k"
proof (induction k arbitrary: x)
  case 0
  then show ?case by (simp add: be_bytes.simps)
next
  case (Suc k)
  then have "x div 256 < 256 ^ k" by (simp add: less_mult_imp_div_less mult.commute)
  then show ?case using Suc.IH by (subst be_bytes.simps) simp
qed

lemma be_bytes_eq_Nil [simp]: "be_bytes x = [] \<longleftrightarrow> x = 0"
  by (subst be_bytes.simps) simp

lemma be_val_snoc [simp]: "be_val (bs @ [b]) = be_val bs * 256 + unat b"
  by (simp add: be_val_def)

lemma unat_byte [simp]: "x < 256 \<Longrightarrow> unat (of_nat x :: byte) = x"
  by (simp add: unat_of_nat)

lemma be_val_be_bytes [simp]: "be_val (be_bytes x) = x"
proof (induction x rule: be_bytes.induct)
  case (1 x)
  then show ?case by (subst be_bytes.simps) (auto simp: be_val_def)
qed

lemma dec_uint_enc [simp]:
  assumes "x \<le> max_u64"
  shows "dec_uint (enc_uint x @ r) = Some (x, r)"
proof (cases "x \<le> 127")
  case True
  then show ?thesis by (simp add: enc_uint_def dec_uint_def)
next
  case False
  have "x < 256 ^ 8" using assms by simp
  then have "length (be_bytes x) \<le> 8" by (rule length_be_bytes)
  moreover have "be_bytes x \<noteq> []" using False by simp
  then have "0 < length (be_bytes x)" by simp
  ultimately obtain b :: byte where "enc_uint x = b # be_bytes x"
      "unat b = 256 - length (be_bytes x)" "length (be_bytes x) \<le> 8"
    using False unat_byte [of "256 - length (be_bytes x)"] by (auto simp: enc_uint_def Let_def)
  moreover from this have "\<not> unat b \<le> 127" "256 - unat b = length (be_bytes x)" by linarith+
  ultimately show ?thesis by (simp add: dec_uint_def Let_def)
qed

lemma enc_uint_nonempty [simp]: "enc_uint x \<noteq> []"
  by (simp add: enc_uint_def Let_def)

lemma dec_int_enc:
  assumes "\<bar>i\<bar> \<le> 1000000"
  shows "dec_int (enc_int i @ r) = Some (i, r)"
proof (cases "i < 0")
  case True
  define k where "k = nat (- i - 1)"
  have i: "i = - int k - 1" using True by (simp add: k_def)
  then have "k < 1000000" using assms by linarith
  then have "dec_uint (enc_uint (2 * k + 1) @ r) = Some (2 * k + 1, r)" by (intro dec_uint_enc) linarith
  moreover have "enc_int i = enc_uint (2 * k + 1)"
  proof -
    have "nat (2 * (- i - 1) + 1) = 2 * k + 1" using i by simp
    then show ?thesis using True by (simp only: enc_int_def if_True)
  qed
  ultimately show ?thesis using i by (simp add: dec_int_def)
next
  case False
  define k where "k = nat i"
  have i: "i = int k" using False by (simp add: k_def)
  then have "k \<le> 1000000" using assms by linarith
  then have "dec_uint (enc_uint (2 * k) @ r) = Some (2 * k, r)" by (intro dec_uint_enc) linarith
  moreover have "enc_int i = enc_uint (2 * k)" using False by (simp add: enc_int_def k_def nat_mult_distrib)
  ultimately show ?thesis using i by (simp add: dec_int_def)
qed

lemma length_enc_uint: "x \<le> max_u64 \<Longrightarrow> length (enc_uint x) \<le> 9"
  using length_be_bytes [of x 8] by (simp add: enc_uint_def Let_def)

lemma length_enc_int:
  assumes "\<bar>i\<bar> \<le> 1000000"
  shows "length (enc_int i) \<le> 9"
proof -
  have "(if i < 0 then 2 * (- i - 1) + 1 else 2 * i) \<le> int max_u64"
    using assms by (auto simp: abs_le_iff)
  then have "nat (if i < 0 then 2 * (- i - 1) + 1 else 2 * i) \<le> max_u64" by (simp only: nat_le_iff)
  then show ?thesis unfolding enc_int_def by (rule length_enc_uint)
qed

lemma dec_bytes_enc [simp]: "length bs \<le> max_u64 \<Longrightarrow> dec_bytes (enc_bytes bs @ r) = Some (bs, r)"
  by (simp add: dec_bytes_def enc_bytes_def)

lemma bytes_str_bytes [simp]: "bytes_str (str_bytes s) = s"
  by (induction s) (simp_all add: bytes_str_def str_bytes_def)

lemma length_enc_bytes: "length bs \<le> length (enc_bytes bs)"
  by (simp add: enc_bytes_def)

lemma length_enc_fields:
  "0 < length (enc_fields g fs)" "Some v \<in> set fs \<Longrightarrow> length v \<le> length (enc_fields g fs)"
  by (induction g fs rule: enc_fields.induct) auto

lemma dec_entry_enc:
  assumes "length (Command e) \<le> max_u64"
  shows "dec_entry (enc_entry e @ r) = Some (e, r)"
proof -
  have 4: "(4 :: nat) = Suc (Suc (Suc (Suc 0)))" by simp
  have "\<lparr>Index = Index e, Term = Term e, Command = Command e\<rparr> = e" by simp
  then show ?thesis
    using assms unfolding dec_entry_def 4
    by (cases "Index e = 0"; cases "Term e = 0"; cases "Command e = []")
      (simp_all add: enc_entry_def uint_field_def bytes_field_def entry_dec_def sentinel_def)
qed

lemma length_Command: "length (Command e) \<le> length (enc_entry e)"
proof (cases "Command e = []")
  case False
  then have "length (enc_bytes (Command e)) \<le> length (enc_entry e)"
    unfolding enc_entry_def by (intro length_enc_fields(2)) (simp add: bytes_field_def)
  then show ?thesis using length_enc_bytes [of "Command e"] by linarith
qed simp

lemma dec_many_enc:
  assumes "length (concat (map enc_entry es)) \<le> max_u64"
  shows "dec_many (length es) (concat (map enc_entry es) @ r) = Some (es, r)"
  using assms
proof (induction es)
  case (Cons e es)
  then have "dec_entry (enc_entry e @ s) = Some (e, s)" for s
    using length_Command [of e] by (intro dec_entry_enc) simp
  then show ?case using Cons by simp
qed simp

lemma length_entries: "length es \<le> length (concat (map enc_entry es))"
proof (induction es)
  case (Cons e es)
  have "Suc 0 \<le> length (enc_entry e)"
    using length_enc_fields(1) unfolding enc_entry_def by (rule Suc_leI)
  then show ?case using Cons by (simp del: One_nat_def)
qed simp

lemma dec_state_enc:
  assumes "length (enc_state st) < tooBig" "fits (length (SavedEntries st))"
  shows "dec_fields (state_dec fits) 4 0 zeroState (enc_state st) = Some (st, [])"
proof -
  have vote: "length (str_bytes (VotedFor st)) \<le> max_u64"
  proof (cases "VotedFor st = []")
    case False
    then have "length (enc_bytes (str_bytes (VotedFor st))) \<le> length (enc_state st)"
      unfolding enc_state_def by (intro length_enc_fields(2)) (simp add: bytes_field_def str_bytes_def)
    then show ?thesis using assms(1) length_enc_bytes [of "str_bytes (VotedFor st)"] by linarith
  qed (simp add: str_bytes_def)
  have es: "length (concat (map enc_entry (SavedEntries st))) \<le> max_u64"
  proof (cases "SavedEntries st = []")
    case False
    then have "length (enc_uint (length (SavedEntries st)) @ concat (map enc_entry (SavedEntries st)))
        \<le> length (enc_state st)"
      unfolding enc_state_def by (intro length_enc_fields(2)) (simp add: entries_field_def)
    then show ?thesis using assms(1) unfolding length_append by linarith
  qed simp
  have n: "length (SavedEntries st) \<le> max_u64" using es length_entries [of "SavedEntries st"] by linarith
  have 4: "(4 :: nat) = Suc (Suc (Suc (Suc 0)))" by simp
  have "str_bytes (VotedFor st) = [] \<longleftrightarrow> VotedFor st = []" by (simp add: str_bytes_def)
  moreover have "\<lparr>CurrentTerm = CurrentTerm st, VotedFor = VotedFor st, SavedEntries = SavedEntries st\<rparr> = st"
    by simp
  moreover have u0: "enc_uint 0 = enc_uint 0 @ []" by simp
  ultimately show ?thesis
    using assms(2) vote dec_many_enc [OF es] n dec_uint_enc [of 0 "[]"] unfolding 4
    by (cases "CurrentTerm st = 0"; cases "VotedFor st = []"; cases "SavedEntries st = []")
      (simp_all add: enc_state_def uint_field_def bytes_field_def entries_field_def state_dec_def zeroState_def)
qed

lemma dec_stream_description:
  assumes "length d < tooBig" "dec_int d = Some (t, m)" "t < 0"
  shows "dec_stream fits G (Suc k) (frame d @ r) = dec_stream fits G k r"
proof -
  have "dec_uint (frame d @ r) = Some (length d, d @ r)"
    using assms(1) dec_uint_enc [of "length d" "d @ r"] by (simp add: frame_def)
  then show ?thesis using assms by simp
qed

lemma dec_stream_value:
  assumes "gob_ok G" "length m < tooBig" "m = enc_int (int (state_type G)) @ enc_state st"
    and "fits (length (SavedEntries st))"
  shows "dec_stream fits G (Suc k) (frame m) = Some st"
proof -
  have "dec_uint (frame m) = Some (length m, m)"
    using assms(2) dec_uint_enc [of "length m" m] by (simp add: frame_def)
  moreover have "dec_int m = Some (int (state_type G), enc_state st)"
    using assms(1,3) dec_int_enc [of "int (state_type G)" "enc_state st"] by (simp add: gob_ok_def)
  moreover have "length (enc_state st) < tooBig" using assms(2,3) by simp
  ultimately show ?thesis using dec_state_enc [of st fits] assms(2,4) by simp
qed

lemma dec_stream_enc:
  assumes "gob_ok G" "encodeGob G st = Inr data" "fits (length (SavedEntries st))"
    and "length (descriptions G) < k"
  shows "dec_stream fits G k data = Some st"
proof -
  define m where "m = enc_int (int (state_type G)) @ enc_state st"
  have data: "length m < tooBig" "data = concat (map frame (descriptions G)) @ frame m"
    using assms(2) by (auto simp: encodeGob_def m_def Let_def split: if_splits)
  have "dec_stream fits G k (concat (map frame ds) @ frame m) = Some st"
    if "set ds \<subseteq> set (descriptions G)" "length ds < k" for ds
    using that
  proof (induction ds arbitrary: k)
    case Nil
    then obtain k' where "k = Suc k'" by (cases k) auto
    then show ?case using dec_stream_value [where fits = fits, OF assms(1) data(1) m_def assms(3)] by simp
  next
    case (Cons d ds)
    then obtain k' where k: "k = Suc k'" "length ds < k'" by (cases k) auto
    have "d \<in> set (descriptions G)" using Cons.prems by simp
    then obtain t r where "length d < tooBig" "dec_int d = Some (t, r)" "t < 0"
      using assms(1) by (fastforce simp: gob_ok_def split: option.splits)
    from dec_stream_description [OF this] show ?case
      using Cons.IH [of k'] Cons.prems k by (simp del: dec_stream.simps)
  qed
  then show ?thesis using data(2) assms(4) by simp
qed

lemma length_encodeGob:
  assumes "encodeGob G st = Inr data"
  shows "length (descriptions G) < length data"
proof -
  have f: "Suc 0 \<le> length (frame d)" for d by (simp add: frame_def Suc_le_eq)
  then have "length ds \<le> length (concat (map frame ds))" for ds
    by (induction ds) (auto intro: add_mono [OF f, simplified])
  from this [of "descriptions G"] show ?thesis
    using assms f [of "enc_int (int (state_type G)) @ enc_state st"]
    by (auto simp: encodeGob_def Let_def split: if_splits intro: le_imp_less_Suc dest: le_trans)
qed

section \<open>What a stored state says\<close>

text \<open>
  The state that a byte string stands for, whether or not the decoder would be willing to
  allocate its slice; \<open>decodeGob\<close> either fails or returns exactly this.
\<close>

definition gob_content :: "gob_types \<Rightarrow> bytes \<Rightarrow> PersistentState option" where
  "gob_content G data = dec_stream (\<lambda>_. True) G (length data) data"

lemma gob_content_enc:
  "gob_ok G \<Longrightarrow> encodeGob G st = Inr data \<Longrightarrow> gob_content G data = Some st"
  unfolding gob_content_def by (simp add: dec_stream_enc length_encodeGob)

lemma dec_fields_fits:
  assumes "\<And>r i bs x. f r i bs = Some x \<Longrightarrow> g r i bs = Some x" "dec_fields f k i r bs = Some x"
  shows "dec_fields g k i r bs = Some x"
  using assms(2)
proof (induction k arbitrary: i r bs)
  case (Suc k)
  then show ?case using assms(1) by (auto split: option.splits prod.splits if_splits)
qed simp

lemma decodeGob_content:
  assumes "decodeGob G data = Some st"
  shows "gob_content G data = Some st"
proof -
  have sd: "state_dec slice_fits r i bs = Some x \<Longrightarrow> state_dec (\<lambda>_. True) r i bs = Some x" for r i bs x
    by (auto simp: state_dec_def split: option.splits prod.splits if_splits)
  have df: "dec_fields (state_dec slice_fits) k i r bs = Some x \<Longrightarrow>
      dec_fields (state_dec (\<lambda>_. True)) k i r bs = Some x" for k i r bs x
    by (rule dec_fields_fits [where f = "state_dec slice_fits"]) (rule sd)
  have "dec_stream slice_fits G k bs = Some st \<Longrightarrow> dec_stream (\<lambda>_. True) G k bs = Some st" for k bs
    by (induction k arbitrary: bs)
      (auto split: option.splits prod.splits if_splits dest: df)
  then show ?thesis using assms by (simp add: decodeGob_def gob_content_def)
qed

end
