(* ===== verification/Raft_Storage.thy ===== *)
theory Raft_Storage
  imports Gob
begin

text \<open>
  The two implementations of \<open>Storage\<close>: \<open>MemoryStorage\<close> (raft/persist.go) and
  \<open>FileStorage\<close> (raft/filestorage.go), the latter on a model of the directory it keeps its
  files in.

  The disk has what programs see and what a power loss leaves. Bytes written to a file and
  changes of the directory survive a power loss for certain only once they were synced;
  what was not synced may survive or not, and unsynced bytes may come back as anything.
  Every system call takes its fate from the list \<open>fates\<close>: it works, it fails (a write may
  then have written a part), or the power goes while it runs. Once the list is used up,
  calls work.
\<close>

section \<open>MemoryStorage\<close>

record MemoryStorage =
  mstate :: "bytes option"

definition NewMemoryStorage :: MemoryStorage where
  "NewMemoryStorage = \<lparr>mstate = None\<rparr>"

definition Memory_Save ::
  "gob_types \<Rightarrow> PersistentState \<Rightarrow> MemoryStorage \<Rightarrow> MemoryStorage \<times> go_error" where
  "Memory_Save G st m =
     (case encodeGob G st of
        Inl e \<Rightarrow> (m, Some (''raft: encoding state: '' @ e))
      | Inr data \<Rightarrow> (m\<lparr>mstate := Some data\<rparr>, None))"

definition Memory_Load ::
  "gob_types \<Rightarrow> MemoryStorage \<Rightarrow> MemoryStorage \<times> PersistentState \<times> go_error" where
  "Memory_Load G m =
     (case mstate m of
        None \<Rightarrow> (m, zeroState, None)
      | Some data \<Rightarrow>
          (case decodeGob G data of
             None \<Rightarrow> (m, zeroState, Some ''raft: decoding state'')
           | Some st \<Rightarrow> (m, st, None)))"

definition Memory_StateSize :: "MemoryStorage \<Rightarrow> nat" where
  "Memory_StateSize m = (case mstate m of None \<Rightarrow> 0 | Some data \<Rightarrow> length data)"

definition Memory_Clone :: "MemoryStorage \<Rightarrow> MemoryStorage" where
  "Memory_Clone m = \<lparr>mstate = mstate m\<rparr>"

section \<open>The directory\<close>

datatype fate = Works | Fails nat | PowerLoss bool bytes

record inode =
  seen :: bytes
  synced :: "bytes option"

record disk =
  names :: "string \<rightharpoonup> nat"
  synced_names :: "string \<rightharpoonup> nat"
  inodes :: "nat \<Rightarrow> inode"
  free :: nat
  stale :: bool
  lenient :: bool
  fates :: "fate list"

text \<open>
  \<open>stale\<close> records that the last sync of the directory failed. Whether a later power loss can then still take
  the directory back depends on the file system: on a \<open>lenient\<close> one it cannot, and the storage keeps
  its promises there. On others it does not, which \<open>failed_sync_reverts\<close> shows.
\<close>

definition lose :: "bool \<Rightarrow> bytes \<Rightarrow> disk \<Rightarrow> disk" where
  "lose keep junk d =
     (let dir = (if keep \<or> stale d \<and> lenient d then names d else synced_names d)
      in d\<lparr>names := dir, synced_names := dir, stale := False,
           inodes := (\<lambda>i. let x = (case synced (inodes d i) of None \<Rightarrow> junk | Some b \<Rightarrow> b)
                           in \<lparr>seen = x, synced = Some x\<rparr>)\<rparr>)"

definition next_fate :: "disk \<Rightarrow> fate \<times> disk" where
  "next_fate d = (case fates d of [] \<Rightarrow> (Works, d) | f # fs \<Rightarrow> (f, d\<lparr>fates := fs\<rparr>))"

text \<open>A system call: what it does when it works and when it fails. \<open>None\<close> is no error.\<close>

definition syscall :: "(disk \<Rightarrow> disk) \<Rightarrow> (nat \<Rightarrow> disk \<Rightarrow> disk) \<Rightarrow> disk \<Rightarrow> disk \<times> go_error" where
  "syscall works fails d =
     (case next_fate d of
        (Works, d) \<Rightarrow> (works d, None)
      | (Fails k, d) \<Rightarrow> (fails k d, Some ''input/output error'')
      | (PowerLoss keep junk, d) \<Rightarrow> (lose keep junk d, Some ''power loss''))"

definition set_inode :: "nat \<Rightarrow> inode \<Rightarrow> disk \<Rightarrow> disk" where
  "set_inode i x d = d\<lparr>inodes := (inodes d)(i := x)\<rparr>"

text \<open>Open for writing, created when missing and cut to length 0.\<close>

definition open_trunc :: "string \<Rightarrow> disk \<Rightarrow> disk" where
  "open_trunc p d =
     (case names d p of
        Some i \<Rightarrow> set_inode i \<lparr>seen = [], synced = None\<rparr> d
      | None \<Rightarrow> (set_inode (free d) \<lparr>seen = [], synced = None\<rparr> d)
                  \<lparr>names := (names d)(p \<mapsto> free d), free := Suc (free d)\<rparr>)"

definition write_file :: "string \<Rightarrow> bytes \<Rightarrow> disk \<Rightarrow> disk" where
  "write_file p bs d =
     (case names d p of
        None \<Rightarrow> d
      | Some i \<Rightarrow> set_inode i \<lparr>seen = seen (inodes d i) @ bs, synced = None\<rparr> d)"

definition sync_file :: "string \<Rightarrow> disk \<Rightarrow> disk" where
  "sync_file p d =
     (case names d p of
        None \<Rightarrow> d
      | Some i \<Rightarrow> set_inode i \<lparr>seen = seen (inodes d i), synced = Some (seen (inodes d i))\<rparr> d)"

definition rename_file :: "string \<Rightarrow> string \<Rightarrow> disk \<Rightarrow> disk" where
  "rename_file p q d = d\<lparr>names := (names d)(q := names d p, p := None)\<rparr>"

definition sync_names :: "disk \<Rightarrow> disk" where
  "sync_names d = d\<lparr>synced_names := names d, stale := False\<rparr>"

definition sync_names_fails :: "disk \<Rightarrow> disk" where
  "sync_names_fails d = d\<lparr>stale := True\<rparr>"

section \<open>FileStorage\<close>

record FileStorage =
  disk :: disk
  fsize :: nat

definition stateFile :: string where "stateFile = ''state''"
definition tmpFile :: string where "tmpFile = ''state.tmp''"

text \<open>System calls in sequence, ended by the first error.\<close>

definition and_then :: "disk \<times> go_error \<Rightarrow> (disk \<Rightarrow> disk \<times> go_error) \<Rightarrow> disk \<times> go_error" where
  "and_then r f = (case r of (d, None) \<Rightarrow> f d | (d, Some e) \<Rightarrow> (d, Some e))"

definition writeAndSync :: "string \<Rightarrow> bytes \<Rightarrow> disk \<Rightarrow> disk \<times> go_error" where
  "writeAndSync path data d =
     and_then (syscall (open_trunc path) (\<lambda>_ d. d) d)
     (\<lambda>d. and_then (syscall (write_file path data) (\<lambda>k. write_file path (take k data)) d)
     (\<lambda>d. and_then (syscall (sync_file path) (\<lambda>_ d. d) d)
     (\<lambda>d. syscall (\<lambda>d. d) (\<lambda>_ d. d) d)))"

definition syncDir :: "disk \<Rightarrow> disk \<times> go_error" where
  "syncDir d =
     and_then (syscall (\<lambda>d. d) (\<lambda>_. sync_names_fails) d)
     (\<lambda>d. syscall sync_names (\<lambda>_. sync_names_fails) d)"

definition wrap_error :: "string \<Rightarrow> disk \<times> go_error \<Rightarrow> disk \<times> go_error" where
  "wrap_error msg r = (fst r, map_option (\<lambda>e. msg @ e) (snd r))"

definition File_Save ::
  "gob_types \<Rightarrow> PersistentState \<Rightarrow> FileStorage \<Rightarrow> FileStorage \<times> go_error" where
  "File_Save G st f =
     (case encodeGob G st of
        Inl e \<Rightarrow> (f, Some (''raft: encoding state: '' @ e))
      | Inr data \<Rightarrow>
          (case and_then (wrap_error ''raft: writing state: '' (writeAndSync tmpFile data (disk f)))
                  (\<lambda>d. and_then (wrap_error ''raft: replacing state: ''
                          (syscall (rename_file tmpFile stateFile) (\<lambda>_ d. d) d))
                  (\<lambda>d. wrap_error ''raft: syncing storage dir: '' (syncDir d))) of
             (d, Some e) \<Rightarrow> (f\<lparr>disk := d\<rparr>, Some e)
           | (d, None) \<Rightarrow> (f\<lparr>disk := d, fsize := length data\<rparr>, None)))"

definition File_Load ::
  "gob_types \<Rightarrow> FileStorage \<Rightarrow> FileStorage \<times> PersistentState \<times> go_error" where
  "File_Load G f =
     (case syscall (\<lambda>d. d) (\<lambda>_ d. d) (disk f) of
        (d, Some e) \<Rightarrow> (f\<lparr>disk := d\<rparr>, zeroState, Some (''raft: reading state: '' @ e))
      | (d, None) \<Rightarrow>
          (case names d stateFile of
             None \<Rightarrow> (f\<lparr>disk := d\<rparr>, zeroState, None)
           | Some i \<Rightarrow>
               (case decodeGob G (seen (inodes d i)) of
                  None \<Rightarrow> (f\<lparr>disk := d\<rparr>, zeroState, Some ''raft: decoding state'')
                | Some st \<Rightarrow> (f\<lparr>disk := d\<rparr>, st, None))))"

definition File_StateSize :: "FileStorage \<Rightarrow> nat" where
  "File_StateSize f = fsize f"

text \<open>
  Opening the storage: the directory is created and the size of the state, if there is
  one, is read from the file's metadata.
\<close>

definition NewFileStorage :: "disk \<Rightarrow> disk \<times> (string + FileStorage)" where
  "NewFileStorage d =
     (case syscall (\<lambda>d. d) (\<lambda>_ d. d) d of
        (d, Some e) \<Rightarrow> (d, Inl (''raft: creating storage dir: '' @ e))
      | (d, None) \<Rightarrow>
          (case syscall (\<lambda>d. d) (\<lambda>_ d. d) d of
             (d, Some e) \<Rightarrow> (d, Inl (''raft: opening storage: '' @ e))
           | (d, None) \<Rightarrow>
               (case names d stateFile of
                  None \<Rightarrow> (d, Inr \<lparr>disk = d, fsize = 0\<rparr>)
                | Some i \<Rightarrow> (d, Inr \<lparr>disk = d, fsize = length (seen (inodes d i))\<rparr>))))"

section \<open>The directory keeps the state\<close>

text \<open>
  \<open>holds_state G d x\<close>: the name \<open>state\<close>, as resolved by \<open>x\<close>, is missing or a synced file
  that holds an encoded state. In a good directory this is so both for programs and after
  a power loss, and the file being written is neither of the two.
\<close>

definition file_state :: "gob_types \<Rightarrow> disk \<Rightarrow> nat option \<Rightarrow> PersistentState" where
  "file_state G d x = (case x of
     None \<Rightarrow> zeroState | Some i \<Rightarrow> the (gob_content G (seen (inodes d i))))"

definition holds_state :: "gob_types \<Rightarrow> disk \<Rightarrow> nat option \<Rightarrow> bool" where
  "holds_state G d x \<longleftrightarrow> (case x of
     None \<Rightarrow> True
   | Some i \<Rightarrow> synced (inodes d i) = Some (seen (inodes d i)) \<and>
       (\<exists>c. gob_content G (seen (inodes d i)) = Some c \<and> encodeGob G c = Inr (seen (inodes d i))))"

definition disk_ok :: "gob_types \<Rightarrow> disk \<Rightarrow> bool" where
  "disk_ok G d \<longleftrightarrow>
     holds_state G d (names d stateFile) \<and> holds_state G d (synced_names d stateFile) \<and>
     (\<forall>j. names d tmpFile = Some j \<longrightarrow>
        names d stateFile \<noteq> Some j \<and> synced_names d stateFile \<noteq> Some j) \<and>
     (\<forall>j. synced_names d tmpFile = Some j \<longrightarrow> synced_names d stateFile \<noteq> Some j) \<and>
     (\<forall>p j. names d p = Some j \<or> synced_names d p = Some j \<longrightarrow> j < free d) \<and> lenient d"

definition clean :: "disk \<Rightarrow> bool" where
  "clean d \<longleftrightarrow> stale d \<or> names d stateFile = synced_names d stateFile"

definition disk_content :: "gob_types \<Rightarrow> disk \<Rightarrow> PersistentState" where
  "disk_content G d = file_state G d (names d stateFile)"

subsection \<open>Each step of a save\<close>

definition settled :: "gob_types \<Rightarrow> PersistentState \<Rightarrow> disk \<Rightarrow> bool" where
  "settled G c d \<longleftrightarrow> disk_ok G d \<and> clean d \<and> disk_content G d = c"

lemma holds_state_cong:
  "(\<And>i. x = Some i \<Longrightarrow> inodes d' i = inodes d i) \<Longrightarrow> holds_state G d' x = holds_state G d x"
  by (cases x) (simp_all add: holds_state_def)

lemma file_state_cong:
  "(\<And>i. x = Some i \<Longrightarrow> inodes d' i = inodes d i) \<Longrightarrow> file_state G d' x = file_state G d x"
  by (cases x) (simp_all add: file_state_def)

lemma holds_state_lose:
  assumes "holds_state G d x"
  shows "holds_state G (lose keep junk d) x" "file_state G (lose keep junk d) x = file_state G d x"
  using assms by (cases x; simp add: holds_state_def file_state_def lose_def Let_def)+

lemma lose_names:
  "names (lose keep junk d) = (if keep \<or> stale d \<and> lenient d then names d else synced_names d)"
  "synced_names (lose keep junk d) = names (lose keep junk d)"
  "free (lose keep junk d) = free d" "lenient (lose keep junk d) = lenient d"
  by (simp_all add: lose_def Let_def)

lemma disk_ok_lenient: "disk_ok G d \<Longrightarrow> lenient d"
  by (simp add: disk_ok_def)

lemma disk_ok_lose:
  assumes "disk_ok G d"
  shows "disk_ok G (lose keep junk d)" "clean (lose keep junk d)"
proof -
  show "disk_ok G (lose keep junk d)"
    using assms holds_state_lose(1) unfolding disk_ok_def by (auto simp: lose_names)
  show "clean (lose keep junk d)" by (simp add: clean_def lose_names)
qed

lemma settled_lose:
  assumes "settled G c d"
  shows "settled G c (lose keep junk d)"
proof -
  have "names (lose keep junk d) stateFile = names d stateFile"
    using assms by (auto simp: settled_def clean_def lose_names dest: disk_ok_lenient)
  then show ?thesis
    using assms disk_ok_lose [of G d keep junk] holds_state_lose(2) [of G d "names d stateFile" keep junk]
    by (simp add: settled_def disk_content_def disk_ok_def)
qed

lemma fates_irrelevant [simp]:
  "holds_state G (d\<lparr>fates := f\<rparr>) x = holds_state G d x"
  "file_state G (d\<lparr>fates := f\<rparr>) x = file_state G d x"
  "disk_ok G (d\<lparr>fates := f\<rparr>) = disk_ok G d"
  "clean (d\<lparr>fates := f\<rparr>) = clean d"
  "disk_content G (d\<lparr>fates := f\<rparr>) = disk_content G d"
  "settled G c (d\<lparr>fates := f\<rparr>) = settled G c d"
  by (simp_all add: holds_state_def file_state_def disk_ok_def clean_def disk_content_def settled_def
      cong: option.case_cong)

text \<open>What a system call can leave: its effect, its partial effect, or a power loss.\<close>

lemma syscall_cases:
  obtains (works) f where "syscall w b d = (w (d\<lparr>fates := f\<rparr>), None)"
  | (fails) f k e where "syscall w b d = (b k (d\<lparr>fates := f\<rparr>), Some e)"
  | (loses) f keep junk e where "syscall w b d = (lose keep junk (d\<lparr>fates := f\<rparr>), Some e)"
proof (cases "fates d")
  case Nil
  have "d\<lparr>fates := fates d\<rparr> = d" by simp
  moreover have "syscall w b d = (w d, None)" using Nil by (simp add: syscall_def next_fate_def)
  ultimately show thesis using works [of "fates d"] by simp
next
  case (Cons f fs)
  then show thesis
    using works [of fs] fails [of _ fs] loses [of _ _ fs]
    by (cases f) (simp_all add: syscall_def next_fate_def)
qed

lemma stateFile_tmpFile [simp]: "stateFile \<noteq> tmpFile" "tmpFile \<noteq> stateFile"
  by (simp_all add: stateFile_def tmpFile_def)

lemma settled_set_tmp:
  assumes "settled G c d" "names d tmpFile = Some i"
  shows "settled G c (set_inode i x d)"
proof -
  have ne: "names d stateFile \<noteq> Some i" "synced_names d stateFile \<noteq> Some i"
    using assms by (auto simp: settled_def disk_ok_def)
  have same: "holds_state G (set_inode i x d) (names d stateFile) = holds_state G d (names d stateFile)"
    "holds_state G (set_inode i x d) (synced_names d stateFile) = holds_state G d (synced_names d stateFile)"
    "file_state G (set_inode i x d) (names d stateFile) = file_state G d (names d stateFile)"
    using ne by (intro holds_state_cong file_state_cong; force simp: set_inode_def)+
  have "names (set_inode i x d) = names d" "synced_names (set_inode i x d) = synced_names d"
    "free (set_inode i x d) = free d" "stale (set_inode i x d) = stale d"
    "lenient (set_inode i x d) = lenient d"
    by (simp_all add: set_inode_def)
  then show ?thesis
    using assms(1) same by (simp add: settled_def disk_ok_def clean_def disk_content_def)
qed

definition tmp_is :: "bytes \<Rightarrow> disk \<Rightarrow> bool" where
  "tmp_is bs d \<longleftrightarrow> (\<exists>i. names d tmpFile = Some i \<and> seen (inodes d i) = bs)"

definition tmp_synced :: "bytes \<Rightarrow> disk \<Rightarrow> bool" where
  "tmp_synced bs d \<longleftrightarrow> (\<exists>i. names d tmpFile = Some i \<and> inodes d i = \<lparr>seen = bs, synced = Some bs\<rparr>)"

lemma open_trunc_tmp:
  assumes "settled G c d"
  shows "settled G c (open_trunc tmpFile d)" "tmp_is [] (open_trunc tmpFile d)"
proof -
  show "tmp_is [] (open_trunc tmpFile d)"
    by (cases "names d tmpFile") (simp_all add: tmp_is_def open_trunc_def set_inode_def)
  show "settled G c (open_trunc tmpFile d)"
  proof (cases "names d tmpFile")
    case (Some i)
    then show ?thesis using settled_set_tmp [OF assms Some] by (simp add: open_trunc_def)
  next
    case None
    let ?d = "open_trunc tmpFile d"
    have ok: "disk_ok G d" using assms by (simp add: settled_def)
    have fresh: "names d p \<noteq> Some (free d)" "synced_names d p \<noteq> Some (free d)" for p
      using ok unfolding disk_ok_def by (metis less_irrefl)+
    have d: "names ?d = (names d)(tmpFile \<mapsto> free d)" "synced_names ?d = synced_names d"
      "free ?d = Suc (free d)" "stale ?d = stale d" "lenient ?d = lenient d" "\<And>i. i \<noteq> free d \<Longrightarrow> inodes ?d i = inodes d i"
      using None by (simp_all add: open_trunc_def set_inode_def)
    have same: "holds_state G ?d (names d stateFile) = holds_state G d (names d stateFile)"
      "holds_state G ?d (synced_names d stateFile) = holds_state G d (synced_names d stateFile)"
      "file_state G ?d (names d stateFile) = file_state G d (names d stateFile)"
      using fresh [of stateFile] d(6) by (intro holds_state_cong file_state_cong; force)+
    have st: "names ?d stateFile = names d stateFile" by (simp add: d(1))
    have "j < free ?d" if "names ?d p = Some j \<or> synced_names ?d p = Some j" for p j
      using that ok unfolding disk_ok_def d(1-3) by (metis fun_upd_apply less_SucI lessI option.inject)
    moreover have "names ?d stateFile \<noteq> Some j \<and> synced_names ?d stateFile \<noteq> Some j"
      if "names ?d tmpFile = Some j" for j
      using that fresh [of stateFile] by (simp add: st d(2)) (simp add: d(1))
    ultimately have "disk_ok G ?d"
      using ok same(1,2) unfolding disk_ok_def st d(2,5) by blast
    then show ?thesis
      using assms same(3) by (simp add: settled_def clean_def disk_content_def st d(2,4))
  qed
qed

lemma write_file_tmp:
  assumes "settled G c d" "tmp_is bs d"
  shows "settled G c (write_file tmpFile new d)" "tmp_is (bs @ new) (write_file tmpFile new d)"
  using assms settled_set_tmp [OF assms(1)]
  by (auto simp: tmp_is_def write_file_def set_inode_def)

lemma sync_file_tmp:
  assumes "settled G c d" "tmp_is bs d"
  shows "settled G c (sync_file tmpFile d)" "tmp_synced bs (sync_file tmpFile d)"
  using assms settled_set_tmp [OF assms(1)]
  by (auto simp: tmp_is_def tmp_synced_def sync_file_def set_inode_def)

lemma fates_tmp [simp]:
  "tmp_is bs (d\<lparr>fates := f\<rparr>) = tmp_is bs d" "tmp_synced bs (d\<lparr>fates := f\<rparr>) = tmp_synced bs d"
  by (simp_all add: tmp_is_def tmp_synced_def)

text \<open>A chain of calls that keeps \<open>I\<close> throughout and ends in \<open>P\<close> when all of them work.\<close>

definition keeps :: "(disk \<Rightarrow> bool) \<Rightarrow> (disk \<Rightarrow> bool) \<Rightarrow> disk \<times> go_error \<Rightarrow> bool" where
  "keeps I P r \<longleftrightarrow> I (fst r) \<and> (snd r = None \<longrightarrow> P (fst r))"

lemma keeps_and_then:
  assumes "keeps I P r" "\<And>d. I d \<Longrightarrow> P d \<Longrightarrow> keeps I Q (f d)"
  shows "keeps I Q (and_then r f)"
  using assms by (cases r; cases "snd r") (auto simp: keeps_def and_then_def)

lemma keeps_syscall:
  assumes "I d" "P d" "\<And>d f. I (d\<lparr>fates := f\<rparr>) = I d" "\<And>d f. P (d\<lparr>fates := f\<rparr>) = P d"
    and "\<And>d keep junk. I d \<Longrightarrow> I (lose keep junk d)"
    and "\<And>d. I d \<Longrightarrow> P d \<Longrightarrow> I (w d) \<and> Q (w d)" "\<And>k d. I d \<Longrightarrow> P d \<Longrightarrow> I (b k d)"
  shows "keeps I Q (syscall w b d)"
  by (rule syscall_cases [of w b d]) (use assms in \<open>auto simp: keeps_def\<close>)

lemma keeps_wrap [simp]: "keeps I P (wrap_error m r) = keeps I P r"
  by (simp add: keeps_def wrap_error_def)

lemma writeAndSync_keeps:
  assumes "settled G c d"
  shows "keeps (settled G c) (tmp_synced data) (writeAndSync tmpFile data d)"
  unfolding writeAndSync_def
proof (intro keeps_and_then)
  show "keeps (settled G c) (tmp_is []) (syscall (open_trunc tmpFile) (\<lambda>_ d. d) d)"
    by (rule keeps_syscall [where P = "\<lambda>_. True"])
      (use assms in \<open>auto intro: settled_lose open_trunc_tmp\<close>)
  fix d assume "settled G c d" "tmp_is [] d"
  then show "keeps (settled G c) (tmp_is data)
      (syscall (write_file tmpFile data) (\<lambda>k. write_file tmpFile (take k data)) d)"
    by (intro keeps_syscall [where P = "tmp_is []"])
      (auto intro: settled_lose write_file_tmp write_file_tmp(2) [of _ _ _ "[]", simplified])
next
  fix d assume "settled G c d" "tmp_is data d"
  then show "keeps (settled G c) (tmp_synced data) (syscall (sync_file tmpFile) (\<lambda>_ d. d) d)"
    by (intro keeps_syscall [where P = "tmp_is data"]) (auto intro: settled_lose sync_file_tmp)
next
  fix d assume "settled G c d" "tmp_synced data d"
  then show "keeps (settled G c) (tmp_synced data) (syscall (\<lambda>d. d) (\<lambda>_ d. d) d)"
    by (intro keeps_syscall [where P = "tmp_synced data"]) (auto intro: settled_lose)
qed

definition renamed :: "gob_types \<Rightarrow> PersistentState \<Rightarrow> PersistentState \<Rightarrow> disk \<Rightarrow> bool" where
  "renamed G old new d \<longleftrightarrow> disk_ok G d \<and> disk_content G d = new \<and>
     (stale d \<or> file_state G d (synced_names d stateFile) = old)"

lemma fates_renamed [simp]: "renamed G old new (d\<lparr>fates := f\<rparr>) = renamed G old new d"
  by (simp add: renamed_def)

lemma rename_tmp:
  assumes "settled G c d" "tmp_synced data d" "gob_content G data = Some st" "encodeGob G st = Inr data"
  shows "renamed G c st (rename_file tmpFile stateFile d)"
proof -
  let ?d = "rename_file tmpFile stateFile d"
  obtain j where j: "names d tmpFile = Some j" "inodes d j = \<lparr>seen = data, synced = Some data\<rparr>"
    using assms(2) by (auto simp: tmp_synced_def)
  have d: "names ?d = (names d)(stateFile := Some j, tmpFile := None)" "inodes ?d = inodes d"
    "synced_names ?d = synced_names d" "stale ?d = stale d" "free ?d = free d" "lenient ?d = lenient d"
    using j(1) by (simp_all add: rename_file_def)
  have same: "holds_state G ?d x = holds_state G d x" "file_state G ?d x = file_state G d x" for x
    by (rule holds_state_cong file_state_cong, simp add: d)+
  have ok: "disk_ok G d" using assms(1) by (simp add: settled_def)
  have "j < free d" using ok j(1) unfolding disk_ok_def by blast
  then have "i < free ?d" if "names ?d p = Some i \<or> synced_names ?d p = Some i" for p i
    using that ok unfolding disk_ok_def d by (metis fun_upd_apply option.distinct(1) option.inject)
  then have "disk_ok G ?d"
    using ok j(2) assms(3,4) unfolding disk_ok_def same by (simp add: d holds_state_def)
  moreover have "disk_content G ?d = st"
    using j(2) assms(3) by (simp add: disk_content_def same d file_state_def)
  moreover have "stale ?d \<or> file_state G ?d (synced_names ?d stateFile) = c"
    using assms(1) by (auto simp: same d settled_def clean_def disk_content_def)
  ultimately show ?thesis by (simp add: renamed_def)
qed

lemma renamed_lose:
  assumes "renamed G old new d"
  shows "settled G new (lose keep junk d) \<or> settled G old (lose keep junk d)"
proof -
  let ?d = "lose keep junk d"
  have ok: "holds_state G d (names d stateFile)" "holds_state G d (synced_names d stateFile)"
    using assms by (simp_all add: renamed_def disk_ok_def)
  have "disk_content G ?d = new \<or> disk_content G ?d = old"
    using assms holds_state_lose(2) [OF ok(1)] holds_state_lose(2) [OF ok(2)]
    by (auto simp: disk_content_def lose_names renamed_def dest: disk_ok_lenient)
  then show ?thesis using assms disk_ok_lose by (auto simp: settled_def renamed_def)
qed

lemma renamed_sync:
  assumes "renamed G old new d"
  shows "settled G new (sync_names d)" "settled G new (sync_names_fails d)"
proof -
  have same: "holds_state G (sync_names d) x = holds_state G d x"
    "file_state G (sync_names d) x = file_state G d x"
    "holds_state G (sync_names_fails d) x = holds_state G d x"
    "file_state G (sync_names_fails d) x = file_state G d x" for x
    by (rule holds_state_cong file_state_cong, simp add: sync_names_def sync_names_fails_def)+
  show "settled G new (sync_names d)"
    using assms unfolding settled_def disk_ok_def clean_def disk_content_def renamed_def same
    by (auto simp: sync_names_def)
  show "settled G new (sync_names_fails d)"
    using assms unfolding settled_def disk_ok_def clean_def disk_content_def renamed_def same
    by (simp add: sync_names_fails_def)
qed

definition saved :: "gob_types \<Rightarrow> PersistentState \<Rightarrow> PersistentState \<Rightarrow> disk \<times> go_error \<Rightarrow> bool" where
  "saved G old new r \<longleftrightarrow> (settled G new (fst r) \<or> settled G old (fst r)) \<and>
     (snd r = None \<longrightarrow> settled G new (fst r))"

lemma saved_wrap [simp]: "saved G old new (wrap_error m r) = saved G old new r"
  by (simp add: saved_def wrap_error_def)

lemma syncDir_saved:
  assumes "renamed G old new d"
  shows "saved G old new (syncDir d)"
proof (rule syscall_cases [of "\<lambda>d. d" "\<lambda>_. sync_names_fails" d])
  fix f assume open_dir: "syscall (\<lambda>d. d) (\<lambda>_. sync_names_fails) d = (d\<lparr>fates := f\<rparr>, None)"
  then have "syncDir d = syscall sync_names (\<lambda>_. sync_names_fails) (d\<lparr>fates := f\<rparr>)"
    by (simp add: syncDir_def and_then_def)
  moreover have "saved G old new (syscall sync_names (\<lambda>_. sync_names_fails) (d\<lparr>fates := f\<rparr>))"
    by (rule syscall_cases [of sync_names "\<lambda>_. sync_names_fails" "d\<lparr>fates := f\<rparr>"])
      (use assms renamed_sync [of G old new] renamed_lose [of G old new] in \<open>simp_all add: saved_def\<close>)
  ultimately show ?thesis by simp
qed (use assms renamed_sync [of G old new] renamed_lose [of G old new] in
     \<open>simp_all add: saved_def syncDir_def and_then_def\<close>)

lemma rename_saved:
  assumes "settled G old d" "tmp_synced data d" "gob_content G data = Some new"
    and "encodeGob G new = Inr data"
  shows "saved G old new (and_then (wrap_error m (syscall (rename_file tmpFile stateFile) (\<lambda>_ d. d) d))
     (\<lambda>d. wrap_error m' (syncDir d)))"
proof (rule syscall_cases [of "rename_file tmpFile stateFile" "\<lambda>_ d. d" d])
  fix f assume "syscall (rename_file tmpFile stateFile) (\<lambda>_ d. d) d =
    (rename_file tmpFile stateFile (d\<lparr>fates := f\<rparr>), None)"
  moreover have "renamed G old new (rename_file tmpFile stateFile (d\<lparr>fates := f\<rparr>))"
    using assms by (intro rename_tmp [of _ _ _ data]) simp_all
  ultimately show ?thesis using syncDir_saved by (simp add: and_then_def wrap_error_def saved_def)
qed (use assms(1) settled_lose [of G old] in \<open>simp_all add: saved_def and_then_def wrap_error_def\<close>)

lemma and_then_snd:
  "snd r = None \<Longrightarrow> and_then r f = f (fst r)" "snd r = Some e \<Longrightarrow> and_then r f = r"
  by (cases r; simp add: and_then_def)+

lemma File_Save_saved:
  assumes "gob_ok G" "settled G old (disk f)" "File_Save G new f = (f', e)"
  shows "saved G old new (disk f', e)"
proof (cases "encodeGob G new")
  case (Inl x)
  then show ?thesis using assms by (auto simp: File_Save_def saved_def)
next
  case (Inr data)
  have gc: "gob_content G data = Some new" using gob_content_enc [OF assms(1) Inr] .
  let ?w = "wrap_error ''raft: writing state: '' (writeAndSync tmpFile data (disk f))"
  let ?rest = "\<lambda>d. and_then (wrap_error ''raft: replacing state: ''
      (syscall (rename_file tmpFile stateFile) (\<lambda>_ d. d) d))
      (\<lambda>d. wrap_error ''raft: syncing storage dir: '' (syncDir d))"
  have w: "keeps (settled G old) (tmp_synced data) ?w" using writeAndSync_keeps [OF assms(2)] by simp
  have "saved G old new (and_then ?w ?rest)"
  proof (cases "snd ?w")
    case None
    then have "and_then ?w ?rest = ?rest (fst ?w)" by (rule and_then_snd(1))
    then show ?thesis using rename_saved [OF _ _ gc Inr] w None by (simp add: keeps_def)
  next
    case (Some x)
    then have "and_then ?w ?rest = ?w" by (rule and_then_snd(2))
    then show ?thesis using w Some by (simp add: keeps_def saved_def)
  qed
  moreover have "disk f' = fst (and_then ?w ?rest)" "e = snd (and_then ?w ?rest)"
    using assms(3) Inr by (auto simp: File_Save_def split: prod.splits option.splits)
  ultimately show ?thesis by simp
qed

section \<open>Both are stable storage\<close>

definition memory_content :: "gob_types \<Rightarrow> MemoryStorage \<Rightarrow> PersistentState" where
  "memory_content G m = (case mstate m of None \<Rightarrow> zeroState | Some data \<Rightarrow> the (gob_content G data))"

definition file_content :: "gob_types \<Rightarrow> FileStorage \<Rightarrow> PersistentState" where
  "file_content G f = disk_content G (disk f)"

definition file_inv :: "gob_types \<Rightarrow> FileStorage \<Rightarrow> bool" where
  "file_inv G f \<longleftrightarrow> disk_ok G (disk f) \<and> clean (disk f)"

text \<open>
  What may happen to the files while no process uses them: other fates lie ahead, and the
  power may go.
\<close>

datatype disturbance = Fates "fate list" | Outage bool bytes

fun disturb_file :: "disturbance \<Rightarrow> FileStorage \<Rightarrow> FileStorage" where
  "disturb_file (Fates fs) f = f\<lparr>disk := (disk f)\<lparr>fates := fs\<rparr>\<rparr>"
| "disturb_file (Outage keep junk) f = f\<lparr>disk := lose keep junk (disk f)\<rparr>"

lemma file_inv_settled: "file_inv G f \<longleftrightarrow> settled G (file_content G f) (disk f)"
  by (simp add: file_inv_def settled_def file_content_def)

lemma settled_file: "settled G c (disk f) \<Longrightarrow> file_inv G f \<and> file_content G f = c"
  by (simp add: file_inv_def settled_def file_content_def)

lemma File_Save_result:
  assumes "gob_ok G" "file_inv G f" "File_Save G p f = (f', e)"
  shows "file_inv G f'" "file_content G f' \<in> {file_content G f, p}" "e = None \<Longrightarrow> file_content G f' = p"
proof -
  have s: "saved G (file_content G f) p (disk f', e)"
    using File_Save_saved [OF assms(1) _ assms(3)] assms(2) by (simp add: file_inv_settled)
  then have "settled G p (disk f') \<or> settled G (file_content G f) (disk f')" by (simp add: saved_def)
  then show "file_inv G f'" "file_content G f' \<in> {file_content G f, p}"
    by (auto dest: settled_file)
  show "file_content G f' = p" if "e = None"
    using s that settled_file [of G p f'] by (simp add: saved_def)
qed

lemma disturb_file_result:
  assumes "file_inv G f"
  shows "file_inv G (disturb_file d f) \<and> file_content G (disturb_file d f) = file_content G f"
proof -
  have s: "settled G (file_content G f) (disk f)" using assms by (simp add: file_inv_settled)
  show ?thesis
    by (rule settled_file, cases d) (use s settled_lose [OF s] in simp_all)
qed

lemma File_Load_result:
  assumes "file_inv G f"
  shows "file_inv G (fst (File_Load G f)) \<and> file_content G (fst (File_Load G f)) = file_content G f"
    and "File_Load G f = (f', st, None) \<Longrightarrow> st = file_content G f"
proof -
  let ?c = "file_content G f"
  have s: "settled G ?c (disk f)" using assms by (simp add: file_inv_settled)
  have "(file_inv G (fst (File_Load G f)) \<and> file_content G (fst (File_Load G f)) = ?c) \<and>
    (\<forall>f' st. File_Load G f = (f', st, None) \<longrightarrow> st = ?c)"
  proof (rule syscall_cases [of "\<lambda>d. d" "\<lambda>_ d. d" "disk f"])
    fix fs assume r: "syscall (\<lambda>d. d) (\<lambda>_ d. d) (disk f) = (disk f\<lparr>fates := fs\<rparr>, None)"
    have "file_inv G (f\<lparr>disk := disk f\<lparr>fates := fs\<rparr>\<rparr>) \<and> file_content G (f\<lparr>disk := disk f\<lparr>fates := fs\<rparr>\<rparr>) = ?c"
      using s by (intro settled_file) simp
    then show ?thesis
      using r decodeGob_content by (auto simp: File_Load_def file_content_def disk_content_def file_state_def
          split: option.splits)
  next
    fix fs k e assume r: "syscall (\<lambda>d. d) (\<lambda>_ d. d) (disk f) = (disk f\<lparr>fates := fs\<rparr>, Some e)"
    have "file_inv G (f\<lparr>disk := disk f\<lparr>fates := fs\<rparr>\<rparr>) \<and> file_content G (f\<lparr>disk := disk f\<lparr>fates := fs\<rparr>\<rparr>) = ?c"
      using s by (intro settled_file) simp
    then show ?thesis using r by (simp add: File_Load_def)
  next
    fix fs keep junk e
    assume r: "syscall (\<lambda>d. d) (\<lambda>_ d. d) (disk f) = (lose keep junk (disk f\<lparr>fates := fs\<rparr>), Some e)"
    have "file_inv G (f\<lparr>disk := lose keep junk (disk f\<lparr>fates := fs\<rparr>)\<rparr>) \<and>
        file_content G (f\<lparr>disk := lose keep junk (disk f\<lparr>fates := fs\<rparr>)\<rparr>) = ?c"
      using s by (intro settled_file) (simp add: settled_lose)
    then show ?thesis using r by (simp add: File_Load_def)
  qed
  then show "file_inv G (fst (File_Load G f)) \<and> file_content G (fst (File_Load G f)) = file_content G f"
    "File_Load G f = (f', st, None) \<Longrightarrow> st = file_content G f" by blast+
qed

locale gob_registry =
  fixes G :: gob_types
  assumes registry: "gob_ok G"

sublocale gob_registry \<subseteq> mem: hosted_storage "\<lambda>_. True" "memory_content G" "Memory_Save G" "Memory_Load G"
  "\<lambda>(_ :: unit) m. m"
proof (unfold_locales, goal_cases)
  case (2 s p s')
  then show ?case
    using gob_content_enc [OF registry] by (auto simp: Memory_Save_def memory_content_def split: sum.splits)
next
  case (3 s p s' e)
  then show ?case by (auto simp: Memory_Save_def split: sum.splits)
next
  case (5 s)
  then show ?case by (simp add: Memory_Load_def split: option.splits)
next
  case (6 s s' st)
  then show ?case
    using decodeGob_content by (fastforce simp: Memory_Load_def memory_content_def split: option.splits)
qed simp_all

sublocale gob_registry \<subseteq> files: hosted_storage "file_inv G" "file_content G" "File_Save G" "File_Load G"
  disturb_file
proof (unfold_locales, goal_cases)
  case (1 s p)
  then show ?case using File_Save_result(1) [OF registry] by (cases "File_Save G p s") simp
next
  case (2 s p s')
  then show ?case using File_Save_result(3) [OF registry] by blast
next
  case (3 s p s' e)
  then show ?case by (rule File_Save_result(2) [OF registry])
next
  case (4 s)
  then show ?case using File_Load_result(1) by blast
next
  case (5 s)
  then show ?case using File_Load_result(1) by blast
next
  case (6 s s' st)
  then show ?case by (rule File_Load_result(2))
next
  case (7 s d)
  then show ?case using disturb_file_result by blast
next
  case (8 s d)
  then show ?case using disturb_file_result by blast
qed

text \<open>
  The types as a process numbers and describes them whose first use of gob is a save:
  \<open>PersistentState\<close> is 65, \<open>[]Entry\<close> 66, \<open>Entry\<close> 67.
\<close>

definition gob_name :: "string \<Rightarrow> bytes" where
  "gob_name s = of_nat (length s) # str_bytes s"

definition field_desc :: "string \<Rightarrow> bytes \<Rightarrow> bytes" where
  "field_desc s t = 1 # gob_name s @ 1 # t @ [0]"

definition process_types :: gob_types where
  "process_types = \<lparr>
     descriptions =
       [enc_int (- 65) @ [3, 1, 1] @ gob_name ''PersistentState'' @ [1] @ enc_int 65 @ [0, 1, 3] @
          field_desc ''CurrentTerm'' (enc_int 3) @ field_desc ''VotedFor'' (enc_int 6) @
          field_desc ''Entries'' (enc_int 66) @ [0, 0],
        enc_int (- 66) @ [2, 1, 1] @ gob_name ''[]raft.Entry'' @ [1] @ enc_int 66 @ [0, 1] @
          enc_int 67 @ [0, 0],
        enc_int (- 67) @ [3, 1, 1] @ gob_name ''Entry'' @ [1] @ enc_int 67 @ [0, 1, 3] @
          field_desc ''Index'' (enc_int 3) @ field_desc ''Term'' (enc_int 3) @
          field_desc ''Command'' (enc_int 5) @ [0, 0]],
     state_type = 65\<rparr>"

lemma process_types_ok: "gob_ok process_types"
proof -
  note l = length_enc_int [of "- 67"] length_enc_int [of "- 66"] length_enc_int [of "- 65"]
    length_enc_int [of 3] length_enc_int [of 5] length_enc_int [of 6]
    length_enc_int [of 65] length_enc_int [of 66] length_enc_int [of 67]
  have d: "dec_int (enc_int (- 65) @ r) = Some (- 65, r)" "dec_int (enc_int (- 66) @ r) = Some (- 66, r)"
    "dec_int (enc_int (- 67) @ r) = Some (- 67, r)" for r
    by (rule dec_int_enc, simp)+
  show ?thesis
    using l by (simp add: gob_ok_def process_types_def d) (simp add: gob_name_def field_desc_def str_bytes_def)
qed

interpretation process: gob_registry process_types
  by unfold_locales (rule process_types_ok)

section \<open>Properties\<close>

definition example_state :: PersistentState where
  "example_state = \<lparr>CurrentTerm = 3, VotedFor = ''b'',
     SavedEntries = [sentinel 0 0, \<lparr>Index = 1, Term = 3, Command = [7, 7]\<rparr>]\<rparr>"

definition empty_disk :: "fate list \<Rightarrow> disk" where
  "empty_disk fs = \<lparr>names = Map.empty, synced_names = Map.empty, inodes = (\<lambda>_. \<lparr>seen = [], synced = None\<rparr>),
     free = 0, stale = False, lenient = True, fates = fs\<rparr>"

lemmas save_simps = File_Save_def writeAndSync_def syncDir_def syscall_def next_fate_def
  and_then_def wrap_error_def empty_disk_def open_trunc_def write_file_def sync_file_def
  rename_file_def sync_names_def set_inode_def lose_def Let_def tmpFile_def stateFile_def

lemma example_state_encodes:
  obtains data where "encodeGob process_types example_state = Inr data"
proof -
  have "length (enc_state example_state) \<le> 100"
    by (simp add: enc_state_def example_state_def uint_field_def bytes_field_def entries_field_def
        str_bytes_def enc_bytes_def enc_entry_def sentinel_def enc_uint_def)
  then show thesis
    using that length_enc_int [of 65] by (auto simp: encodeGob_def process_types_def Let_def)
qed

text \<open>
  C19. What \<open>decodeGob\<close> reads from the bytes that \<open>encodeGob\<close> made of a persistent state is
  that state, for every term, vote and log whose slice the decoder is willing to allocate
  (214,748,364 entries). Zero fields, which are left out, come back as zero.
\<close>

theorem gob_roundtrip:
  assumes "gob_ok G" "encodeGob G st = Inr data" "slice_fits (length (SavedEntries st))"
  shows "decodeGob G data = Some st"
  unfolding decodeGob_def
  using assms length_encodeGob [OF assms(2)] by (intro dec_stream_enc)

theorem gob_roundtrip_witness:
  "\<exists>data. encodeGob process_types example_state = Inr data \<and>
     decodeGob process_types data = Some example_state"
proof -
  obtain data where d: "encodeGob process_types example_state = Inr data"
    by (rule example_state_encodes)
  have "slice_fits (length (SavedEntries example_state))" by (simp add: slice_fits_def example_state_def)
  with d gob_roundtrip [OF process_types_ok d] show ?thesis by blast
qed

lemma dec_many_length: "dec_many k bs = Some (es, r) \<Longrightarrow> length es = k"
  by (induction k arbitrary: bs es) (auto split: option.splits prod.splits)

text \<open>
  C21. A log of more entries than that is saved without an error, but no decoder reads it
  back: the encoder's only limit is the size of the message.
\<close>

theorem gob_oversized:
  assumes "gob_ok G" "encodeGob G st = Inr data" "\<not> slice_fits (length (SavedEntries st))"
  shows "decodeGob G data = None"
proof (cases "decodeGob G data")
  case (Some st')
  then have "st' = st" using decodeGob_content [OF Some] gob_content_enc [OF assms(1,2)] by simp
  moreover have "state_dec slice_fits r i bs = Some (x, b) \<Longrightarrow>
      slice_fits (length (SavedEntries r)) \<Longrightarrow> slice_fits (length (SavedEntries x))" for r i bs x b
    using dec_many_length by (auto simp: state_dec_def split: if_splits option.splits)
  then have "dec_fields (state_dec slice_fits) k i r bs = Some (x, b) \<Longrightarrow>
      slice_fits (length (SavedEntries r)) \<Longrightarrow> slice_fits (length (SavedEntries x))" for k i r bs x b
    by (induction k arbitrary: i r bs) (auto split: if_splits option.splits prod.splits)
  then have "dec_stream slice_fits G k bs = Some x \<Longrightarrow> slice_fits (length (SavedEntries x))" for k bs x
    by (induction k arbitrary: bs)
      (auto simp: zeroState_def slice_fits_def split: if_splits option.splits prod.splits)
  ultimately show ?thesis using Some assms(3) by (auto simp: decodeGob_def)
qed

lemma big_state_encodes:
  "\<exists>data. encodeGob process_types (zeroState\<lparr>SavedEntries := replicate 214748365 (sentinel 0 0)\<rparr>) = Inr data"
proof -
  have "enc_entry (sentinel 0 0) = [0]"
    by (simp add: enc_entry_def sentinel_def uint_field_def bytes_field_def enc_uint_def)
  then have c: "length (concat (map enc_entry (replicate n (sentinel 0 0)))) = n" for n
    by (induction n) simp_all
  show ?thesis
    using length_enc_int [of 65] length_enc_uint [of 214748365] length_enc_uint [of 3] length_enc_uint [of 0]
      c [of 214748365]
    by (simp add: encodeGob_def process_types_def Let_def enc_state_def zeroState_def uint_field_def
        bytes_field_def str_bytes_def entries_field_def numeral_3_eq_3)
qed

theorem gob_oversized_witness:
  "\<exists>data. encodeGob process_types (zeroState\<lparr>SavedEntries := replicate 214748365 (sentinel 0 0)\<rparr>) = Inr data \<and>
     decodeGob process_types data = None"
proof -
  obtain data where d: "encodeGob process_types
      (zeroState\<lparr>SavedEntries := replicate 214748365 (sentinel 0 0)\<rparr>) = Inr data"
    using big_state_encodes by blast
  have "\<not> slice_fits (length (SavedEntries (zeroState\<lparr>SavedEntries := replicate 214748365 (sentinel 0 0)\<rparr>)))"
    by (simp add: slice_fits_def)
  with gob_oversized [OF process_types_ok d] d show ?thesis by blast
qed

text \<open>
  C17. \<open>FileStorage.Save\<close> is atomic and durable on a lenient file system, whatever the fates of its system calls,
  power losses among them: afterwards the directory holds the old state or the new one;
  when \<open>Save\<close> reported no error it holds the new one, also after any later power loss.
\<close>

theorem file_save_atomic:
  assumes "gob_ok G" "file_inv G f" "File_Save G st f = (f', e)"
  shows "file_inv G f' \<and> file_content G f' \<in> {file_content G f, st} \<and>
    (e = None \<longrightarrow> file_content G f' = st \<and> file_content G (disturb_file (Outage keep junk) f') = st)"
  using File_Save_result [OF assms] disturb_file_result [of G f' "Outage keep junk"] by auto

lemma empty_disk_inv: "file_inv G \<lparr>disk = empty_disk fs, fsize = 0\<rparr>"
  "file_content G \<lparr>disk = empty_disk fs, fsize = 0\<rparr> = zeroState"
  by (simp_all add: file_inv_def disk_ok_def clean_def empty_disk_def holds_state_def file_content_def
      disk_content_def file_state_def)

theorem file_save_atomic_witness:
  "\<exists>f'. File_Save process_types example_state
      \<lparr>disk = empty_disk [Works, Works, Works, Works, Works, PowerLoss False []], fsize = 0\<rparr>
      = (f', Some ''raft: syncing storage dir: power loss'') \<and>
    file_content process_types f' \<in> {zeroState, example_state}"
proof -
  let ?f = "\<lparr>disk = empty_disk [Works, Works, Works, Works, Works, PowerLoss False []], fsize = 0\<rparr>"
  obtain data where d: "encodeGob process_types example_state = Inr data"
    by (rule example_state_encodes)
  obtain f' e where s: "File_Save process_types example_state ?f = (f', e)" by fastforce
  have "e = Some ''raft: syncing storage dir: power loss''"
    using s d by (auto simp: save_simps split: prod.splits)
  then show ?thesis
    using s file_save_atomic [OF process_types_ok empty_disk_inv(1) s] empty_disk_inv(2) by auto
qed

lemma load_settled:
  assumes "gob_ok G" "file_inv G f" "fates (disk f) = []"
    and "slice_fits (length (SavedEntries (file_content G f)))"
  shows "File_Load G f = (f, file_content G f, None)"
proof (cases "names (disk f) stateFile")
  case None
  then show ?thesis using assms(3)
    by (simp add: File_Load_def syscall_def next_fate_def file_content_def disk_content_def file_state_def)
next
  case (Some i)
  then obtain c where c: "gob_content G (seen (inodes (disk f) i)) = Some c"
      "encodeGob G c = Inr (seen (inodes (disk f) i))"
    using assms(2) by (auto simp: file_inv_def disk_ok_def holds_state_def)
  then have "file_content G f = c" using Some by (simp add: file_content_def disk_content_def file_state_def)
  moreover from this have "decodeGob G (seen (inodes (disk f) i)) = Some c"
    unfolding decodeGob_def using assms(1,4) c(2) length_encodeGob [OF c(2)] by (intro dec_stream_enc) simp_all
  ultimately show ?thesis
    using Some assms(3) by (simp add: File_Load_def syscall_def next_fate_def)
qed

text \<open>
  C18. A save that reported no error is what the next successful read of the file decodes:
  after the power went or not, and whatever the log is as long as the decoder takes a slice
  of that many entries, \<open>Load\<close> returns exactly the saved state and no error.
\<close>

theorem file_save_load:
  assumes "gob_ok G" "file_inv G f" "File_Save G st f = (f', None)" "slice_fits (length (SavedEntries st))"
    and "g = disturb_file (Fates []) (if outage then disturb_file (Outage keep junk) f' else f')"
  shows "File_Load G g = (g, st, None)"
proof -
  have "file_inv G g \<and> file_content G g = st"
    using File_Save_result [OF assms(1-3)] disturb_file_result [of G] assms(5)
    by (simp del: disturb_file.simps)
  then show ?thesis using load_settled [OF assms(1), of g] assms(4,5) by simp
qed

theorem file_save_load_witness:
  "\<exists>f'. File_Save process_types example_state \<lparr>disk = empty_disk [], fsize = 0\<rparr> = (f', None) \<and>
     snd (File_Load process_types (disturb_file (Fates []) (disturb_file (Outage False [1, 2]) f')))
       = (example_state, None)"
proof -
  let ?f = "\<lparr>disk = empty_disk [], fsize = 0\<rparr>"
  obtain data where d: "encodeGob process_types example_state = Inr data"
    by (rule example_state_encodes)
  obtain f' e where s: "File_Save process_types example_state ?f = (f', e)" by fastforce
  have "e = None" using s d by (auto simp: save_simps split: prod.splits)
  then show ?thesis
    using s file_save_load [where outage = True and keep = False and junk = "[1, 2]", OF process_types_ok
        empty_disk_inv(1) s [unfolded \<open>e = None\<close>] _ refl]
    by (simp add: slice_fits_def example_state_def)
qed

text \<open>
  C20. When the sync of the directory fails after the rename, \<open>Save\<close> reports an error, but a restarted process
  loads the new state. On a file system that can still lose the rename, a later power loss brings back
  the old state: what the process has loaded, and may have acted on, is gone.
\<close>

theorem failed_sync_reverts:
  assumes "gob_ok G" "encodeGob G st = Inr data" "slice_fits (length (SavedEntries st))"
    and "f = \<lparr>disk = (empty_disk [Works, Works, Works, Works, Works, Works, Fails 0])\<lparr>lenient := False\<rparr>, fsize = 0\<rparr>"
  shows "\<exists>f'. File_Save G st f = (f', Some ''raft: syncing storage dir: input/output error'') \<and>
    File_Load G f' = (f', st, None) \<and>
    snd (File_Load G (disturb_file (Outage False junk) f')) = (zeroState, None)"
proof -
  have dec: "decodeGob G data = Some st"
    unfolding decodeGob_def using assms(1-3) length_encodeGob [OF assms(2)] by (intro dec_stream_enc)
  show ?thesis
    using assms(2) dec by (simp add: assms(4) save_simps sync_names_fails_def File_Load_def)
qed

theorem failed_sync_reverts_witness:
  "\<exists>f'. File_Save process_types example_state
      \<lparr>disk = (empty_disk [Works, Works, Works, Works, Works, Works, Fails 0])\<lparr>lenient := False\<rparr>, fsize = 0\<rparr>
      = (f', Some ''raft: syncing storage dir: input/output error'') \<and>
    File_Load process_types f' = (f', example_state, None) \<and>
    snd (File_Load process_types (disturb_file (Outage False []) f')) = (zeroState, None)"
proof -
  obtain data where d: "encodeGob process_types example_state = Inr data"
    by (rule example_state_encodes)
  have "slice_fits (length (SavedEntries example_state))" by (simp add: slice_fits_def example_state_def)
  then show ?thesis using failed_sync_reverts [OF process_types_ok d _ refl] by simp
qed

lemma File_Save_file:
  assumes "encodeGob G st = Inr data" "File_Save G st f = (f', None)"
  shows "fsize f' = length data"
  using assms by (auto simp: File_Save_def split: prod.splits option.splits)

lemma syscall_ok:
  assumes "syscall w b d = (d', None)"
  obtains fs where "d' = w (d\<lparr>fates := fs\<rparr>)"
  using assms by (cases rule: syscall_cases [of w b d]) auto

lemma and_then_ok:
  assumes "and_then r f = (d, None)"
  obtains d' where "r = (d', None)" "f d' = (d, None)"
  using assms by (auto simp: and_then_def split: prod.splits option.splits)

lemma wrap_error_ok [simp]: "wrap_error m r = (d, None) \<longleftrightarrow> r = (d, None)"
  by (cases r) (simp add: wrap_error_def)

lemma File_Save_names:
  assumes "File_Save G st f = (f', None)"
  obtains i where "names (disk f') stateFile = Some i"
proof -
  obtain data d1 d2 where w: "writeAndSync tmpFile data (disk f) = (d1, None)"
      and r: "syscall (rename_file tmpFile stateFile) (\<lambda>_ d. d) d1 = (d2, None)"
      and s: "syncDir d2 = (disk f', None)"
    using assms by (auto simp: File_Save_def elim!: and_then_ok split: sum.splits prod.splits option.splits)
  have "names d1 tmpFile \<noteq> None"
    using w unfolding writeAndSync_def
    by (auto elim!: and_then_ok syscall_ok simp: open_trunc_def write_file_def sync_file_def set_inode_def
        split: option.splits)
  then have "names d2 stateFile \<noteq> None"
    using r by (auto elim!: syscall_ok simp: rename_file_def)
  moreover have "names (disk f') = names d2"
    using s unfolding syncDir_def by (auto elim!: and_then_ok syscall_ok simp: sync_names_def)
  ultimately show thesis using that by auto
qed

text \<open>
  The size that \<open>StateSize\<close> reports is that of the encoded state: after every save
  that reported no error, and in a storage opened again on the same directory.
\<close>

lemma state_size_reported:
  assumes "gob_ok G" "file_inv G f" "File_Save G st f = (f', None)" "encodeGob G st = Inr data"
    and "NewFileStorage (disk f') = (d, Inr g)"
  shows "File_StateSize f' = length data \<and> File_StateSize g = length data"
proof -
  have inv: "file_inv G f'" "file_content G f' = st" using File_Save_result [OF assms(1-3)] by simp_all
  obtain i where i: "names (disk f') stateFile = Some i" using File_Save_names [OF assms(3)] .
  then obtain c where c: "gob_content G (seen (inodes (disk f') i)) = Some c"
      "encodeGob G c = Inr (seen (inodes (disk f') i))"
    using inv(1) by (auto simp: file_inv_def disk_ok_def holds_state_def)
  then have "c = st" using i inv(2) by (simp add: file_content_def disk_content_def file_state_def)
  then have "seen (inodes (disk f') i) = data" using c assms(4) by simp
  moreover have "fsize g = length (seen (inodes (disk f') i))"
    using assms(5) i by (auto simp: NewFileStorage_def syscall_def next_fate_def
        split: prod.splits option.splits fate.splits list.splits if_splits)
  ultimately show ?thesis using File_Save_file [OF assms(4,3)] by (simp add: File_StateSize_def)
qed

text \<open>
  The same round trip in memory: \<open>Load\<close> after a save without an error returns the saved
  state, a failed save leaves the old one, and a clone taken before is not touched by it.
\<close>

lemma memory_save_load:
  assumes "gob_ok G" "slice_fits (length (SavedEntries st))" "Memory_Save G st m = (m', e)"
  shows "(e = None \<longrightarrow> Memory_Load G m' = (m', st, None)) \<and> (e \<noteq> None \<longrightarrow> m' = m) \<and>
    Memory_Load G (Memory_Clone m) = (Memory_Clone m, snd (Memory_Load G m))"
proof -
  have "decodeGob G data = Some st" if "encodeGob G st = Inr data" for data
    unfolding decodeGob_def using that assms(1,2) length_encodeGob [OF that] by (intro dec_stream_enc)
  then show ?thesis
    using assms(3) by (auto simp: Memory_Save_def Memory_Load_def Memory_Clone_def
        split: sum.splits option.splits)
qed

end
