(* ===== verification/Raft_System.thy ===== *)
theory Raft_System
  imports Raft_Progress Raft_Campaign Raft_Storage
begin

text \<open>
  The whole consensus system as it is deployed: the nodes of Raft_Node, the network of
  Raft_Cluster and the file storage of Raft_Storage. The locale of Raft_Sim is interpreted
  here, and the guarantees of the cluster are stated for every configuration in which the
  members name each other, for every sequence of actions and for every pattern of disk
  faults, on file systems that are lenient in the sense of Raft_Storage. A run of three nodes, with an election, a commit, a power loss and deliveries on
  two nodes, shows that the hypotheses can be met.
\<close>

section \<open>Clusters on files\<close>

definition file_cluster ::
  "gob_types \<Rightarrow> NodeID list \<Rightarrow> (NodeID \<Rightarrow> FileStorage Config) \<Rightarrow> (FileStorage, disturbance) deployment" where
  "file_cluster G members conf =
     \<lparr>dMembers = members, dConf = conf, dSave = File_Save G, dLoad = File_Load G, dDisturb = disturb_file\<rparr>"

definition blank :: "(NodeID \<Rightarrow> fate list) \<Rightarrow> NodeID \<Rightarrow> FileStorage" where
  "blank faults n = \<lparr>disk = empty_disk (faults n), fsize = 0\<rparr>"

definition conf_ok :: "NodeID list \<Rightarrow> (NodeID \<Rightarrow> FileStorage Config) \<Rightarrow> bool" where
  "conf_ok members conf \<longleftrightarrow>
     (\<forall>n\<in>set members. cfgID (conf n) = n \<and> set (Peers (conf n)) = set members)"

definition raft_run ::
  "gob_types \<Rightarrow> NodeID list \<Rightarrow> (NodeID \<Rightarrow> FileStorage Config) \<Rightarrow> (NodeID \<Rightarrow> fate list) \<Rightarrow>
   FileStorage cluster \<Rightarrow> bool" where
  "raft_run G members conf faults c \<longleftrightarrow> gob_ok G \<and> conf_ok members conf \<and>
     creachable (file_cluster G members conf) (blank faults) c"

lemma file_cluster_simps [simp]:
  "dMembers (file_cluster G members conf) = members" "dConf (file_cluster G members conf) = conf"
  "dSave (file_cluster G members conf) = File_Save G" "dLoad (file_cluster G members conf) = File_Load G"
  "dDisturb (file_cluster G members conf) = disturb_file"
  by (simp_all add: file_cluster_def)

context gob_registry
begin

lemma files_hosted: "hosted_storage (file_inv G) (file_content G) (File_Save G) (File_Load G) disturb_file"
  by unfold_locales

end

lemma file_deployment:
  assumes "gob_ok G" "conf_ok members conf"
  shows "raft_deployment (file_inv G) (file_content G) (file_cluster G members conf) (blank faults)"
proof -
  have "hosted_storage (file_inv G) (file_content G) (File_Save G) (File_Load G) disturb_file"
    by (rule gob_registry.files_hosted [OF gob_registry.intro [OF assms(1)]])
  then show ?thesis
    using assms(2) empty_disk_inv
    by (auto simp: raft_deployment_def raft_deployment_axioms_def conf_ok_def blank_def)
qed

lemma raft_runD:
  assumes "raft_run G members conf faults c"
  shows "raft_deployment (file_inv G) (file_content G) (file_cluster G members conf) (blank faults)"
    "creachable (file_cluster G members conf) (blank faults) c"
  using assms file_deployment by (simp_all add: raft_run_def)

section \<open>A run of three nodes\<close>

definition example_conf :: "NodeID \<Rightarrow> FileStorage Config" where
  "example_conf n = \<lparr>cfgID = n, Peers = [''a'', ''b'', ''c''], Transport = Some (), Storage = None,
     ApplyCh = Some (), ElectionTimeoutMin = 0, ElectionTimeoutMax = 0, HeartbeatInterval = 0,
     RPCTimeout = 0, MaxEntriesPerAppend = 0\<rparr>"

lemma syscall_works: "fates d = [] \<Longrightarrow> syscall w b d = (w d, None)"
  by (simp add: syscall_def next_fate_def)

lemma fates_kept [simp]:
  "fates (open_trunc p d) = fates d" "fates (write_file p bs d) = fates d" "fates (sync_file p d) = fates d"
  "fates (rename_file p q d) = fates d" "fates (sync_names d) = fates d"
  by (simp_all add: open_trunc_def write_file_def sync_file_def rename_file_def sync_names_def set_inode_def
      split: option.splits)

definition quiet :: "FileStorage \<Rightarrow> bool" where
  "quiet f \<longleftrightarrow> fates (disk f) = [] \<and> file_inv process_types f"

definition small :: "PersistentState \<Rightarrow> bool" where
  "small st \<longleftrightarrow> length (VotedFor st) \<le> 100 \<and> length (SavedEntries st) \<le> 100 \<and>
     (\<forall>e\<in>set (SavedEntries st). length (Command e) \<le> 100)"

definition saved_to :: "PersistentState \<Rightarrow> FileStorage \<Rightarrow> FileStorage" where
  "saved_to st f = fst (File_Save process_types st f)"

lemma small_encodes:
  assumes "small st"
  obtains data where "encodeGob process_types st = Inr data"
proof -
  have u: "length (enc_uint (unat (x :: u64))) \<le> 9" for x
    using length_enc_uint [of "unat x"] unat_u64_le by blast
  have k: "length (enc_uint k) \<le> 9" if "k \<le> 1000" for k using length_enc_uint [of k] that by simp
  have e: "length (enc_entry e) \<le> 200" if "length (Command e) \<le> 100" for e
    using u [of "Index e"] u [of "Term e"] k [of "length (Command e)"] that k [of 0] k [of 1] k [of 2] k [of 3]
    by (simp add: enc_entry_def uint_field_def bytes_field_def enc_bytes_def numeral_2_eq_2 numeral_3_eq_3)
  have es: "length (concat (map enc_entry xs)) \<le> length xs * 200" if "\<forall>e\<in>set xs. length (Command e) \<le> 100" for xs
    using that by (induction xs) (auto dest!: e)
  have "length (concat (map enc_entry (SavedEntries st))) \<le> 20000"
    using assms es [of "SavedEntries st"] by (auto simp: small_def)
  then have "length (enc_state st) \<le> 30000"
    using assms u [of "CurrentTerm st"] k [of "length (VotedFor st)"] k [of 0] k [of 1] k [of 2] k [of 3]
      k [of "length (SavedEntries st)"]
    by (simp add: small_def enc_state_def uint_field_def bytes_field_def enc_bytes_def entries_field_def
        str_bytes_def numeral_2_eq_2 numeral_3_eq_3)
  then show thesis
    using that length_enc_int [of 65] by (simp add: encodeGob_def process_types_def Let_def)
qed

lemma quiet_save:
  assumes "small st" "quiet f"
  shows "File_Save process_types st f = (saved_to st f, None)" "quiet (saved_to st f)"
    "file_content process_types (saved_to st f) = st"
proof -
  obtain data where data: "encodeGob process_types st = Inr data" using small_encodes [OF assms(1)] .
  obtain f' e where s: "File_Save process_types st f = (f', e)" by fastforce
  have e: "e = None" "fates (disk f') = []"
    using s data assms(2)
    by (auto simp: File_Save_def writeAndSync_def syncDir_def and_then_def wrap_error_def quiet_def syscall_works)
  note r = File_Save_result [OF process_types_ok _ s]
  show "File_Save process_types st f = (saved_to st f, None)" "quiet (saved_to st f)"
    "file_content process_types (saved_to st f) = st"
    using s e r assms(2) by (simp_all add: saved_to_def quiet_def)
qed

lemma quiet_load:
  assumes "quiet f" "small (file_content process_types f)"
  shows "File_Load process_types f = (f, file_content process_types f, None)"
  using assms load_settled [OF process_types_ok, of f] by (simp add: quiet_def small_def slice_fits_def)

lemma quiet_blank: "quiet (blank (\<lambda>_. []) n)" "file_content process_types (blank (\<lambda>_. []) n) = zeroState"
  using empty_disk_inv [of process_types "[]"] by (simp_all add: quiet_def blank_def empty_disk_def)

lemma quiet_outage:
  assumes "quiet f"
  shows "quiet (disturb_file (Outage keep junk) f)"
    "file_content process_types (disturb_file (Outage keep junk) f) = file_content process_types f"
  using assms disturb_file_result [of process_types f "Outage keep junk"]
  by (simp_all add: quiet_def lose_def Let_def)

definition trio :: "(FileStorage, disturbance) deployment" where
  "trio = file_cluster process_types [''a'', ''b'', ''c''] example_conf"

lemma trio_conf: "conf_ok [''a'', ''b'', ''c''] example_conf"
  by (simp add: conf_ok_def example_conf_def)

interpretation trio: raft_deployment "file_inv process_types" "file_content process_types" trio
  "blank (\<lambda>_. [])"
  unfolding trio_def by (rule file_deployment [OF process_types_ok trio_conf])

definition at_time :: "int \<Rightarrow> env" where "at_time t = \<lparr>now = t, draw = 0\<rparr>"

text \<open>
  \<open>a\<close> is elected with the vote of \<open>b\<close>, replicates its first entry to \<open>b\<close>, which then loses
  power and restarts, commits the entry, delivers it, and tells \<open>b\<close>, which delivers it too.
\<close>

definition vote_args :: RequestVoteArgs where
  "vote_args = \<lparr>rvTerm = 1, CandidateID = ''a'', LastLogIndex = 0, LastLogTerm = 0\<rparr>"

definition first_append :: AppendEntriesArgs where
  "first_append = \<lparr>aeTerm = 1, LeaderID = ''a'', PrevLogIndex = 0, PrevLogTerm = 0,
     Entries = [\<lparr>Index = 1, Term = 1, Command = []\<rparr>], LeaderCommit = 0\<rparr>"

definition second_append :: AppendEntriesArgs where
  "second_append = \<lparr>aeTerm = 1, LeaderID = ''a'', PrevLogIndex = 1, PrevLogTerm = 1,
     Entries = [], LeaderCommit = 1\<rparr>"

definition script :: "disturbance action list" where
  "script =
     [Boot ''a'' (at_time 0), StartUp ''a'' (at_time 0), Boot ''b'' (at_time 0),
      Tick ''a'' (at_time 150000001), SendVote ''a'' ''b'' vote_args,
      RecvVote ''a'' ''b'' vote_args (at_time 150000002),
      VoteReply ''a'' ''b'' vote_args \<lparr>rvrTerm = 1, VoteGranted = True\<rparr> (at_time 150000003),
      Heartbeat ''a'' 1, Replicate ''a'' ''b'' 1,
      RecvAppend ''a'' ''b'' first_append (at_time 150000004),
      Crash ''b'', Disturb ''b'' (Outage False []), Boot ''b'' (at_time 150000005),
      StartUp ''b'' (at_time 150000005),
      AppendReply ''a'' ''b'' 1 first_append \<lparr>aerTerm = 1, Success = True\<rparr> (at_time 150000006),
      TakeBatch ''a'', Receive ''a'', Deliver ''a'', BatchDone ''a'',
      Heartbeat ''a'' 1, Replicate ''a'' ''b'' 1,
      RecvAppend ''a'' ''b'' second_append (at_time 150000007), TakeBatch ''b'',
      Receive ''b'', Deliver ''b'']"

lemmas run_simps = trio_def perform_def boot_def boot_config_def set_server_def example_conf_def
  bounded_def node_bounded_def cinit_def at_time_def New_def withDefaults_def validate_def
  DefaultElectionTimeoutMin_def DefaultElectionTimeoutMax_def DefaultHeartbeatInterval_def
  DefaultRPCTimeout_def DefaultMaxEntriesPerAppend_def restoreState_def zeroState_def
  resetElectionTimer_def proc_action_def settle_def Start_def spawn_def newRaftLog_def sentinel_def
  ticker_def startElection_def becomeCandidate_def persist_def persistent_def quorum_def vote_args_def first_append_def
  second_append_def
  recv_vote_def HandleRequestVote_def observeTerm_def becomeFollower_def isUpToDate_def lastTerm_def lastIndex_def
  end_thread_def requestVote_def becomeLeader_def append_entries_def fill_map_def
  advanceCommitIndex_def advance_loop.simps term_at_def pos_def snapshotIndex_def replica_count_def map_get_def
  index_at_def slice_from_def slice_to_def
  heartbeat_def leaderLoop_def replicate_call_def replicateTo_request_def entriesFrom_def recv_append_def HandleAppendEntries_def
  matches_def replicateTo_reply_def take_batch_def deliver_def batch_done_def applier_batch_def applier_done_def apply_msg_def
  small_def Let_def

definition example_msg :: ApplyMsg where
  "example_msg = \<lparr>amIndex = 1, amTerm = 1, amCommand = []\<rparr>"

definition leads_and_agrees :: "FileStorage cluster \<Rightarrow> bool" where
  "leads_and_agrees c \<longleftrightarrow>
     (case (servers c ''a'', servers c ''b'') of
        (Running p, Running q) \<Rightarrow>
          role (node p) = Leader \<and> role (node q) = Follower \<and>
          currentTerm (node p) = 1 \<and> currentTerm (node q) = 1 \<and>
          commitIndex (node p) = 1 \<and> commitIndex (node q) = 1 \<and>
          entries (log (node p)) = [sentinel 0 0, \<lparr>Index = 1, Term = 1, Command = []\<rparr>] \<and>
          entries (log (node q)) = [sentinel 0 0, \<lparr>Index = 1, Term = 1, Command = []\<rparr>] \<and>
          sent p = [example_msg] \<and> LeaderLoop 1 \<in> set (threads (node p)) \<and>
          Applier \<in> set (threads (node q)) \<and> Ticker \<in> set (threads (node q)) \<and>
          \<not> stopped (node p) \<and> \<not> stopped (node q)
      | _ \<Rightarrow> False) \<and>
     (''a'', example_msg) \<in> delivered c \<and> (''b'', example_msg) \<in> delivered c \<and> bounded trio c"

lemma script_runs: "\<exists>c. run trio script (cinit (blank (\<lambda>_. []))) = Some c \<and> leads_and_agrees c"
  by (simp add: script_def run_simps quiet_save quiet_load quiet_blank quiet_outage leads_and_agrees_def
      example_msg_def del: disturb_file.simps)

lemma example_run:
  obtains c p q where "raft_run process_types [''a'', ''b'', ''c''] example_conf (\<lambda>_. []) c"
    "leads_and_agrees c" "servers c ''a'' = Running p" "servers c ''b'' = Running q"
proof -
  obtain c where c: "run trio script (cinit (blank (\<lambda>_. []))) = Some c" "leads_and_agrees c"
    using script_runs by blast
  have "creachable trio (blank (\<lambda>_. [])) c" by (rule run_reachable [OF c(1) creachable.start])
  then have "raft_run process_types [''a'', ''b'', ''c''] example_conf (\<lambda>_. []) c"
    using process_types_ok trio_conf by (simp add: raft_run_def trio_def)
  moreover obtain p q where "servers c ''a'' = Running p" "servers c ''b'' = Running q"
    using c(2) by (auto simp: leads_and_agrees_def split: server.splits)
  ultimately show thesis using that c(2) by blast
qed

section \<open>Guarantees\<close>

lemma example_facts:
  assumes "leads_and_agrees c" "servers c ''a'' = Running p" "servers c ''b'' = Running q"
  shows "role (node p) = Leader" "role (node q) = Follower" "currentTerm (node p) = 1"
    "currentTerm (node q) = 1" "commitIndex (node p) = 1" "commitIndex (node q) = 1"
    "entries (log (node p)) = [sentinel 0 0, \<lparr>Index = 1, Term = 1, Command = []\<rparr>]"
    "entries (log (node q)) = [sentinel 0 0, \<lparr>Index = 1, Term = 1, Command = []\<rparr>]"
    "sent p = [example_msg]" "LeaderLoop 1 \<in> set (threads (node p))"
    "(''a'', example_msg) \<in> delivered c" "(''b'', example_msg) \<in> delivered c" "bounded trio c"
    "Applier \<in> set (threads (node q))" "\<not> stopped (node q)" "\<not> stopped (node p)"
    "Ticker \<in> set (threads (node q))"
  using assms by (auto simp: leads_and_agrees_def)

lemma example_entry:
  assumes "entries l = [sentinel 0 0, \<lparr>Index = 1, Term = 1, Command = []\<rparr>]"
  shows "entry_at l 1 = Some \<lparr>Index = 1, Term = 1, Command = []\<rparr>"
  using assms by (simp add: entry_at_def first_index_def sentinel_def)

text \<open>
  C1. Election safety: two servers never lead in the same term, whatever messages are lost,
  duplicated or late, and whichever servers crash, lose power or fail to write their disks.
\<close>

theorem election_safety:
  assumes "raft_run G members conf faults c" "n \<in> set members" "m \<in> set members" "n \<noteq> m"
    and "servers c n = Running p" "servers c m = Running q" "role (node p) = Leader"
  shows "\<not> (role (node q) = Leader \<and> currentTerm (node q) = currentTerm (node p))"
  using raft_deployment.one_leader_per_term [OF raft_runD [OF assms(1)], of n m p q] assms(2-7) by auto

theorem election_safety_witness:
  "\<exists>c p q. raft_run process_types [''a'', ''b'', ''c''] example_conf (\<lambda>_. []) c \<and>
     servers c ''a'' = Running p \<and> servers c ''b'' = Running q \<and> role (node p) = Leader \<and>
     \<not> (role (node q) = Leader \<and> currentTerm (node q) = currentTerm (node p))"
proof -
  obtain c p q where r: "raft_run process_types [''a'', ''b'', ''c''] example_conf (\<lambda>_. []) c"
    "leads_and_agrees c" "servers c ''a'' = Running p" "servers c ''b'' = Running q" by (rule example_run)
  then show ?thesis
    using election_safety [OF r(1) _ _ _ r(3,4)] example_facts(1) [OF r(2-4)] by (intro exI) simp
qed

text \<open>
  C2. State machine safety: no two servers, and no server before and after a restart, ever
  deliver different commands, or a command of different terms, at the same index.
\<close>

theorem state_machine_safety:
  assumes "raft_run G members conf faults c"
    and "(n, x) \<in> delivered c" "(m, y) \<in> delivered c" "amIndex x = amIndex y"
  shows "x = y"
  by (rule raft_deployment.deliveries_agree [OF raft_runD [OF assms(1)] assms(2-4)])

theorem state_machine_safety_witness:
  "\<exists>c x y. raft_run process_types [''a'', ''b'', ''c''] example_conf (\<lambda>_. []) c \<and>
     (''a'', x) \<in> delivered c \<and> (''b'', y) \<in> delivered c \<and> x = y"
proof -
  obtain c p q where r: "raft_run process_types [''a'', ''b'', ''c''] example_conf (\<lambda>_. []) c"
    "leads_and_agrees c" "servers c ''a'' = Running p" "servers c ''b'' = Running q" by (rule example_run)
  then show ?thesis
    using state_machine_safety [OF r(1) example_facts(11,12) [OF r(2-4)] refl] example_facts(11,12) [OF r(2-4)]
    by blast
qed

text \<open>
  C5. Leader completeness: an entry below the commit index of any server is in the log of
  every leader of the same or a later term, at the same place.
\<close>

theorem leader_completeness:
  assumes "raft_run G members conf faults c" "n \<in> set members" "m \<in> set members"
    and "servers c n = Running p" "servers c m = Running q" "role (node q) = Leader"
    and "currentTerm (node p) \<le> currentTerm (node q)" "0 < j" "j \<le> unat (commitIndex (node p))"
  shows "entry_at (log (node q)) j = entry_at (log (node p)) j \<and> entry_at (log (node p)) j \<noteq> None"
  using raft_deployment.committed_in_leaders [OF raft_runD [OF assms(1)], of n m p q j] assms(2-9) by simp

theorem leader_completeness_witness:
  "\<exists>c p q e. raft_run process_types [''a'', ''b'', ''c''] example_conf (\<lambda>_. []) c \<and>
     servers c ''b'' = Running p \<and> servers c ''a'' = Running q \<and> commitIndex (node p) = 1 \<and>
     entry_at (log (node p)) 1 = Some e \<and> entry_at (log (node q)) 1 = Some e"
proof -
  obtain c p q where r: "raft_run process_types [''a'', ''b'', ''c''] example_conf (\<lambda>_. []) c"
    "leads_and_agrees c" "servers c ''a'' = Running p" "servers c ''b'' = Running q" by (rule example_run)
  note f = example_facts [OF r(2-4)]
  have "entry_at (log (node p)) 1 = entry_at (log (node q)) 1 \<and> entry_at (log (node q)) 1 \<noteq> None"
    by (rule leader_completeness [OF r(1) _ _ r(4,3) f(1)]) (simp_all add: f)
  then show ?thesis using r f(6) by auto
qed

text \<open>
  C6. Log matching: when the logs of two servers have an entry of the same term at the same
  index, they are equal up to there.
\<close>

theorem log_matching:
  assumes "raft_run G members conf faults c" "n \<in> set members" "m \<in> set members"
    and "servers c n = Running p" "servers c m = Running q"
    and "entry_at (log (node p)) i = Some e" "entry_at (log (node q)) i = Some e'" "Term e = Term e'"
    and "j \<le> i"
  shows "entry_at (log (node p)) j = entry_at (log (node q)) j"
  using raft_deployment.logs_match [OF raft_runD [OF assms(1)], of n m p q i e e' j] assms(2-9) by simp

theorem log_matching_witness:
  "\<exists>c p q e. raft_run process_types [''a'', ''b'', ''c''] example_conf (\<lambda>_. []) c \<and>
     servers c ''a'' = Running p \<and> servers c ''b'' = Running q \<and> entry_at (log (node p)) 1 = Some e \<and>
     entry_at (log (node p)) 1 = entry_at (log (node q)) 1"
proof -
  obtain c p q where r: "raft_run process_types [''a'', ''b'', ''c''] example_conf (\<lambda>_. []) c"
    "leads_and_agrees c" "servers c ''a'' = Running p" "servers c ''b'' = Running q" by (rule example_run)
  note f = example_facts [OF r(2-4)]
  have "entry_at (log (node p)) 1 = entry_at (log (node q)) 1"
    by (rule log_matching [OF r(1) _ _ r(3,4) example_entry [OF f(7)] example_entry [OF f(8)]]) simp_all
  then show ?thesis using r example_entry [OF f(7)] by blast
qed

text \<open>
  C4. Durability: what a server has delivered is stored in the state files of a majority,
  at its index, with its term and command.
\<close>

theorem delivered_is_durable:
  assumes "raft_run G members conf faults c" "(n, x) \<in> delivered c"
  shows "\<exists>Q \<subseteq> set members. card (set members) < 2 * card Q \<and> (\<forall>q\<in>Q.
    let es = SavedEntries (file_content G (server_storage (servers c q)))
    in unat (amIndex x) < length es \<and> es ! unat (amIndex x) = entry_of x)"
  using raft_deployment.delivered_on_majority [OF raft_runD [OF assms(1)] assms(2)] by simp

theorem delivered_is_durable_witness:
  "\<exists>c q. raft_run process_types [''a'', ''b'', ''c''] example_conf (\<lambda>_. []) c \<and>
     (''a'', example_msg) \<in> delivered c \<and>
     SavedEntries (file_content process_types (server_storage (servers c q))) ! 1 = entry_of example_msg"
proof -
  obtain c p q where r: "raft_run process_types [''a'', ''b'', ''c''] example_conf (\<lambda>_. []) c"
    "leads_and_agrees c" "servers c ''a'' = Running p" "servers c ''b'' = Running q" by (rule example_run)
  note d = example_facts(11) [OF r(2-4)]
  obtain Q where Q: "card (set [''a'', ''b'', ''c'']) < 2 * card Q" "\<forall>q\<in>Q.
      let es = SavedEntries (file_content process_types (server_storage (servers c q)))
      in unat (amIndex example_msg) < length es \<and> es ! unat (amIndex example_msg) = entry_of example_msg"
    using delivered_is_durable [OF r(1) d] by blast
  then obtain q where "q \<in> Q" by (cases "Q = {}") auto
  then show ?thesis using Q(2) r(1) d by (auto simp: Let_def example_msg_def)
qed

text \<open>
  C7. Disk before network: whenever a server is not inside a critical section, the term, the
  vote and the log in its memory are those its state file would be restored to, so that no
  reply and no request ever tells of anything that a crash could undo.
\<close>

theorem memory_is_on_disk:
  assumes "raft_run G members conf faults c" "n \<in> set members" "servers c n = Running p"
  shows "persistent (node p) = restored (file_content G (storage (node p)))"
  using raft_deployment.disk_in_step [OF raft_runD [OF assms(1)], of n p] assms(2,3) by simp

theorem memory_is_on_disk_witness:
  "\<exists>c p. raft_run process_types [''a'', ''b'', ''c''] example_conf (\<lambda>_. []) c \<and>
     servers c ''a'' = Running p \<and> currentTerm (node p) = 1 \<and>
     persistent (node p) = restored (file_content process_types (storage (node p)))"
proof -
  obtain c p q where r: "raft_run process_types [''a'', ''b'', ''c''] example_conf (\<lambda>_. []) c"
    "leads_and_agrees c" "servers c ''a'' = Running p" "servers c ''b'' = Running q" by (rule example_run)
  show ?thesis
    using memory_is_on_disk [OF r(1) _ r(3)] r(1,3) example_facts(3) [OF r(2-4)] by auto
qed

text \<open>
  C8. A vote is cast once: along any run, through crashes, failed writes and power losses, the
  term on a server's disk never goes back, and within a term the vote on it never changes.
\<close>

theorem votes_are_durable:
  assumes "raft_run G members conf faults c" "run (file_cluster G members conf) as c = Some c'"
    and "n \<in> set members" "ps = file_content G (server_storage (servers c n))"
    and "ps' = file_content G (server_storage (servers c' n))"
  shows "CurrentTerm ps \<le> CurrentTerm ps' \<and>
    (CurrentTerm ps' = CurrentTerm ps \<and> VotedFor ps \<noteq> [] \<longrightarrow> VotedFor ps' = VotedFor ps)"
  using raft_deployment.durable_votes [OF raft_runD [OF assms(1)] assms(2) _ assms(4,5)] assms(3) by simp

theorem votes_are_durable_witness:
  "\<exists>c c' p. raft_run process_types [''a'', ''b'', ''c''] example_conf (\<lambda>_. []) c \<and>
     servers c ''a'' = Running p \<and> run trio [Crash ''a'', Disturb ''a'' (Outage False [])] c = Some c' \<and>
     1 \<le> CurrentTerm (file_content process_types (server_storage (servers c' ''a'')))"
proof -
  obtain c p q where r: "raft_run process_types [''a'', ''b'', ''c''] example_conf (\<lambda>_. []) c"
    "leads_and_agrees c" "servers c ''a'' = Running p" "servers c ''b'' = Running q" by (rule example_run)
  note f = example_facts [OF r(2-4)]
  let ?s = "storage (node p)"
  let ?c = "c\<lparr>servers := (servers c)(''a'' := Down (disturb_file (Outage False []) ?s))\<rparr>"
  have b: "bounded trio (c\<lparr>servers := (servers c)(''a'' := Down ?s)\<rparr>)"
    using f(13) by (auto simp: bounded_def)
  have run: "run trio [Crash ''a'', Disturb ''a'' (Outage False [])] c = Some ?c"
    using f(13) b r(3) by (simp add: trio_def perform_def proc_action_def set_server_def del: disturb_file.simps)
  have "restored (file_content process_types ?s) = persistent (node p)"
    using raft_deployment.disk_in_step [OF raft_runD [OF r(1)] _ r(3)] by simp
  then have "CurrentTerm (restored (file_content process_types ?s)) = 1" using f(3) by (simp add: persistent_def)
  then have "CurrentTerm (file_content process_types ?s) = 1" by (simp add: restored_def split: if_splits)
  then have "1 \<le> CurrentTerm (file_content process_types (server_storage (servers ?c ''a'')))"
    using votes_are_durable [OF r(1) run [unfolded trio_def] _ refl refl, of "''a''"] r(3)
    by (simp add: server_storage_def)
  then show ?thesis using r(1,3) run by blast
qed

text \<open>
  C13. While a process runs, nothing goes back: its term, commit index and last applied index
  only grow, it never applies beyond its commit index, it keeps its vote within a term, and
  what it has sent to its delivery channel stays sent.
\<close>

theorem process_moves_forward:
  assumes "raft_run G members conf faults c" "bounded (file_cluster G members conf) c"
    and "n \<in> set members" "perform (file_cluster G members conf) a c = Some c'"
    and "servers c n = Running p" "servers c' n = Running p'"
  shows "currentTerm (node p) \<le> currentTerm (node p') \<and> commitIndex (node p) \<le> commitIndex (node p') \<and>
    lastApplied (node p) \<le> lastApplied (node p') \<and> lastApplied (node p') \<le> commitIndex (node p') \<and>
    (currentTerm (node p') = currentTerm (node p) \<and> votedFor (node p) \<noteq> [] \<longrightarrow>
       votedFor (node p') = votedFor (node p)) \<and>
    (\<exists>new. sent p' = sent p @ new)"
  using raft_deployment.process_never_goes_back [OF raft_runD [OF assms(1)] assms(2) _ assms(4-6)] assms(3)
  by simp

theorem process_moves_forward_witness:
  "\<exists>c c' p p'. raft_run process_types [''a'', ''b'', ''c''] example_conf (\<lambda>_. []) c \<and>
     servers c ''a'' = Running p \<and> perform trio (Heartbeat ''a'' 1) c = Some c' \<and>
     servers c' ''a'' = Running p' \<and> 1 \<le> currentTerm (node p')"
proof -
  obtain c p q where r: "raft_run process_types [''a'', ''b'', ''c''] example_conf (\<lambda>_. []) c"
    "leads_and_agrees c" "servers c ''a'' = Running p" "servers c ''b'' = Running q" by (rule example_run)
  note f = example_facts [OF r(2-4)]
  have a: "perform trio (Heartbeat ''a'' 1) c = Some (heartbeat ''a'' 1 p c)"
    using r(3) f(10) by (simp add: trio_def perform_def proc_action_def)
  obtain p' where p': "servers (heartbeat ''a'' 1 p c) ''a'' = Running p'"
    by (cases "leaderLoop 1 (node p)") (simp add: heartbeat_def set_server_def Let_def)
  have "1 \<le> currentTerm (node p')"
    using process_moves_forward [OF r(1) f(13) [unfolded trio_def] _ a [unfolded trio_def] r(3) p'] f(3) by simp
  then show ?thesis using r(1,3) a p' by blast
qed

text \<open>
  C9. Every process delivers in order: what its applier has sent since the process started are
  the entries 1, 2, ..., k, each once and without a gap, and none beyond the commit index.
\<close>

theorem delivers_in_order:
  assumes "raft_run G members conf faults c" "n \<in> set members" "servers c n = Running p"
  shows "\<exists>k \<le> unat (commitIndex (node p)). sent_indexes p = [1 ..< Suc k]"
  using in_order_sent [OF raft_deployment.reachable_in_order [OF raft_runD [OF assms(1)] _ assms(3)]] assms(2)
  by auto

theorem delivers_in_order_witness:
  "\<exists>c p. raft_run process_types [''a'', ''b'', ''c''] example_conf (\<lambda>_. []) c \<and>
     servers c ''a'' = Running p \<and> sent p = [example_msg] \<and>
     (\<exists>k \<le> unat (commitIndex (node p)). sent_indexes p = [1 ..< Suc k])"
proof -
  obtain c p q where r: "raft_run process_types [''a'', ''b'', ''c''] example_conf (\<lambda>_. []) c"
    "leads_and_agrees c" "servers c ''a'' = Running p" "servers c ''b'' = Running q" by (rule example_run)
  show ?thesis
    using delivers_in_order [OF r(1) _ r(3)] r(1,3) example_facts(9) [OF r(2-4)]
    by (intro exI [of _ c] exI [of _ p]) (simp del: upt_Suc)
qed

text \<open>
  C12. Committed entries are delivered as fast as the service takes them. The applier of a server that is not
  stopped and has something left to do is blocked in exactly one case: it has an entry to send and the delivery
  channel has no room, which only the service that receives from the channel can change. Together with a service
  that receives whenever the applier waits for it, it needs at most twice the commit index and three actions, those
  of the service included, until it has sent all committed entries, in order, and waits for the next commit.
\<close>

theorem applier_catches_up:
  assumes "raft_run G members conf faults c" "bounded (file_cluster G members conf) c"
    and "n \<in> set members" "servers c n = Running p"
    and "Applier \<in> set (threads (node p))" "\<not> stopped (node p)"
  shows "(0 < backlog p \<longrightarrow>
     (perform (file_cluster G members conf) (applier_turn n p) c = None \<longleftrightarrow> awaits_consumer p)) \<and>
    (\<exists>k \<le> 2 * unat (commitIndex (node p)) + 3. \<exists>c' q.
    turns (file_cluster G members conf) n k c = Some c' \<and> raft_run G members conf faults c' \<and>
    servers c' n = Running q \<and> lastApplied (node q) = commitIndex (node p) \<and>
    commitIndex (node q) = commitIndex (node p) \<and>
    sent_indexes q = [1 ..< Suc (unat (commitIndex (node p)))])"
proof
  have "ready_to_apply p" using assms(5,6) by (simp add: ready_to_apply_def)
  then show "0 < backlog p \<longrightarrow>
     (perform (file_cluster G members conf) (applier_turn n p) c = None \<longleftrightarrow> awaits_consumer p)"
    using raft_deployment.applier_blocked [OF raft_runD [OF assms(1)] _ assms(4)] assms(3) by simp
  note d = raft_runD [OF assms(1)]
  have n: "n \<in> set (dMembers (file_cluster G members conf))" using assms(3) by simp
  have "delivery_work p \<le> 2 * unat (commitIndex (node p)) + 3"
    using delivery_work_bound [OF raft_deployment.reachable_in_order [OF d n assms(4)]] .
  then show "\<exists>k \<le> 2 * unat (commitIndex (node p)) + 3. \<exists>c' q.
    turns (file_cluster G members conf) n k c = Some c' \<and> raft_run G members conf faults c' \<and>
    servers c' n = Running q \<and> lastApplied (node q) = commitIndex (node p) \<and>
    commitIndex (node q) = commitIndex (node p) \<and>
    sent_indexes q = [1 ..< Suc (unat (commitIndex (node p)))]"
    using raft_deployment.applier_finishes [OF d assms(2) n assms(4)] assms(1,5,6)
    by (auto simp: raft_run_def ready_to_apply_def simp del: upt_Suc)
qed

theorem applier_catches_up_witness:
  "\<exists>c q k c' r. raft_run process_types [''a'', ''b'', ''c''] example_conf (\<lambda>_. []) c \<and>
     servers c ''b'' = Running q \<and> turns trio ''b'' k c = Some c' \<and> k \<le> 5 \<and>
     servers c' ''b'' = Running r \<and> lastApplied (node r) = 1"
proof -
  obtain c p q where r: "raft_run process_types [''a'', ''b'', ''c''] example_conf (\<lambda>_. []) c"
    "leads_and_agrees c" "servers c ''a'' = Running p" "servers c ''b'' = Running q" by (rule example_run)
  note f = example_facts [OF r(2-4)]
  show ?thesis
    using applier_catches_up [OF r(1) f(13) [unfolded trio_def] _ r(4) f(14,15)] r(1,4) f(6)
    by (auto simp: trio_def)
qed

text \<open>
  C10. Elections succeed: a server that does not lead and whose timer goroutine runs becomes leader of the next term with
  one exchange of messages with each of the voters, when the voters and it are a majority, the voters are of no later
  term and their logs are no more up to date than its own. Only a failed save, which ends the process that tried it,
  can prevent it.
\<close>

theorem candidate_wins:
  assumes "raft_run G members conf faults c" "bounded (file_cluster G members conf) c"
    and "n \<in> set members" "servers c n = Running p" "set ms \<subseteq> set members - {n}" "distinct ms"
    and "card (set members) < 2 * (length ms + 1)"
    and "Ticker \<in> set (threads (node p))" "\<not> stopped (node p)" "role (node p) \<noteq> Leader"
    and "Suc (unat (currentTerm (node p))) < max_u64"
    and "\<forall>m\<in>set ms. free_voter (currentTerm (node p) + 1) (end_term (log (node p))) (end_index (log (node p))) c m"
  shows "\<exists>as c'. run (file_cluster G members conf) as c = Some c' \<and> (\<forall>a\<in>set as. canvass n (set ms) a) \<and>
    length as \<le> 3 * length ms + 1 \<and>
    ((\<exists>k\<in>insert n (set ms). \<exists>s. servers c' k = Down s) \<or> elected n (currentTerm (node p) + 1) c')"
  using raft_deployment.candidate_elected [OF raft_runD [OF assms(1)] assms(2), unfolded file_cluster_simps, OF assms(3-12)] .

theorem candidate_wins_witness:
  "\<exists>c as c'. raft_run process_types [''a'', ''b'', ''c''] example_conf (\<lambda>_. []) c \<and> run trio as c = Some c' \<and>
     length as \<le> 4 \<and> ((\<exists>k\<in>{''b'', ''a''}. \<exists>s. servers c' k = Down s) \<or> elected ''b'' 2 c')"
proof -
  obtain c p q where r: "raft_run process_types [''a'', ''b'', ''c''] example_conf (\<lambda>_. []) c"
    "leads_and_agrees c" "servers c ''a'' = Running p" "servers c ''b'' = Running q" by (rule example_run)
  note f = example_facts [OF r(2-4)]
  have "\<forall>m\<in>set [''a'']. free_voter (currentTerm (node q) + 1) (end_term (log (node q))) (end_index (log (node q))) c m"
    using r(3) f by (simp add: free_voter_def covered_by_def end_term_def end_index_def)
  then have "\<exists>as c'. run trio as c = Some c' \<and> (\<forall>a\<in>set as. canvass ''b'' (set [''a'']) a) \<and>
      length as \<le> 3 * length [''a''] + 1 \<and>
      ((\<exists>k\<in>insert ''b'' (set [''a'']). \<exists>s. servers c' k = Down s) \<or> elected ''b'' (currentTerm (node q) + 1) c')"
    unfolding trio_def
    by (intro candidate_wins [OF r(1) f(13) [unfolded trio_def] _ r(4)]) (simp_all add: f)
  then obtain as c' where o: "run trio as c = Some c'" "length as \<le> 3 * length [''a''] + 1"
    "(\<exists>k\<in>insert ''b'' (set [''a'']). \<exists>s. servers c' k = Down s) \<or> elected ''b'' (currentTerm (node q) + 1) c'"
    by blast
  then show ?thesis using r(1) f(4) by (intro exI [of _ c] exI [of _ as] exI [of _ c']) simp
qed

text \<open>
  C11. A leader commits: when it can exchange messages with enough followers for a majority, all of terms up to its own,
  then a bounded number of exchanges brings all their logs up to its own, whatever they contain and wherever the leader
  believes them to be, and its commit index to the end of its log. Only a failed save of a follower, which ends that
  follower's process, can prevent it.
\<close>

theorem leader_commits:
  assumes "raft_run G members conf faults c" "bounded (file_cluster G members conf) c"
    and "n \<in> set members" "set ms \<subseteq> set members - {n}" "distinct ms" "ms \<noteq> []"
    and "card (set members) < 2 * (length ms + 1)"
    and "leading n t c p" "\<forall>m\<in>set ms. \<exists>q. listening m t c q"
  shows "\<exists>as c'. run (file_cluster G members conf) as c = Some c' \<and> (\<forall>a\<in>set as. \<exists>m\<in>set ms. exchange n m t a) \<and>
    length as \<le> length ms * (8 * unat (end_index (log (node p))) + 8) + 4 \<and>
    ((\<exists>m\<in>set ms. \<exists>s. servers c' m = Down s) \<or>
     (\<exists>p'. servers c' n = Running p' \<and> role (node p') = Leader \<and> log (node p') = log (node p) \<and>
        commitIndex (node p') = end_index (log (node p)) \<and>
        (\<forall>m\<in>set ms. \<exists>q. servers c' m = Running q \<and>
           (\<forall>i \<le> unat (end_index (log (node p))). entry_at (log (node q)) i = entry_at (log (node p)) i))))"
  using raft_deployment.leader_commits_log [OF raft_runD [OF assms(1)] assms(2), unfolded file_cluster_simps, OF assms(3-9)] .

theorem leader_commits_witness:
  "\<exists>c p as c'. raft_run process_types [''a'', ''b'', ''c''] example_conf (\<lambda>_. []) c \<and> leading ''a'' 1 c p \<and>
     run trio as c = Some c' \<and> length as \<le> 20 \<and>
     ((\<exists>s. servers c' ''b'' = Down s) \<or> (\<exists>p'. servers c' ''a'' = Running p' \<and> commitIndex (node p') = 1))"
proof -
  obtain c p q where r: "raft_run process_types [''a'', ''b'', ''c''] example_conf (\<lambda>_. []) c"
    "leads_and_agrees c" "servers c ''a'' = Running p" "servers c ''b'' = Running q" by (rule example_run)
  note f = example_facts [OF r(2-4)]
  have l: "leading ''a'' 1 c p" "\<forall>m\<in>set [''b'']. \<exists>q. listening m 1 c q"
    using r(3,4) f by (simp_all add: leading_def listening_def)
  have i: "end_index (log (node p)) = 1" by (simp add: end_index_def f(7))
  obtain as c' where "run trio as c = Some c'" "length as \<le> 20"
    "(\<exists>s. servers c' ''b'' = Down s) \<or> (\<exists>p'. servers c' ''a'' = Running p' \<and> commitIndex (node p') = 1)"
    using leader_commits [OF r(1) f(13) [unfolded trio_def], of "''a''" "[''b'']", OF _ _ _ _ _ l]
    unfolding trio_def by (auto simp: i)
  then show ?thesis using r(1) l(1) by blast
qed

text \<open>
  C3. Refinement: every reachable cluster is the image of a reachable state of the abstract
  Raft protocol (Raft_Abstract, in which elections, log storage and commits are single steps over
  unbounded terms and lists), and every action of the code is a sequence of steps of that
  protocol, a crash or the failed write of a disk among them.
\<close>

theorem cluster_refines_raft:
  assumes "raft_run G members conf faults c"
  shows "\<exists>a. areachable (majority (set members)) a \<and> abstracts members (file_content G) c a \<and>
    (\<forall>act c'. bounded (file_cluster G members conf) c \<and> perform (file_cluster G members conf) act c = Some c' \<longrightarrow>
       (\<exists>b. (astep (majority (set members)))\<^sup>*\<^sup>* a b \<and> abstracts members (file_content G) c' b))"
  using raft_deployment.refines [OF raft_runD [OF assms]] by simp

theorem cluster_refines_raft_witness:
  "\<exists>c a. raft_run process_types [''a'', ''b'', ''c''] example_conf (\<lambda>_. []) c \<and>
     areachable (majority {''a'', ''b'', ''c''}) a \<and> rl a ''a'' = Leader \<and> ci a ''a'' = 1 \<and>
     abstracts [''a'', ''b'', ''c''] (file_content process_types) c a"
proof -
  obtain c p q where r: "raft_run process_types [''a'', ''b'', ''c''] example_conf (\<lambda>_. []) c"
    "leads_and_agrees c" "servers c ''a'' = Running p" "servers c ''b'' = Running q" by (rule example_run)
  note f = example_facts [OF r(2-4)]
  obtain a where a: "areachable (majority (set [''a'', ''b'', ''c''])) a"
    "abstracts [''a'', ''b'', ''c''] (file_content process_types) c a"
    using cluster_refines_raft [OF r(1)] by blast
  then have "rl a ''a'' = Leader" "ci a ''a'' = 1"
    using r(3) f(1,5) by (simp_all add: abstracts_def Let_def)
  then show ?thesis using a r(1) by auto
qed

text \<open>
  C14. In a cluster in bounds nothing but a failed save panics. No critical section that may run next at a running
  process, be it a handler, a timer, the handling of a reply, a proposal, a status query or a step of a leader or of
  the applier, indexes or slices its log out of range, asks for compacted entries or draws from an empty interval;
  creating a node never panics. So a running process goes down only by a crash or because a save failed.
\<close>

theorem only_saves_panic:
  assumes "raft_run G members conf faults c" "bounded (file_cluster G members conf) c"
    and "n \<in> set members" "servers c n = Running p"
  shows "(\<forall>e. section_panic (file_cluster G members conf) c n p e \<longrightarrow> e = PersistFailed) \<and>
    (\<forall>e x. New (File_Load G) ev cf \<noteq> Panic e x) \<and>
    (\<forall>a c' s. perform (file_cluster G members conf) a c = Some c' \<and> servers c' n = Down s \<longrightarrow>
       a = Crash n \<or> section_panic (file_cluster G members conf) c n p PersistFailed)"
proof -
  have only: "e = PersistFailed" if "section_panic (file_cluster G members conf) c n p e" for e
    using raft_deployment.only_failed_saves_panic [OF raft_runD [OF assms(1)] assms(2) _ assms(4) that] assms(3) by simp
  then show ?thesis using goes_down [OF _ assms(4)] New_no_panic by blast
qed

theorem only_saves_panic_witness:
  "\<exists>c p. raft_run process_types [''a'', ''b'', ''c''] example_conf (\<lambda>_. []) c \<and>
     servers c ''a'' = Running p \<and> \<not> section_panic trio c ''a'' p SliceOutOfRange \<and>
     \<not> section_panic trio c ''a'' p EntriesCompacted"
proof -
  obtain c p q where r: "raft_run process_types [''a'', ''b'', ''c''] example_conf (\<lambda>_. []) c"
    "leads_and_agrees c" "servers c ''a'' = Running p" "servers c ''b'' = Running q" by (rule example_run)
  have "\<forall>e. section_panic trio c ''a'' p e \<longrightarrow> e = PersistFailed"
    using only_saves_panic [OF r(1) example_facts(13) [OF r(2-4), unfolded trio_def] _ r(3)] by (simp add: trio_def)
  then show ?thesis using r by blast
qed

end
