(* ===== verification/Float64.thy ===== *)
theory Float64
  imports Complex_Main Prelude
begin

text \<open>
  Go's \<open>float64\<close>: IEEE 754 binary64 with round to nearest, ties to even. A finite value is
  its sign and its magnitude, a rational number; rounding (\<open>rnd\<close>) maps every non-negative
  rational to the nearest representable magnitude or to an infinity. The operations compute
  exactly and round once, as the standard prescribes.
\<close>

section \<open>Values\<close>

datatype float64 = NaN | Inf bool | Fin bool rat

definition isFinite :: "float64 \<Rightarrow> bool" where
  "isFinite f \<longleftrightarrow> (case f of Fin s q \<Rightarrow> True | _ \<Rightarrow> False)"

definition val :: "float64 \<Rightarrow> rat" where
  "val f = (case f of Fin s q \<Rightarrow> if s then - q else q | _ \<Rightarrow> 0)"

lemma isFinite_simps [simp]: "isFinite (Fin s q)" "\<not> isFinite NaN" "\<not> isFinite (Inf s)"
  by (simp_all add: isFinite_def)

lemma isFiniteE:
  assumes "isFinite f"
  obtains s q where "f = Fin s q"
  using assms by (cases f) auto

lemma val_simps [simp]: "val (Fin False q) = q" "val (Fin True q) = - q"
  by (simp_all add: val_def)

section \<open>Rounding\<close>

definition pow2 :: "int \<Rightarrow> rat" where
  "pow2 e = (if e \<ge> 0 then 2 ^ nat e else 1 / 2 ^ nat (- e))"

fun nlog2 :: "nat \<Rightarrow> nat" where
  "nlog2 n = (if n < 2 then 0 else Suc (nlog2 (n div 2)))"

declare nlog2.simps [simp del]

text \<open>The exponent \<open>e\<close> with \<open>2\<^sup>e \<le> q < 2\<^sup>e\<^sup>+\<^sup>1\<close>.\<close>

definition ilog2 :: "rat \<Rightarrow> int" where
  "ilog2 q =
     (let (a, b) = quotient_of q;
          e = int (nlog2 (nat a)) - int (nlog2 (nat b))
      in if pow2 e \<le> q then e else e - 1)"

text \<open>The distance of neighbours at magnitude \<open>q\<close>: 53 bits, down to \<open>2\<close> to the \<open>-1074\<close>.\<close>

definition quantum :: "rat \<Rightarrow> rat" where
  "quantum q = pow2 (max (ilog2 q) (- 1022) - 52)"

definition round_even :: "rat \<Rightarrow> int" where
  "round_even x =
     (let n = \<lfloor>x\<rfloor>; f = x - of_int n
      in if f < 1 / 2 then n else if f > 1 / 2 then n + 1 else if even n then n else n + 1)"

definition rv :: "rat \<Rightarrow> rat" where
  "rv q = (if q = 0 then 0 else of_int (round_even (q / quantum q)) * quantum q)"

definition rnd :: "bool \<Rightarrow> rat \<Rightarrow> float64" where
  "rnd s q = (if rv q \<ge> pow2 1024 then Inf s else Fin s (rv q))"

definition float_ok :: "float64 \<Rightarrow> bool" where
  "float_ok f \<longleftrightarrow> (case f of Fin s q \<Rightarrow> 0 \<le> q \<and> q < pow2 1024 \<and> rv q = q | _ \<Rightarrow> True)"

section \<open>Operations\<close>

definition fneg :: "float64 \<Rightarrow> float64" where
  "fneg f = (case f of NaN \<Rightarrow> NaN | Inf s \<Rightarrow> Inf (\<not> s) | Fin s q \<Rightarrow> Fin (\<not> s) q)"

text \<open>An exact sum, rounded; the sign of an exact zero is negative only when both summands' are.\<close>

definition rnd_sum :: "bool \<Rightarrow> bool \<Rightarrow> rat \<Rightarrow> float64" where
  "rnd_sum s t v = (if v = 0 then Fin (s \<and> t) 0 else rnd (v < 0) \<bar>v\<bar>)"

fun fadd :: "float64 \<Rightarrow> float64 \<Rightarrow> float64" where
  "fadd (Fin s p) (Fin t q) = rnd_sum s t (val (Fin s p) + val (Fin t q))"
| "fadd (Inf s) (Inf t) = (if s = t then Inf s else NaN)"
| "fadd (Inf s) (Fin t q) = Inf s"
| "fadd (Fin s p) (Inf t) = Inf t"
| "fadd _ _ = NaN"

fun fmul :: "float64 \<Rightarrow> float64 \<Rightarrow> float64" where
  "fmul (Fin s p) (Fin t q) = rnd (s \<noteq> t) (p * q)"
| "fmul (Inf s) (Inf t) = Inf (s \<noteq> t)"
| "fmul (Inf s) (Fin t q) = (if q = 0 then NaN else Inf (s \<noteq> t))"
| "fmul (Fin s p) (Inf t) = (if p = 0 then NaN else Inf (s \<noteq> t))"
| "fmul _ _ = NaN"

fun fdiv :: "float64 \<Rightarrow> float64 \<Rightarrow> float64" where
  "fdiv (Fin s p) (Fin t q) =
     (if q = 0 then if p = 0 then NaN else Inf (s \<noteq> t) else rnd (s \<noteq> t) (p / q))"
| "fdiv (Inf s) (Fin t q) = Inf (s \<noteq> t)"
| "fdiv (Fin s p) (Inf t) = Fin (s \<noteq> t) 0"
| "fdiv _ _ = NaN"

text \<open>
  \<open>x * y + z\<close>: the language lets an implementation fuse the two operations and round once,
  and compilers for some processors do. The fused step takes the exact product, so the product
  of two finite factors does not overflow before it is added to an infinity.
\<close>

definition mul_add :: "bool \<Rightarrow> float64 \<Rightarrow> float64 \<Rightarrow> float64 \<Rightarrow> float64" where
  "mul_add fused x y z =
     (case (x, y, z) of
        (Fin s p, Fin t q, Fin u r) \<Rightarrow>
          if fused then rnd_sum (s \<noteq> t) u (val x * val y + val z) else fadd z (fmul x y)
      | (Fin s p, Fin t q, Inf u) \<Rightarrow> if fused then Inf u else fadd z (fmul x y)
      | _ \<Rightarrow> fadd z (fmul x y))"

definition fge_zero :: "float64 \<Rightarrow> bool" where
  "fge_zero f = (case f of NaN \<Rightarrow> False | Inf s \<Rightarrow> \<not> s | Fin s q \<Rightarrow> val (Fin s q) \<ge> 0)"

section \<open>Facts on rounding\<close>

lemma pow2_powi: "pow2 e = 2 powi e"
  by (simp add: pow2_def power_int_def field_simps)

lemma pow2_pos [simp]: "0 < pow2 e" "pow2 e \<noteq> 0" "0 \<le> pow2 e"
  by (simp_all add: pow2_powi)

lemma pow2_add: "pow2 (a + b) = pow2 a * pow2 b"
  by (simp add: pow2_powi power_int_add)

lemma pow2_diff: "pow2 (a - b) = pow2 a / pow2 b"
  by (simp add: pow2_powi power_int_diff)

lemma pow2_strict: "a < b \<Longrightarrow> pow2 a < pow2 b"
  by (simp add: pow2_powi power_int_strict_increasing)

lemma pow2_less [simp]: "pow2 a < pow2 b \<longleftrightarrow> a < b"
  using pow2_strict [of a b] pow2_strict [of b a] by (cases a b rule: linorder_cases) auto

lemma pow2_le [simp]: "pow2 a \<le> pow2 b \<longleftrightarrow> a \<le> b"
  by (simp add: not_less [symmetric])

lemma pow2_nat: "pow2 (int n) = 2 ^ n"
  by (simp add: pow2_def)

lemma pow2_one [simp]: "pow2 1 = 2" "pow2 0 = 1"
  by (simp_all add: pow2_def)

lemma nlog2_bounds: "0 < n \<Longrightarrow> 2 ^ nlog2 n \<le> n \<and> n < 2 ^ Suc (nlog2 n)"
proof (induction n rule: nlog2.induct)
  case (1 n)
  show ?case
  proof (cases "n < 2")
    case False
    then have "2 ^ nlog2 (n div 2) \<le> n div 2 \<and> n div 2 < 2 ^ Suc (nlog2 (n div 2))" using 1 by simp
    then show ?thesis using False by (simp add: nlog2.simps [of n]) linarith
  qed (use 1(2) in \<open>simp add: nlog2.simps\<close>)
qed

lemma ilog2_bounds:
  assumes "0 < q"
  shows "pow2 (ilog2 q) \<le> q" "q < pow2 (ilog2 q + 1)"
proof -
  obtain a b where ab: "quotient_of q = (a, b)" by fastforce
  have b: "0 < b" and q: "q = of_int a / of_int b"
    using quotient_of_denom_pos [OF ab] quotient_of_div [OF ab] by simp_all
  have a: "0 < a" using assms b q by (simp add: zero_less_divide_iff)
  define i j e where "i = nlog2 (nat a)" and "j = nlog2 (nat b)" and "e = int i - int j"
  have ai: "2 ^ i \<le> a" "a < 2 ^ Suc i" and bj: "2 ^ j \<le> b" "b < 2 ^ Suc j"
    using nlog2_bounds [of "nat a"] nlog2_bounds [of "nat b"] a b
    by (auto simp: i_def j_def le_nat_iff nat_less_iff)
  have A: "(2 :: rat) ^ i \<le> of_int a" "(of_int a :: rat) < 2 ^ Suc i"
    and B: "(2 :: rat) ^ j \<le> of_int b" "(of_int b :: rat) < 2 ^ Suc j"
    using ai bj by (metis of_int_le_iff of_int_power of_int_numeral, metis of_int_less_iff of_int_power of_int_numeral)+
  have e: "pow2 e = 2 ^ i / 2 ^ j" by (simp add: e_def pow2_diff pow2_nat)
  have "of_int a / of_int b < (2 ^ Suc i :: rat) / 2 ^ j"
    using A(2) B(1) a by (intro frac_less) simp_all
  then have up: "q < pow2 (e + 1)" by (simp add: q e pow2_add mult.commute)
  have "(2 ^ i :: rat) / 2 ^ Suc j \<le> of_int a / of_int b"
    using A(1) B(2) a b by (intro frac_le) simp_all
  then have low: "pow2 (e - 1) \<le> q" by (simp add: q e pow2_diff)
  have "ilog2 q = (if pow2 e \<le> q then e else e - 1)" by (simp add: ilog2_def ab e_def i_def j_def)
  then show "pow2 (ilog2 q) \<le> q" "q < pow2 (ilog2 q + 1)" using up low by auto
qed

lemma ilog2_unique:
  assumes "pow2 e \<le> q" "q < pow2 (e + 1)"
  shows "ilog2 q = e"
proof -
  have q: "0 < q" using assms(1) pow2_pos(1) by (rule less_le_trans [rotated])
  have "pow2 (ilog2 q) < pow2 (e + 1)" "pow2 e < pow2 (ilog2 q + 1)"
    using ilog2_bounds [OF q] assms by linarith+
  then show ?thesis by simp
qed

lemma round_even_mono: "x \<le> y \<Longrightarrow> round_even x \<le> round_even y"
proof -
  assume "x \<le> y"
  then have f: "\<lfloor>x\<rfloor> \<le> \<lfloor>y\<rfloor>" by (rule floor_mono)
  have b: "\<lfloor>z\<rfloor> \<le> round_even z" "round_even z \<le> \<lfloor>z\<rfloor> + 1" for z
    by (simp_all add: round_even_def Let_def)
  show ?thesis
  proof (cases "\<lfloor>x\<rfloor> = \<lfloor>y\<rfloor>")
    case True
    then show ?thesis using \<open>x \<le> y\<close> by (simp add: round_even_def Let_def)
  next
    case False
    then show ?thesis using f b(2) [of x] b(1) [of y] by linarith
  qed
qed

lemma round_even_int [simp]: "round_even (of_int n) = n"
  by (simp add: round_even_def)

lemma quantum_pos [simp]: "0 < quantum q" "quantum q \<noteq> 0"
  by (simp_all add: quantum_def)

lemma rv_zero [simp]: "rv 0 = 0"
  by (simp add: rv_def)

text \<open>Rounding stays within the binade.\<close>

lemma rv_binade:
  assumes "0 < q" "E = max (ilog2 q) (- 1022)"
  shows "rv q \<le> pow2 (E + 1)" "E = ilog2 q \<Longrightarrow> pow2 E \<le> rv q" "0 \<le> rv q"
proof -
  define m where "m = round_even (q / quantum q)"
  have u: "quantum q = pow2 (E - 52)" using assms(2) by (simp add: quantum_def)
  have r: "rv q = of_int m * pow2 (E - 52)" using assms(1) u by (simp add: rv_def m_def)
  have le: "m \<le> k" if "q \<le> of_int k * pow2 (E - 52)" for k
    using round_even_mono [of "q / quantum q" "of_int k"] that by (simp add: u m_def pos_divide_le_eq)
  have ge: "k \<le> m" if "of_int k * pow2 (E - 52) \<le> q" for k
    using round_even_mono [of "of_int k" "q / quantum q"] that by (simp add: u m_def pos_le_divide_eq)
  have scale: "of_int (2 ^ n) * pow2 (E - 52) = pow2 (E - 52 + int n)" for n
    by (simp add: pow2_add pow2_nat)
  have "pow2 (ilog2 q + 1) \<le> pow2 (E + 1)" using assms(2) by simp
  then have "q \<le> pow2 (E + 1)" using ilog2_bounds(2) [OF assms(1)] by linarith
  then have "m \<le> 2 ^ 53" using scale [of 53] by (intro le) (simp add: add.commute)
  then have "(of_int m :: rat) \<le> of_int (2 ^ 53)" by (simp only: of_int_le_iff)
  then have "rv q \<le> of_int (2 ^ 53) * pow2 (E - 52)" unfolding r by (rule mult_right_mono) simp
  then show "rv q \<le> pow2 (E + 1)" unfolding scale by (simp add: add.commute)
  have "0 \<le> m" using assms(1) by (intro ge) simp
  then show "0 \<le> rv q" unfolding r by simp
  assume E: "E = ilog2 q"
  have "2 ^ 52 \<le> m" using ilog2_bounds(1) [OF assms(1)] scale [of 52] E by (intro ge) simp
  then have "(of_int (2 ^ 52) :: rat) \<le> of_int m" by (simp only: of_int_le_iff)
  then have "of_int (2 ^ 52) * pow2 (E - 52) \<le> rv q" unfolding r by (rule mult_right_mono) simp
  then show "pow2 E \<le> rv q" unfolding scale by simp
qed

lemma ilog2_mono:
  assumes "0 < q" "q \<le> r"
  shows "ilog2 q \<le> ilog2 r"
proof -
  have "pow2 (ilog2 q) < pow2 (ilog2 r + 1)"
    using ilog2_bounds(1) [OF assms(1)] ilog2_bounds(2) [of r] assms by linarith
  then show ?thesis by simp
qed

lemma rv_mono:
  assumes "0 \<le> q" "q \<le> r"
  shows "rv q \<le> rv r"
proof (cases "q = 0")
  case True
  then show ?thesis using assms rv_binade(3) [of r] by (cases "r = 0") auto
next
  case False
  then have q: "0 < q" "0 < r" using assms by auto
  let ?E = "max (ilog2 q) (- 1022)" and ?F = "max (ilog2 r) (- 1022)"
  have EF: "?E \<le> ?F" using ilog2_mono [OF q(1) assms(2)] by auto
  show ?thesis
  proof (cases "?E = ?F")
    case True
    then have "quantum q = quantum r" by (simp add: quantum_def)
    moreover have "round_even (q / quantum q) \<le> round_even (r / quantum q)"
      using assms(2) by (intro round_even_mono divide_right_mono) (simp_all add: less_imp_le)
    ultimately show ?thesis using q by (simp add: rv_def mult_right_mono less_imp_le)
  next
    case False
    then have "?E + 1 \<le> ?F" "?F = ilog2 r" using EF by auto
    have "rv q \<le> pow2 (?E + 1)" using rv_binade(1) [OF q(1) refl] .
    also have "\<dots> \<le> pow2 ?F" using \<open>?E + 1 \<le> ?F\<close> by simp
    also have "\<dots> \<le> rv r" using rv_binade(2) [OF q(2) refl \<open>?F = ilog2 r\<close>] .
    finally show ?thesis .
  qed
qed

text \<open>Multiples of a quantum with at most 53 bits are representable.\<close>

lemma ilog2_scaled:
  assumes "0 < k" "k < 2 ^ Suc n"
  shows "ilog2 (of_int k * pow2 e) \<le> int n + e"
proof -
  have "(of_int k :: rat) < of_int (2 ^ Suc n)" using assms(2) by (simp only: of_int_less_iff)
  then have "of_int k * pow2 e < pow2 (int (Suc n)) * pow2 e"
    by (intro mult_strict_right_mono) (simp_all add: pow2_nat del: of_nat_Suc)
  also have "\<dots> = pow2 (int n + e + 1)" by (simp add: pow2_add [symmetric] add.commute add.left_commute)
  finally have "of_int k * pow2 e < pow2 (int n + e + 1)" .
  moreover have "0 < of_int k * pow2 e" using assms(1) by simp
  ultimately have "pow2 (ilog2 (of_int k * pow2 e)) < pow2 (int n + e + 1)"
    using ilog2_bounds(1) [of "of_int k * pow2 e"] by linarith
  then show ?thesis by simp
qed

lemma rv_multiple:
  assumes "0 < q" "q = of_int k * pow2 e" "max (ilog2 q) (- 1022) - 52 \<le> e"
  shows "rv q = q"
proof -
  define d where "d = max (ilog2 q) (- 1022) - 52"
  have u: "quantum q = pow2 d" by (simp add: quantum_def d_def)
  have "pow2 e = of_int (2 ^ nat (e - d)) * pow2 d"
    using assms(3) by (simp add: d_def pow2_diff [symmetric] pow2_nat [symmetric] pow2_add [symmetric])
  then have q: "q = of_int (k * 2 ^ nat (e - d)) * pow2 d" using assms(2) by simp
  then have "q / quantum q = of_int (k * 2 ^ nat (e - d))" using u by simp
  then have "round_even (q / quantum q) = k * 2 ^ nat (e - d)" by (simp only: round_even_int)
  then show ?thesis using assms(1) q u by (simp add: rv_def)
qed

lemma rv_representable:
  assumes "0 < k" "k \<le> 2 ^ 53" "- 1074 \<le> e"
  shows "rv (of_int k * pow2 e) = of_int k * pow2 e"
proof (cases "k = 2 ^ 53")
  case False
  then have "k < 2 ^ Suc 52" using assms(2) by simp
  then have "ilog2 (of_int k * pow2 e) \<le> int 52 + e" using ilog2_scaled assms(1) by blast
  then show ?thesis using assms(1,3) by (intro rv_multiple [OF _ refl]) auto
next
  case True
  have eq: "of_int k * pow2 e = of_int (2 ^ 52) * pow2 (e + 1)" using True by (simp add: pow2_add)
  have "ilog2 (of_int (2 ^ 52) * pow2 (e + 1)) \<le> int 52 + (e + 1)"
    by (rule ilog2_scaled) simp_all
  then show ?thesis unfolding eq using assms(3) by (intro rv_multiple [OF _ refl]) auto
qed

lemma rv_small: "rv 1 = 1" "rv 2 = 2" "rv (1 / 2) = 1 / 2"
  using rv_representable [of 1 0] rv_representable [of 1 1] rv_representable [of 1 "- 1"]
  by (simp_all add: pow2_def)

lemma rv_form:
  assumes "0 < q"
  obtains k e where "rv q = of_int k * pow2 e" "0 \<le> k" "k \<le> 2 ^ 53" "- 1074 \<le> e"
proof -
  define E where "E = max (ilog2 q) (- 1022)"
  define m where "m = round_even (q / quantum q)"
  have u: "quantum q = pow2 (E - 52)" by (simp add: quantum_def E_def)
  have r: "rv q = of_int m * pow2 (E - 52)" using assms u by (simp add: rv_def m_def)
  have s: "of_int (2 ^ 53) * pow2 (E - 52) = pow2 (E + 1)"
    using pow2_add [of 53 "E - 52"] pow2_nat [of 53] by (simp add: add.commute)
  have "of_int m * pow2 (E - 52) \<le> of_int (2 ^ 53) * pow2 (E - 52)"
    using rv_binade(1) [OF assms E_def] unfolding r s .
  then have "(of_int m :: rat) \<le> of_int (2 ^ 53)" by (rule mult_right_le_imp_le) simp
  then have "m \<le> 2 ^ 53" by (simp only: of_int_le_iff)
  moreover have "0 \<le> of_int m * pow2 (E - 52)" using rv_binade(3) [OF assms E_def] unfolding r .
  then have "0 \<le> m" using pow2_pos(1) [of "E - 52"] by (auto simp: zero_le_mult_iff)
  ultimately show thesis using that r by (auto simp: E_def)
qed

lemma rv_idem [simp]: "0 \<le> q \<Longrightarrow> rv (rv q) = rv q"
proof (cases "q = 0")
  case False
  assume "0 \<le> q"
  then have "0 < q" using False by simp
  then obtain k e where r: "rv q = of_int k * pow2 e" "0 \<le> k" "k \<le> 2 ^ 53" "- 1074 \<le> e" by (rule rv_form)
  show ?thesis
  proof (cases "k = 0")
    case False
    then show ?thesis unfolding r(1) using r(2-4) by (intro rv_representable) auto
  qed (simp add: r)
qed simp

lemma rv_nonneg [simp]: "0 \<le> q \<Longrightarrow> 0 \<le> rv q"
  using rv_mono [of 0 q] by simp

lemma rv_double:
  assumes "0 \<le> q" "rv q = q"
  shows "rv (2 * q) = 2 * q"
proof (cases "q = 0")
  case False
  then have "0 < q" using assms(1) by simp
  then obtain k e where r: "rv q = of_int k * pow2 e" "0 \<le> k" "k \<le> 2 ^ 53" "- 1074 \<le> e" by (rule rv_form)
  have "2 * q = of_int k * pow2 (e + 1)" using r(1) assms(2) by (simp add: pow2_add)
  moreover have "0 < k" using r(1,2) assms(2) False by (cases "k = 0") auto
  ultimately show ?thesis using r by (auto intro!: rv_representable simp del: rv_idem)
qed simp

subsection \<open>The operations stay in the type\<close>

lemma rnd_ok [simp]: "0 \<le> q \<Longrightarrow> float_ok (rnd s q)"
  by (simp add: rnd_def float_ok_def)

lemma float_ok_simps [simp]: "float_ok NaN" "float_ok (Inf s)" "float_ok (Fin s 0)"
  by (simp_all add: float_ok_def)

lemma float_okD: "float_ok (Fin s q) \<Longrightarrow> 0 \<le> q \<and> rv q = q \<and> q < pow2 1024"
  by (simp add: float_ok_def)

lemma fneg_ok [simp]: "float_ok (fneg f) = float_ok f"
  by (cases f) (simp_all add: fneg_def float_ok_def)

lemma rnd_sum_ok [simp]: "float_ok (rnd_sum s t v)"
  by (simp add: rnd_sum_def)

lemma fadd_ok [simp]: "float_ok (fadd a b)"
  by (cases "(a, b)" rule: fadd.cases) simp_all

lemma fmul_ok [simp]: "float_ok a \<Longrightarrow> float_ok b \<Longrightarrow> float_ok (fmul a b)"
  by (cases "(a, b)" rule: fmul.cases) (simp_all add: float_okD)

lemma fdiv_ok [simp]: "float_ok a \<Longrightarrow> float_ok b \<Longrightarrow> float_ok (fdiv a b)"
  by (cases "(a, b)" rule: fdiv.cases) (simp_all add: float_okD)

lemma mul_add_ok [simp]: "float_ok (mul_add fused x y z)"
  by (simp add: mul_add_def split: float64.split)

end
