(* ===== verification/Fraud_Model.thy ===== *)
theory Fraud_Model
  imports Float64
begin

text \<open>
  The inference kernel (internal/model/model.go): the artifact, its validation, and the
  score, the sigmoid of the intercept plus the dot product of features and weights.
  \<open>math.Exp\<close> is implemented differently on different processors, so it is a parameter;
  what the results rely on is \<open>exp_ok\<close>. Whether a product and a sum are fused is the
  parameter \<open>fused\<close>. Error values carry what their messages print.
\<close>

section \<open>The artifact\<close>

record Model =
  Version :: string
  CreatedAt :: string
  FeatureOrder :: "string list"
  Weights :: "float64 list"
  Intercept :: float64

datatype model_error =
    EmptyVersion
  | EmptyFeatureOrder
  | LengthMismatch nat nat
  | NonFiniteWeight nat string float64
  | NonFiniteIntercept float64
  | ErrFeatureCount nat nat
  | NonFiniteFeature nat float64
  | ErrNonFiniteLogit float64

text \<open>The loop over the weights; \<open>names\<close> are the feature names from index \<open>i\<close> on.\<close>

fun validate_weights :: "nat \<Rightarrow> string list \<Rightarrow> float64 list \<Rightarrow> model_error option" where
  "validate_weights i names [] = None"
| "validate_weights i names (w # ws) =
     (if \<not> isFinite w then Some (NonFiniteWeight i (hd names) w)
      else validate_weights (Suc i) (tl names) ws)"

definition Model_validate :: "Model \<Rightarrow> model_error option" where
  "Model_validate m =
     (if Version m = [] then Some EmptyVersion
      else if FeatureOrder m = [] then Some EmptyFeatureOrder
      else if length (Weights m) \<noteq> length (FeatureOrder m)
        then Some (LengthMismatch (length (Weights m)) (length (FeatureOrder m)))
      else case validate_weights 0 (FeatureOrder m) (Weights m) of
        Some e \<Rightarrow> Some e
      | None \<Rightarrow> if \<not> isFinite (Intercept m) then Some (NonFiniteIntercept (Intercept m)) else None)"

definition FeatureCount :: "Model \<Rightarrow> nat" where
  "FeatureCount m = length (Weights m)"

section \<open>The score\<close>

definition sigmoid :: "(float64 \<Rightarrow> float64) \<Rightarrow> float64 \<Rightarrow> float64" where
  "sigmoid Exp z =
     (if fge_zero z then fdiv (Fin False 1) (fadd (Fin False 1) (Exp (fneg z)))
      else let ez = Exp z in fdiv ez (fadd (Fin False 1) ez))"

text \<open>The loop of \<open>Score\<close> from index \<open>i\<close> on, with the sum so far.\<close>

fun score_loop ::
  "bool \<Rightarrow> nat \<Rightarrow> float64 list \<Rightarrow> float64 list \<Rightarrow> float64 \<Rightarrow> model_error + float64" where
  "score_loop fused i [] ws z = Inr z"
| "score_loop fused i (x # xs) ws z =
     (if \<not> isFinite x then Inl (NonFiniteFeature i x)
      else score_loop fused (Suc i) xs (tl ws) (mul_add fused x (hd ws) z))"

definition Model_Score ::
  "(float64 \<Rightarrow> float64) \<Rightarrow> bool \<Rightarrow> Model \<Rightarrow> float64 list \<Rightarrow> model_error + float64" where
  "Model_Score Exp fused m features =
     (if length features \<noteq> length (Weights m)
        then Inl (ErrFeatureCount (length features) (length (Weights m)))
      else case score_loop fused 0 features (Weights m) (Intercept m) of
        Inl e \<Rightarrow> Inl e
      | Inr z \<Rightarrow> if \<not> isFinite z then Inl (ErrNonFiniteLogit z) else Inr (sigmoid Exp z))"

section \<open>Valid models\<close>

definition model_ok :: "Model \<Rightarrow> bool" where
  "model_ok m \<longleftrightarrow> Version m \<noteq> [] \<and> FeatureOrder m \<noteq> [] \<and>
     length (Weights m) = length (FeatureOrder m) \<and>
     (\<forall>w\<in>set (Weights m). isFinite w) \<and> isFinite (Intercept m)"

lemma validate_weights_None: "validate_weights i names ws = None \<longleftrightarrow> (\<forall>w\<in>set ws. isFinite w)"
  by (induction i names ws rule: validate_weights.induct) auto

lemma validated: "Model_validate m = None \<longleftrightarrow> model_ok m"
  using validate_weights_None [of 0 "FeatureOrder m" "Weights m"]
  by (cases "validate_weights 0 (FeatureOrder m) (Weights m)") (auto simp: Model_validate_def model_ok_def)

lemma validate_weights_Some:
  "validate_weights i names ws = Some e \<Longrightarrow> length ws \<le> length names \<Longrightarrow>
   \<exists>k < length ws. e = NonFiniteWeight (i + k) (names ! k) (ws ! k) \<and> \<not> isFinite (ws ! k) \<and>
     (\<forall>j<k. isFinite (ws ! j))"
proof (induction i names ws rule: validate_weights.induct)
  case (2 i names w ws)
  show ?case
  proof (cases "isFinite w")
    case True
    obtain n ns where names: "names = n # ns" using 2(3) by (cases names) auto
    obtain k where k: "k < length ws" "e = NonFiniteWeight (Suc i + k) (ns ! k) (ws ! k)"
      "\<not> isFinite (ws ! k)" "\<forall>j<k. isFinite (ws ! j)"
      using 2 True names by auto
    then show ?thesis
      using True names by (intro exI [of _ "Suc k"]) (auto simp: less_Suc_eq_0_disj)
  next
    case False
    then show ?thesis using 2(2,3) by (cases names) auto
  qed
qed simp

text \<open>The exact logit and what the loop does to it.\<close>

lemma score_loop_finite:
  assumes "\<forall>x\<in>set xs. isFinite x"
  shows "score_loop fused i xs ws z = Inr (foldl (\<lambda>z (x, w). mul_add fused x w z) z (zip xs ws))
    \<or> length ws < length xs"
  using assms
proof (induction fused i xs ws z rule: score_loop.induct)
  case (2 fused i x xs ws z)
  then show ?case by (cases ws) auto
qed simp

lemma score_loop_error:
  "score_loop fused i xs ws z = Inl e \<longleftrightarrow>
   (\<exists>k < length xs. e = NonFiniteFeature (i + k) (xs ! k) \<and> \<not> isFinite (xs ! k) \<and>
     (\<forall>j<k. isFinite (xs ! j)))"
proof (induction fused i xs ws z rule: score_loop.induct)
  case (2 fused i x xs ws z)
  show ?case
  proof (cases "isFinite x")
    case True
    have "(\<exists>k < length (x # xs). e = NonFiniteFeature (i + k) ((x # xs) ! k) \<and> \<not> isFinite ((x # xs) ! k) \<and>
        (\<forall>j<k. isFinite ((x # xs) ! j))) \<longleftrightarrow>
      (\<exists>k < length xs. e = NonFiniteFeature (Suc i + k) (xs ! k) \<and> \<not> isFinite (xs ! k) \<and>
        (\<forall>j<k. isFinite (xs ! j)))" (is "?L = ?R")
    proof
      assume ?L
      then obtain k where k: "k < length (x # xs)" "e = NonFiniteFeature (i + k) ((x # xs) ! k)"
        "\<not> isFinite ((x # xs) ! k)" "\<forall>j<k. isFinite ((x # xs) ! j)" by blast
      then obtain k' where "k = Suc k'" using True by (cases k) auto
      then show ?R using k by (intro exI [of _ k']) auto
    next
      assume ?R
      then obtain k where "k < length xs" "e = NonFiniteFeature (Suc i + k) (xs ! k)"
        "\<not> isFinite (xs ! k)" "\<forall>j<k. isFinite (xs ! j)" by blast
      then show ?L using True by (intro exI [of _ "Suc k"]) (auto simp: less_Suc_eq_0_disj)
    qed
    then show ?thesis using True 2 by simp
  next
    case False
    have "k = 0" if "\<forall>j<k. isFinite ((x # xs) ! j)" for k using that False by (cases k) auto
    then show ?thesis using False by fastforce
  qed
qed simp

section \<open>The range of the sigmoid\<close>

text \<open>
  What is used of \<open>math.Exp\<close>: on the non-positive numbers it returns a float64 between 0
  and 1.
\<close>

definition exp_ok :: "(float64 \<Rightarrow> float64) \<Rightarrow> bool" where
  "exp_ok Exp \<longleftrightarrow> (\<forall>x. isFinite x \<and> float_ok x \<and> val x \<le> 0 \<longrightarrow>
     (\<exists>q. Exp x = Fin False q \<and> float_ok (Exp x) \<and> q \<le> 1))"

lemma exp_okD:
  assumes "exp_ok Exp" "isFinite x" "float_ok x" "val x \<le> 0"
  obtains q where "Exp x = Fin False q" "0 \<le> q" "q \<le> 1" "rv q = q"
proof -
  obtain q where q: "Exp x = Fin False q" "float_ok (Exp x)" "q \<le> 1"
    using assms unfolding exp_ok_def by blast
  then show thesis using that float_okD [of False q] by simp
qed

lemma rnd_small: "0 \<le> q \<Longrightarrow> q \<le> 2 \<Longrightarrow> rnd s q = Fin s (rv q)"
proof -
  assume "0 \<le> q" "q \<le> 2"
  then have "rv q \<le> 2" using rv_mono [of q 2] rv_small(2) by simp
  moreover have "(2 :: rat) < pow2 1024" using pow2_less [of 1 1024] by simp
  ultimately show ?thesis by (simp add: rnd_def)
qed

lemma one_plus:
  assumes "0 \<le> q" "q \<le> 1" "rv q = q"
  obtains d where "fadd (Fin False 1) (Fin False q) = Fin False d" "1 \<le> d" "d \<le> 2" "2 * q \<le> d" "rv d = d"
proof -
  let ?d = "rv (1 + q)"
  have "fadd (Fin False 1) (Fin False q) = Fin False ?d"
    using assms rnd_small [of "1 + q" False] by (simp add: rnd_sum_def)
  moreover have "rv 1 \<le> ?d" using assms by (intro rv_mono) simp_all
  moreover have "?d \<le> rv 2" using assms by (intro rv_mono) simp_all
  moreover have "rv (2 * q) \<le> ?d" using assms by (intro rv_mono) simp_all
  ultimately show thesis using that [of ?d] rv_small rv_double [OF assms(1,3)] assms(1) by simp
qed

lemma sigmoid_range:
  assumes "exp_ok Exp" "isFinite z" "float_ok z"
  obtains p where "sigmoid Exp z = Fin False p" "0 \<le> p" "p \<le> 1" "rv p = p"
    "val z \<ge> 0 \<Longrightarrow> 1 / 2 \<le> p" "val z < 0 \<Longrightarrow> p \<le> 1 / 2"
proof -
  obtain s r where z: "z = Fin s r" using assms(2) by (rule isFiniteE)
  have ge: "fge_zero z \<longleftrightarrow> val z \<ge> 0" using z by (simp add: fge_zero_def)
  show thesis
  proof (cases "val z \<ge> 0")
    case True
    have n: "isFinite (fneg z)" "float_ok (fneg z)" "val (fneg z) \<le> 0"
      using assms(3) True by (simp_all add: z fneg_def val_def float_ok_def split: if_splits)
    obtain q where q: "Exp (fneg z) = Fin False q" "0 \<le> q" "q \<le> 1" "rv q = q"
      using exp_okD [OF assms(1) n] .
    obtain d where d: "fadd (Fin False 1) (Fin False q) = Fin False d" "1 \<le> d" "d \<le> 2"
      using one_plus [OF q(2-4)] .
    have "1 / d \<le> 1" "1 / 2 \<le> 1 / d" using d(2,3) by (simp_all add: field_simps)
    then have "rv (1 / d) \<le> rv 1" "rv (1 / 2) \<le> rv (1 / d)" by (intro rv_mono; linarith)+
    moreover have "sigmoid Exp z = Fin False (rv (1 / d))"
      using True ge q(1) d rnd_small [of "1 / d" False] \<open>1 / d \<le> 1\<close> by (simp add: sigmoid_def)
    ultimately show thesis using that [of "rv (1 / d)"] True rv_small d(2) by simp
  next
    case False
    obtain q where q: "Exp z = Fin False q" "0 \<le> q" "q \<le> 1" "rv q = q"
      using exp_okD [OF assms(1-3)] False by auto
    obtain d where d: "fadd (Fin False 1) (Fin False q) = Fin False d" "1 \<le> d" "d \<le> 2" "2 * q \<le> d"
      using one_plus [OF q(2-4)] .
    have "q / d \<le> 1 / 2" "0 \<le> q / d" using d(2,4) q(2) by (simp_all add: field_simps)
    then have "rv (q / d) \<le> rv (1 / 2)" "0 \<le> rv (q / d)" by (auto intro: rv_mono)
    moreover have "sigmoid Exp z = Fin False (rv (q / d))"
      using False ge q(1) d rnd_small [of "q / d" False] \<open>q / d \<le> 1 / 2\<close> \<open>0 \<le> q / d\<close>
      by (simp add: sigmoid_def Let_def)
    ultimately show thesis using that [of "rv (q / d)"] False rv_small \<open>0 \<le> q / d\<close> by simp
  qed
qed

text \<open>
  A logit so large that \<open>Exp\<close> of its negation is at most \<open>2\<^sup>-\<^sup>5\<^sup>3\<close> scores exactly 1, and one so
  small that \<open>Exp\<close> underflows scores exactly 0.
\<close>

lemma score_loop_ok: "score_loop fused i ys ws y = Inr z \<Longrightarrow> float_ok y \<Longrightarrow> float_ok z"
  by (induction fused i ys ws y rule: score_loop.induct) (auto split: if_splits)

lemma score_finite:
  assumes "exp_ok Exp" "float_ok (Intercept m)" "Model_Score Exp fused m xs = Inr s"
  shows "isFinite s"
proof -
  obtain z where z: "score_loop fused 0 xs (Weights m) (Intercept m) = Inr z" "isFinite z" "s = sigmoid Exp z"
    using assms(3) by (auto simp: Model_Score_def split: if_splits sum.splits)
  show ?thesis using sigmoid_range [OF assms(1) z(2) score_loop_ok [OF z(1) assms(2)]] z(3) by (metis isFinite_simps(1))
qed

lemma rv_absorb:
  assumes "0 \<le> q" "q \<le> pow2 (- 53)"
  shows "rv (1 + q) = 1"
proof -
  have small: "pow2 (- 53) \<le> (1 :: rat) / 4" using pow2_le [of "- 53" "- 2"] by (simp add: pow2_def)
  have "ilog2 (1 + q) = 0" using assms small by (intro ilog2_unique) (auto simp: pow2_one)
  then have u: "quantum (1 + q) = pow2 (- 52)" by (simp add: quantum_def)
  have p: "pow2 (- 53) = pow2 (- 52) / 2" "1 = 4503599627370496 * pow2 (- 52)"
    using pow2_diff [of "- 52" 1] by (simp_all add: pow2_def)
  define f where "f = q / pow2 (- 52)"
  have f: "0 \<le> f" "f \<le> 1 / 2" using assms p(1) by (simp_all add: f_def field_simps)
  have x: "(1 + q) / pow2 (- 52) = 4503599627370496 + f"
    using p(2) by (simp add: f_def add_divide_distrib pow2_def)
  have "\<lfloor>4503599627370496 + f\<rfloor> = 4503599627370496" using f by (intro floor_unique) auto
  then have "round_even (4503599627370496 + f) = 4503599627370496"
    using f by (simp add: round_even_def Let_def)
  then show ?thesis using p(2) assms(1) by (simp add: rv_def u x)
qed

section \<open>Properties\<close>

definition example_model :: Model where
  "example_model = \<lparr>Version = ''v1'', CreatedAt = [], FeatureOrder = [''V1'', ''Amount''],
     Weights = [Fin False 2, Fin True (1 / 2)], Intercept = Fin False 0\<rparr>"

lemma example_logit:
  "score_loop False 0 [Fin False 1, Fin False 4] (Weights example_model) (Intercept example_model) = Inr (Fin False 0)"
proof -
  have "rv (2 :: rat) = 2" by (rule rv_small)
  moreover have "(2 :: rat) < pow2 1024" using pow2_less [of 1 1024] by simp
  ultimately show ?thesis by (simp add: example_model_def mul_add_def rnd_sum_def rnd_def)
qed

lemma example_score: "\<exists>s. Model_Score Exp False example_model [Fin False 1, Fin False 4] = Inr s"
  using example_logit by (simp add: Model_Score_def example_model_def)

text \<open>A stand-in for \<open>math.Exp\<close> that is in range: \<open>1 / (1 - x)\<close> on the non-positive numbers.\<close>

definition example_exp :: "float64 \<Rightarrow> float64" where
  "example_exp x = (case x of Fin s q \<Rightarrow> rnd False (1 / (1 + \<bar>q\<bar>)) | _ \<Rightarrow> NaN)"

lemma example_exp_ok: "exp_ok example_exp"
proof -
  have "rnd False (1 / (1 + \<bar>q\<bar>)) = Fin False (rv (1 / (1 + \<bar>q\<bar>))) \<and> rv (1 / (1 + \<bar>q\<bar>)) \<le> 1" for q :: rat
  proof -
    have q: "0 \<le> 1 / (1 + \<bar>q\<bar>)" "1 / (1 + \<bar>q\<bar>) \<le> 1" by (simp_all add: field_simps)
    then have "1 / (1 + \<bar>q\<bar>) \<le> 2" by linarith
    then show ?thesis using rnd_small [OF q(1), of False] rv_mono [OF q] rv_small(1) by simp
  qed
  moreover have "float_ok (rnd False (1 / (1 + \<bar>q\<bar>)))" for q :: rat by simp
  ultimately show ?thesis
    unfolding exp_ok_def example_exp_def by (auto elim!: isFiniteE)
qed

text \<open>
  The error of \<open>validate\<close> names the first offence, in the order the code checks, and a
  bad weight by its index, its feature and its value.
\<close>

lemma validate_error:
  assumes "Model_validate m = Some e"
  shows "e = EmptyVersion \<and> Version m = [] \<or>
    e = EmptyFeatureOrder \<and> FeatureOrder m = [] \<or>
    e = LengthMismatch (length (Weights m)) (length (FeatureOrder m)) \<and>
      length (Weights m) \<noteq> length (FeatureOrder m) \<or>
    (\<exists>k < length (Weights m). e = NonFiniteWeight k (FeatureOrder m ! k) (Weights m ! k) \<and>
       \<not> isFinite (Weights m ! k) \<and> (\<forall>j<k. isFinite (Weights m ! j))) \<or>
    e = NonFiniteIntercept (Intercept m) \<and> \<not> isFinite (Intercept m)"
  using assms validate_weights_Some [of 0 "FeatureOrder m" "Weights m" e]
  by (auto simp: Model_validate_def split: if_splits option.splits)

text \<open>
  C22. The score is a probability: whatever the artifact and the features, when \<open>Score\<close> returns
  no error the result is a finite float64 between 0 and 1, whether or not the compiler
  fuses products and sums. It is at least one half when the logit is not negative and at
  most one half when it is.
\<close>

theorem score_is_probability:
  assumes "exp_ok Exp" "float_ok (Intercept m)" "Model_Score Exp fused m xs = Inr s"
  shows "isFinite s \<and> float_ok s \<and> 0 \<le> val s \<and> val s \<le> 1 \<and>
    (\<exists>z. score_loop fused 0 xs (Weights m) (Intercept m) = Inr z \<and> isFinite z \<and>
       (0 \<le> val z \<longrightarrow> 1 / 2 \<le> val s) \<and> (val z < 0 \<longrightarrow> val s \<le> 1 / 2))"
proof -
  obtain z where z: "score_loop fused 0 xs (Weights m) (Intercept m) = Inr z" "isFinite z" "s = sigmoid Exp z"
    using assms(3) by (auto simp: Model_Score_def split: if_splits sum.splits)
  have "float_ok z" using z(1) assms(2) by (rule score_loop_ok)
  then obtain p where p: "sigmoid Exp z = Fin False p" "0 \<le> p" "p \<le> 1" "rv p = p"
    "val z \<ge> 0 \<Longrightarrow> 1 / 2 \<le> p" "val z < 0 \<Longrightarrow> p \<le> 1 / 2"
    using sigmoid_range [OF assms(1) z(2)] by blast
  have "(1 :: rat) < pow2 1024" using pow2_less [of 0 1024] by simp
  then have "float_ok (Fin False p)" using p(2-4) by (simp add: float_ok_def)
  then show ?thesis using z p by simp
qed

theorem score_is_probability_witness:
  "\<exists>s. Model_Score example_exp False example_model [Fin False 1, Fin False 4] = Inr s \<and>
     0 \<le> val s \<and> val s \<le> 1"
proof -
  obtain s where s: "Model_Score example_exp False example_model [Fin False 1, Fin False 4] = Inr s"
    using example_score by blast
  moreover have "float_ok (Intercept example_model)" by (simp add: example_model_def)
  ultimately show ?thesis using score_is_probability [OF example_exp_ok _ s] by auto
qed

text \<open>
  C27. On a valid artifact \<open>Score\<close> fails in exactly three ways: the vector has the wrong
  length; a feature is not finite, and the first such is named; or the finite features
  overflow the logit. Otherwise the logit is the sequential sum of the products in
  feature order on top of the intercept, and the result its sigmoid.
\<close>

theorem score_behaviour:
  assumes "model_ok m"
  shows "Model_Score Exp fused m xs =
    (if length xs \<noteq> FeatureCount m then Inl (ErrFeatureCount (length xs) (FeatureCount m))
     else case find (\<lambda>k. \<not> isFinite (xs ! k)) [0 ..< length xs] of
       Some k \<Rightarrow> Inl (NonFiniteFeature k (xs ! k))
     | None \<Rightarrow>
         let z = foldl (\<lambda>z (x, w). mul_add fused x w z) (Intercept m) (zip xs (Weights m))
         in if isFinite z then Inr (sigmoid Exp z) else Inl (ErrNonFiniteLogit z))"
proof (cases "length xs = length (Weights m)")
  case True
  show ?thesis
  proof (cases "find (\<lambda>k. \<not> isFinite (xs ! k)) [0 ..< length xs]")
    case None
    then have "\<forall>x\<in>set xs. isFinite x" by (auto simp: find_None_iff in_set_conv_nth)
    then show ?thesis
      using True None score_loop_finite [of xs fused 0 "Weights m" "Intercept m"]
      by (auto simp: Model_Score_def FeatureCount_def Let_def)
  next
    case (Some k)
    have k: "k < length xs" "\<not> isFinite (xs ! k)" "\<forall>j<k. isFinite (xs ! j)"
      using Some by (auto simp: find_Some_iff)
    then have "score_loop fused 0 xs (Weights m) (Intercept m) = Inl (NonFiniteFeature k (xs ! k))"
      using score_loop_error [of fused 0 xs "Weights m" "Intercept m"] by fastforce
    then show ?thesis using True Some by (simp add: Model_Score_def FeatureCount_def)
  qed
qed (simp add: Model_Score_def FeatureCount_def)

theorem score_behaviour_witness:
  "model_ok example_model \<and>
   Model_Score example_exp False example_model [Fin False 1, NaN] = Inl (NonFiniteFeature 1 NaN)"
proof -
  have ok: "model_ok example_model" by (simp add: model_ok_def example_model_def)
  show ?thesis
    using ok score_behaviour [OF ok, of example_exp False "[Fin False 1, NaN]"]
    by (simp add: FeatureCount_def example_model_def)
qed

text \<open>
  C29. The sigmoid is not confined to the open interval: once \<open>Exp\<close> of the negated logit is at
  most \<open>2\<^sup>-\<^sup>5\<^sup>3\<close>, the result is exactly 1, and once \<open>Exp\<close> underflows to zero for a negative
  logit the result is exactly 0.
\<close>

theorem sigmoid_saturates:
  assumes "isFinite z" "Exp (fneg z) = Fin False q" "0 \<le> q" "q \<le> pow2 (- 53)" "0 \<le> val z"
    and "isFinite y" "Exp y = Fin False 0" "val y < 0"
  shows "sigmoid Exp z = Fin False 1 \<and> sigmoid Exp y = Fin False 0"
proof -
  have z: "fge_zero z" "\<not> fge_zero y" using assms by (auto simp: fge_zero_def elim!: isFiniteE)
  have small: "pow2 (- 53) \<le> 1" using pow2_le [of "- 53" 0] by simp
  have "fadd (Fin False 1) (Fin False q) = Fin False 1"
    using assms(3,4) small rnd_small [of "1 + q" False] rv_absorb [OF assms(3,4)] by (simp add: rnd_sum_def)
  moreover have "fadd (Fin False 1) (Fin False 0) = Fin False 1"
    using rnd_small [of 1 False] rv_small(1) by (simp add: rnd_sum_def)
  ultimately show ?thesis
    using z assms(2,7) rnd_small [of 1 False] rnd_small [of 0 False] rv_small(1) by (simp add: sigmoid_def Let_def)
qed

theorem sigmoid_saturates_witness:
  "sigmoid (\<lambda>x. Fin False (if val x \<le> - 40 then 0 else 1)) (Fin False 50) = Fin False 1 \<and>
   sigmoid (\<lambda>x. Fin False (if val x \<le> - 40 then 0 else 1)) (Fin True 50) = Fin False 0"
  by (rule sigmoid_saturates [where q = 0]) (simp_all add: fneg_def)

end
