(* ===== verification/Scoring.thy ===== *)
theory Scoring
  imports Fraud_Model "HOL-Library.List_Lexorder" "HOL-Library.Char_ord" "HOL-Library.Multiset"
begin

text \<open>
  The scoring service (internal/scoring): it turns the named features of a request into the
  vector of the model, in the model's order, and reports every way in which the request does
  not fit. A Go map is an association list with distinct keys; its order is the one in
  which \<open>range\<close> happens to visit it. \<open>quote\<close> is the quoting of the verb \<open>%q\<close>.
\<close>

section \<open>Features and errors\<close>

text \<open>What a decoded JSON value is in an interface variable.\<close>

datatype any =
    ANull
  | ABool bool
  | ANumber float64
  | AString string
  | AArray "any list"
  | AObject "(string \<times> any) list"

type_synonym Features = "(string \<times> any) list"

text \<open>The name of the dynamic type, as the verb \<open>%T\<close> prints it.\<close>

fun type_name :: "any \<Rightarrow> string" where
  "type_name ANull = ''<nil>''"
| "type_name (ABool b) = ''bool''"
| "type_name (ANumber x) = ''float64''"
| "type_name (AString s) = ''string''"
| "type_name (AArray xs) = ''[]interface {}''"
| "type_name (AObject fs) = ''map[string]interface {}''"

type_synonym FeatureErrorKind = byte

definition FeatureMissing :: FeatureErrorKind where "FeatureMissing = 1"
definition FeatureUnknown :: FeatureErrorKind where "FeatureUnknown = 2"
definition FeatureNull :: FeatureErrorKind where "FeatureNull = 3"
definition FeatureInvalidType :: FeatureErrorKind where "FeatureInvalidType = 4"
definition FeatureNonFinite :: FeatureErrorKind where "FeatureNonFinite = 5"

lemmas kind_defs = FeatureMissing_def FeatureUnknown_def FeatureNull_def FeatureInvalidType_def
  FeatureNonFinite_def

record FeatureError =
  Kind :: FeatureErrorKind
  Feature :: string
  Got :: string

definition FeatureError_Error :: "(string \<Rightarrow> string) \<Rightarrow> FeatureError \<Rightarrow> string" where
  "FeatureError_Error quote e =
     ''scoring: feature '' @ quote (Feature e) @
     (if Kind e = FeatureMissing then '' is missing''
      else if Kind e = FeatureUnknown then '' is unknown''
      else if Kind e = FeatureNull then '' is null''
      else if Kind e = FeatureInvalidType then '' must be a number, got '' @ Got e
      else if Kind e = FeatureNonFinite then '' must be finite''
      else '' is invalid'')"

datatype cause = FeatureCause FeatureError | ModelCause model_error

record ClientError =
  Message :: string
  Err :: cause

definition ClientError_Error :: "ClientError \<Rightarrow> string" where
  "ClientError_Error e = Message e"

definition ClientError_Unwrap :: "ClientError \<Rightarrow> cause" where
  "ClientError_Unwrap e = Err e"

datatype score_error = Client ClientError | Server model_error

section \<open>The vector\<close>

definition feature_error :: "FeatureErrorKind \<Rightarrow> string \<Rightarrow> FeatureError" where
  "feature_error k name = \<lparr>Kind = k, Feature = name, Got = []\<rparr>"

definition feature_value :: "Features \<Rightarrow> string \<Rightarrow> FeatureError + float64" where
  "feature_value features name =
     (case map_of features name of
        None \<Rightarrow> Inl (feature_error FeatureMissing name)
      | Some ANull \<Rightarrow> Inl (feature_error FeatureNull name)
      | Some (ANumber x) \<Rightarrow> if \<not> isFinite x then Inl (feature_error FeatureNonFinite name) else Inr x
      | Some raw \<Rightarrow> Inl \<lparr>Kind = FeatureInvalidType, Feature = name, Got = type_name raw\<rparr>)"

fun vector_loop :: "Features \<Rightarrow> string list \<Rightarrow> FeatureError + float64 list" where
  "vector_loop features [] = Inr []"
| "vector_loop features (name # names) =
     (case feature_value features name of
        Inl e \<Rightarrow> Inl e
      | Inr x \<Rightarrow>
          (case vector_loop features names of Inl e \<Rightarrow> Inl e | Inr xs \<Rightarrow> Inr (x # xs)))"

definition vectorFor :: "Model \<Rightarrow> Features \<Rightarrow> FeatureError + float64 list" where
  "vectorFor m features =
     (case vector_loop features (FeatureOrder m) of
        Inl e \<Rightarrow> Inl e
      | Inr vector \<Rightarrow>
          let unknown = filter (\<lambda>name. name \<notin> set (FeatureOrder m)) (map fst features)
          in if unknown \<noteq> [] then Inl (feature_error FeatureUnknown (hd (sort unknown)))
             else Inr vector)"

section \<open>The service\<close>

record Result =
  Score :: float64
  ModelVersion :: string
  ScoredAt :: int

text \<open>A clock turns the time of the world into a reading; \<open>time.Now\<close> is the identity.\<close>

record Service =
  model :: "Model option"
  clock :: "int \<Rightarrow> int"

definition NewService :: "Model option \<Rightarrow> (int \<Rightarrow> int) option \<Rightarrow> string + Service" where
  "NewService m clk =
     (case m of
        None \<Rightarrow> Inl ''scoring: nil model''
      | Some _ \<Rightarrow> Inr \<lparr>model = m, clock = (case clk of None \<Rightarrow> (\<lambda>t. t) | Some f \<Rightarrow> f)\<rparr>)"

definition activeModel :: "Service \<Rightarrow> Model option" where
  "activeModel s = model s"

definition Service_Ready :: "Service \<Rightarrow> bool" where
  "Service_Ready s \<longleftrightarrow> model s \<noteq> None \<and> activeModel s \<noteq> None"

definition Service_Score ::
  "(string \<Rightarrow> string) \<Rightarrow> (float64 \<Rightarrow> float64) \<Rightarrow> bool \<Rightarrow> int \<Rightarrow> Service \<Rightarrow> Features \<Rightarrow>
   (score_error + Result, unit) outcome" where
  "Service_Score quote Exp fused t s features =
     (case activeModel s of
        None \<Rightarrow> Panic NilDereference ()
      | Some m \<Rightarrow>
          Ok (case vectorFor m features of
                Inl e \<Rightarrow> Inl (Client \<lparr>Message = FeatureError_Error quote e, Err = FeatureCause e\<rparr>)
              | Inr vector \<Rightarrow>
                  (case Model_Score Exp fused m vector of
                     Inl (ErrNonFiniteLogit z) \<Rightarrow>
                       Inl (Client \<lparr>Message = ''scoring: feature values are too large to score'',
                                    Err = ModelCause (ErrNonFiniteLogit z)\<rparr>)
                   | Inl e \<Rightarrow> Inl (Server e)
                   | Inr score \<Rightarrow>
                       Inr \<lparr>Score = score, ModelVersion = Version m, ScoredAt = clock s t\<rparr>)))"

section \<open>Facts\<close>

lemma feature_value_Inr:
  "feature_value fs name = Inr x \<longleftrightarrow> map_of fs name = Some (ANumber x) \<and> isFinite x"
  by (auto simp: feature_value_def split: option.splits any.splits)

lemma feature_value_Inl:
  assumes "feature_value fs name = Inl e"
  shows "Feature e = name \<and> Kind e \<noteq> FeatureUnknown \<and>
    (Kind e = FeatureMissing \<longleftrightarrow> map_of fs name = None) \<and>
    (Kind e = FeatureNull \<longleftrightarrow> map_of fs name = Some ANull) \<and>
    (Kind e = FeatureNonFinite \<longleftrightarrow> (\<exists>x. map_of fs name = Some (ANumber x)))"
  using assms
  by (auto simp: feature_value_def feature_error_def kind_defs split: option.splits any.splits if_splits)

lemma vector_loop_Inr:
  "vector_loop fs names = Inr xs \<longleftrightarrow> list_all2 (\<lambda>name x. feature_value fs name = Inr x) names xs"
proof (induction names arbitrary: xs)
  case (Cons n ns)
  show ?case
    by (cases "feature_value fs n"; cases "vector_loop fs ns")
      (auto simp: list_all2_Cons1 Cons.IH [symmetric])
qed auto

lemma vector_loop_find:
  "vector_loop fs names =
     (case find (\<lambda>n. isl (feature_value fs n)) names of
        None \<Rightarrow> Inr (map (\<lambda>n. projr (feature_value fs n)) names)
      | Some n \<Rightarrow> Inl (projl (feature_value fs n)))"
  by (induction names) (auto split: sum.splits option.splits)

lemma vectorFor_Inr:
  "vectorFor m fs = Inr v \<longleftrightarrow> fst ` set fs = set (FeatureOrder m) \<and>
     list_all2 (\<lambda>name x. map_of fs name = Some (ANumber x) \<and> isFinite x) (FeatureOrder m) v"
proof -
  let ?L = "list_all2 (\<lambda>name x. map_of fs name = Some (ANumber x) \<and> isFinite x) (FeatureOrder m) v"
  have loop: "vector_loop fs (FeatureOrder m) = Inr v \<longleftrightarrow> ?L"
    by (simp add: vector_loop_Inr feature_value_Inr)
  have sub: "set (FeatureOrder m) \<subseteq> fst ` set fs" if L: ?L
  proof
    fix n assume "n \<in> set (FeatureOrder m)"
    then obtain x where "map_of fs n = Some (ANumber x)"
      using L unfolding list_all2_conv_all_nth in_set_conv_nth by blast
    then show "n \<in> fst ` set fs" by (force dest: map_of_SomeD)
  qed
  have unk: "filter (\<lambda>name. name \<notin> set (FeatureOrder m)) (map fst fs) = [] \<longleftrightarrow> fst ` set fs \<subseteq> set (FeatureOrder m)"
    by (auto simp: filter_empty_conv)
  show ?thesis
  proof (cases "vector_loop fs (FeatureOrder m)")
    case (Inl e)
    then show ?thesis using loop by (simp add: vectorFor_def)
  next
    case (Inr w)
    then show ?thesis using loop sub unk by (auto simp: vectorFor_def Let_def)
  qed
qed

lemma vectorFor_finite:
  assumes "vectorFor m fs = Inr v"
  shows "length v = length (FeatureOrder m)" "\<forall>x\<in>set v. isFinite x"
  using assms by (auto simp: vectorFor_Inr list_all2_conv_all_nth in_set_conv_nth)

lemma service_cases:
  assumes "NewService (Some m) clk = Inr s" "model_ok m"
  shows "Service_Ready s \<and>
    ((\<exists>e. vectorFor m fs = Inl e \<and> Service_Score quote Exp fused t s fs =
        Ok (Inl (Client \<lparr>Message = FeatureError_Error quote e, Err = FeatureCause e\<rparr>))) \<or>
     (\<exists>v z. vectorFor m fs = Inr v \<and> Model_Score Exp fused m v = Inl (ErrNonFiniteLogit z) \<and>
        Service_Score quote Exp fused t s fs =
          Ok (Inl (Client \<lparr>Message = ''scoring: feature values are too large to score'',
                           Err = ModelCause (ErrNonFiniteLogit z)\<rparr>))) \<or>
     (\<exists>v p. vectorFor m fs = Inr v \<and> Model_Score Exp fused m v = Inr p \<and>
        Service_Score quote Exp fused t s fs =
          Ok (Inr \<lparr>Score = p, ModelVersion = Version m, ScoredAt = clock s t\<rparr>)))"
proof -
  have s: "model s = Some m" using assms(1) by (auto simp: NewService_def)
  show ?thesis
  proof (cases "vectorFor m fs")
    case (Inl e)
    then show ?thesis using s by (simp add: Service_Ready_def Service_Score_def activeModel_def)
  next
    case (Inr v)
    have len: "length v = length (Weights m)" "\<forall>x\<in>set v. isFinite x"
      using vectorFor_finite [OF Inr] assms(2) by (simp_all add: model_ok_def)
    obtain z where "score_loop fused 0 v (Weights m) (Intercept m) = Inr z"
      using score_loop_finite [OF len(2), of fused 0 "Weights m" "Intercept m"] len(1) by auto
    then show ?thesis
      using s Inr len(1) by (auto simp: Service_Ready_def Service_Score_def activeModel_def Model_Score_def)
  qed
qed

section \<open>Properties\<close>

text \<open>
  C24. \<open>vectorFor\<close> returns a vector exactly when the request names the model's features and no
  others, each with a finite number; the vector then has those numbers in the order of the
  model.
\<close>

theorem vectorFor_correct:
  "vectorFor m fs = Inr v \<longleftrightarrow> fst ` set fs = set (FeatureOrder m) \<and> length v = length (FeatureOrder m) \<and>
     (\<forall>i < length v. map_of fs (FeatureOrder m ! i) = Some (ANumber (v ! i)) \<and> isFinite (v ! i))"
  by (auto simp: vectorFor_Inr list_all2_conv_all_nth)

theorem vectorFor_correct_witness:
  "vectorFor example_model [(''Amount'', ANumber (Fin False 4)), (''V1'', ANumber (Fin False 1))]
     = Inr [Fin False 1, Fin False 4]"
  unfolding vectorFor_correct by (auto simp: example_model_def less_Suc_eq)

text \<open>
  C25. The error of \<open>vectorFor\<close> is about the first feature in the model's order that is missing,
  null, not a number or not finite, with the kind that says which; only when there is
  none, it is about the alphabetically first name that the model does not have.
\<close>

theorem vectorFor_error:
  assumes "vectorFor m fs = Inl e"
  shows "(\<exists>k < length (FeatureOrder m). Feature e = FeatureOrder m ! k \<and> Kind e \<noteq> FeatureUnknown \<and>
      (Kind e = FeatureMissing \<longleftrightarrow> map_of fs (Feature e) = None) \<and>
      (Kind e = FeatureNull \<longleftrightarrow> map_of fs (Feature e) = Some ANull) \<and>
      (Kind e = FeatureNonFinite \<longleftrightarrow> (\<exists>x. map_of fs (Feature e) = Some (ANumber x))) \<and>
      (\<forall>j<k. \<exists>x. map_of fs (FeatureOrder m ! j) = Some (ANumber x) \<and> isFinite x)) \<or>
    Kind e = FeatureUnknown \<and> Feature e \<in> fst ` set fs - set (FeatureOrder m) \<and>
      (\<forall>n\<in>fst ` set fs - set (FeatureOrder m). Feature e \<le> n) \<and>
      (\<forall>n\<in>set (FeatureOrder m). \<exists>x. map_of fs n = Some (ANumber x) \<and> isFinite x)"
proof (cases "find (\<lambda>n. isl (feature_value fs n)) (FeatureOrder m)")
  case None
  have fine: "\<exists>x. map_of fs n = Some (ANumber x) \<and> isFinite x" if "n \<in> set (FeatureOrder m)" for n
    using None that by (cases "feature_value fs n") (auto simp: find_None_iff feature_value_Inr)
  let ?u = "filter (\<lambda>name. name \<notin> set (FeatureOrder m)) (map fst fs)"
  have e: "?u \<noteq> []" "e = feature_error FeatureUnknown (hd (sort ?u))"
    using assms None by (auto simp: vectorFor_def vector_loop_find Let_def split: if_splits)
  have su: "set (sort ?u) = fst ` set fs - set (FeatureOrder m)" by auto
  have "sort ?u \<noteq> []" using e(1) by (metis length_sort length_0_conv)
  then obtain x xs where s: "sort ?u = x # xs" by (cases "sort ?u") auto
  have "sorted (x # xs)" using s by (metis sorted_sort)
  then have "\<forall>n\<in>set (x # xs). x \<le> n" by auto
  moreover have "x \<in> set (x # xs)" by simp
  ultimately have x: "x \<in> fst ` set fs - set (FeatureOrder m)"
    "\<forall>n\<in>fst ` set fs - set (FeatureOrder m). x \<le> n"
    unfolding su [unfolded s] by blast+
  have ex: "Kind e = FeatureUnknown" "Feature e = x" using e(2) s by (simp_all add: feature_error_def)
  have "\<forall>n\<in>set (FeatureOrder m). \<exists>x. map_of fs n = Some (ANumber x) \<and> isFinite x"
    using fine by (intro ballI)
  then show ?thesis unfolding ex(2) using x ex(1) by (intro disjI2 conjI)
next
  case (Some n)
  then obtain k where k: "k < length (FeatureOrder m)" "n = FeatureOrder m ! k" "isl (feature_value fs n)"
    "\<forall>j<k. \<not> isl (feature_value fs (FeatureOrder m ! j))"
    by (auto simp: find_Some_iff)
  have e: "feature_value fs n = Inl e"
    using assms Some k(3) by (auto simp: vectorFor_def vector_loop_find)
  have fine: "\<exists>x. map_of fs (FeatureOrder m ! j) = Some (ANumber x) \<and> isFinite x" if "j < k" for j
    using k(4) that by (cases "feature_value fs (FeatureOrder m ! j)") (auto simp: feature_value_Inr)
  note f = feature_value_Inl [OF e]
  then have n: "Feature e = n" by (rule conjunct1)
  show ?thesis
    by (intro disjI1 exI [of _ k]) (use k(1,2) f fine in \<open>simp add: n\<close>)
qed

theorem vectorFor_error_witness:
  "vectorFor example_model [(''V1'', ANumber (Fin False 1)), (''b'', ANull), (''Amount'', ANumber (Fin False 1)), (''a'', ABool True)]
     = Inl (feature_error FeatureUnknown ''a'') \<and>
   vectorFor example_model [(''V1'', ANull)] = Inl (feature_error FeatureNull ''V1'')"
proof -
  have 1: "vectorFor example_model [(''V1'', ANumber (Fin False 1)), (''b'', ANull), (''Amount'', ANumber (Fin False 1)), (''a'', ABool True)]
     = Inl (feature_error FeatureUnknown ''a'')"
    by (simp add: vectorFor_def example_model_def feature_value_def Cons_le_Cons)
  have 2: "vectorFor example_model [(''V1'', ANull)] = Inl (feature_error FeatureNull ''V1'')"
    by (simp add: vectorFor_def example_model_def feature_value_def)
  show ?thesis using 1 2 vectorFor_error [OF 1] by blast
qed

lemma vector_loop_snoc:
  "vector_loop fs (names @ [name]) =
     (case vector_loop fs names of
        Inl e \<Rightarrow> Inl e
      | Inr xs \<Rightarrow> (case feature_value fs name of Inl e \<Rightarrow> Inl e | Inr x \<Rightarrow> Inr (xs @ [x])))"
  by (induction names) (auto split: sum.splits)

lemma vector_loop_nth:
  "vector_loop fs names = Inr xs \<Longrightarrow> i < length names \<Longrightarrow> feature_value fs (names ! i) = Inr (xs ! i)"
  by (induction names arbitrary: xs i) (auto simp: nth_Cons split: sum.splits nat.splits)

text \<open>
  C28. Nothing keeps a feature from being counted twice: for every artifact that \<open>validate\<close>
  accepts, the artifact that lists one of its features again, with any finite weight, is
  accepted too, and \<open>vectorFor\<close> then fills both places with the one value of the request. It
  refuses exactly the requests it refused before, with the same errors.
\<close>

theorem duplicate_feature_accepted:
  assumes "Model_validate m = None" "i < length (FeatureOrder m)" "isFinite w"
  shows "Model_validate (m\<lparr>FeatureOrder := FeatureOrder m @ [FeatureOrder m ! i], Weights := Weights m @ [w]\<rparr>) = None \<and>
    vectorFor (m\<lparr>FeatureOrder := FeatureOrder m @ [FeatureOrder m ! i], Weights := Weights m @ [w]\<rparr>) fs =
      (case vectorFor m fs of Inl e \<Rightarrow> Inl e | Inr xs \<Rightarrow> Inr (xs @ [xs ! i]))"
proof
  let ?m = "m\<lparr>FeatureOrder := FeatureOrder m @ [FeatureOrder m ! i], Weights := Weights m @ [w]\<rparr>"
  show "Model_validate ?m = None"
    using assms(1,3) unfolding validated model_ok_def by auto
  have names: "set (FeatureOrder ?m) = set (FeatureOrder m)" using assms(2) by auto
  show "vectorFor ?m fs = (case vectorFor m fs of Inl e \<Rightarrow> Inl e | Inr xs \<Rightarrow> Inr (xs @ [xs ! i]))"
  proof (cases "vector_loop fs (FeatureOrder m)")
    case (Inr xs)
    then have "vector_loop fs (FeatureOrder ?m) = Inr (xs @ [xs ! i])"
      using vector_loop_nth [OF Inr assms(2)] by (simp add: vector_loop_snoc)
    with Inr show ?thesis unfolding vectorFor_def names Let_def by simp
  qed (simp add: vectorFor_def vector_loop_snoc)
qed

theorem duplicate_feature_accepted_witness:
  "vectorFor (example_model\<lparr>FeatureOrder := FeatureOrder example_model @ [''V1''],
       Weights := Weights example_model @ [Fin False 2]\<rparr>)
     [(''Amount'', ANumber (Fin False 4)), (''V1'', ANumber (Fin False 1))]
     = Inr [Fin False 1, Fin False 4, Fin False 1]"
proof -
  have v: "Model_validate example_model = None" "(0 :: nat) < length (FeatureOrder example_model)"
    "FeatureOrder example_model ! 0 = ''V1''"
    by (simp_all add: validated model_ok_def) (simp_all add: example_model_def)
  have "vectorFor example_model [(''Amount'', ANumber (Fin False 4)), (''V1'', ANumber (Fin False 1))]
     = Inr [Fin False 1, Fin False 4]"
    by (simp add: vectorFor_def example_model_def feature_value_def)
  then show ?thesis
    using duplicate_feature_accepted [OF v(1,2), of "Fin False 2" "[(''Amount'', ANumber (Fin False 4)), (''V1'', ANumber (Fin False 1))]"]
    unfolding v(3) by simp
qed

text \<open>
  C26. The order in which the runtime visits the map of features does not matter: the vector
  and every error are the same for all orders.
\<close>

theorem vectorFor_order_irrelevant:
  assumes "distinct (map fst fs)" "mset fs = mset gs"
  shows "vectorFor m fs = vectorFor m gs"
proof -
  have d: "distinct (map fst gs)" using assms by (metis mset_eq_imp_distinct_iff mset_map)
  have "map_of fs = map_of gs"
    using assms d by (metis map_of_inject_set mset_eq_setD)
  then have v: "feature_value fs = feature_value gs" by (simp add: feature_value_def fun_eq_iff)
  have l: "vector_loop fs names = vector_loop gs names" for names
    unfolding vector_loop_find v ..
  have "mset (filter (\<lambda>n. n \<notin> set (FeatureOrder m)) (map fst fs)) =
      mset (filter (\<lambda>n. n \<notin> set (FeatureOrder m)) (map fst gs))"
    using assms(2) by (metis mset_filter mset_map)
  then have "sort (filter (\<lambda>n. n \<notin> set (FeatureOrder m)) (map fst fs)) =
      sort (filter (\<lambda>n. n \<notin> set (FeatureOrder m)) (map fst gs))" by (rule properties_for_sort [symmetric, OF _ sorted_sort, simplified])
  then show ?thesis
    unfolding vectorFor_def l Let_def by (metis (no_types, lifting) length_0_conv length_sort)
qed

theorem vectorFor_order_irrelevant_witness:
  "vectorFor example_model [(''y'', ANull), (''V1'', ANumber (Fin False 1)), (''Amount'', ANumber (Fin False 1)), (''x'', ANull)]
   = vectorFor example_model [(''x'', ANull), (''Amount'', ANumber (Fin False 1)), (''V1'', ANumber (Fin False 1)), (''y'', ANull)]"
  by (rule vectorFor_order_irrelevant) simp_all

text \<open>
  C23. A service that \<open>New\<close> built on a valid model is ready and never panics, and every failure of
  \<open>Score\<close> is the client's: a feature error, or features too large for the model. The branch
  for other errors of the kernel is never taken.
\<close>

theorem service_fails_only_on_input:
  assumes "NewService (Some m) clk = Inr s" "model_ok m"
  shows "Service_Ready s \<and>
    ((\<exists>e. vectorFor m fs = Inl e \<and> Service_Score quote Exp fused t s fs =
        Ok (Inl (Client \<lparr>Message = FeatureError_Error quote e, Err = FeatureCause e\<rparr>))) \<or>
     (\<exists>v z. vectorFor m fs = Inr v \<and> Model_Score Exp fused m v = Inl (ErrNonFiniteLogit z) \<and>
        Service_Score quote Exp fused t s fs =
          Ok (Inl (Client \<lparr>Message = ''scoring: feature values are too large to score'',
                           Err = ModelCause (ErrNonFiniteLogit z)\<rparr>))) \<or>
     (\<exists>v p. vectorFor m fs = Inr v \<and> Model_Score Exp fused m v = Inr p \<and>
        Service_Score quote Exp fused t s fs =
          Ok (Inr \<lparr>Score = p, ModelVersion = Version m, ScoredAt = clock s t\<rparr>)))"
  using assms by (rule service_cases)

theorem service_fails_only_on_input_witness:
  "\<exists>s. NewService (Some example_model) None = Inr s \<and>
     Service_Score (\<lambda>x. x) example_exp False 7 s [(''V1'', ABool True)] =
       Ok (Inl (Client \<lparr>Message = ''scoring: feature V1 must be a number, got bool'',
         Err = FeatureCause \<lparr>Kind = FeatureInvalidType, Feature = ''V1'', Got = ''bool''\<rparr>\<rparr>))"
proof -
  have v: "vectorFor example_model [(''V1'', ABool True)] =
      Inl \<lparr>Kind = FeatureInvalidType, Feature = ''V1'', Got = ''bool''\<rparr>"
    by (simp add: vectorFor_def example_model_def feature_value_def)
  obtain s where n: "NewService (Some example_model) None = Inr s" by (simp add: NewService_def)
  have "model_ok example_model" by (simp add: model_ok_def example_model_def)
  from service_fails_only_on_input [OF n this, of "[(''V1'', ABool True)]" "\<lambda>x. x" example_exp False 7]
  show ?thesis using n v by (auto simp: FeatureError_Error_def kind_defs)
qed

end
