(* ===== verification/Json.thy ===== *)
theory Json
  imports Float64
begin

text \<open>
  What the service uses of Go's package encoding/json: the streaming decoder that hands out
  tokens (\<open>Token\<close>, \<open>More\<close>), the scanner of literals below it, and the decoder that reads a
  whole value. Text is a list of bytes, written as characters. The values of the grammar are
  \<open>json\<close>; \<open>parse_value\<close> is the grammar as a recursive parser, in which a number keeps its text.
\<close>

section \<open>Literals\<close>

datatype json_error =
    EOF
  | UnexpectedEOF
  | InvalidChar char string

definition isSpace :: "char \<Rightarrow> bool" where
  "isSpace c \<longleftrightarrow> c \<in> set [CHR '' '', CHR 0x09, CHR 0x0D, CHR 0x0A]"

definition ws :: "string \<Rightarrow> string" where
  "ws s = dropWhile isSpace s"

definition code :: "char \<Rightarrow> nat" where
  "code c = of_char c"

definition isDigit :: "char \<Rightarrow> bool" where
  "isDigit c \<longleftrightarrow> 48 \<le> code c \<and> code c \<le> 57"

definition isHex :: "char \<Rightarrow> bool" where
  "isHex c \<longleftrightarrow> isDigit c \<or> 65 \<le> code c \<and> code c \<le> 70 \<or> 97 \<le> code c \<and> code c \<le> 102"

text \<open>
  The scanner in a string, behind its opening quote: the raw text up to the closing quote,
  and what follows it.
\<close>

fun scan_hex :: "nat \<Rightarrow> string \<Rightarrow> json_error + string \<times> string" where
  "scan_hex 0 s = Inr ([], s)"
| "scan_hex (Suc k) [] = Inl UnexpectedEOF"
| "scan_hex (Suc k) (c # s) =
     (if isHex c
      then case scan_hex k s of Inl e \<Rightarrow> Inl e | Inr (h, r) \<Rightarrow> Inr (c # h, r)
      else Inl (InvalidChar c (''in '' @ [CHR 0x5C] @ ''u hexadecimal character escape'')))"

lemma scan_hex_shorter: "scan_hex k s = Inr (h, r) \<Longrightarrow> length r \<le> length s"
  by (induction k s arbitrary: h r rule: scan_hex.induct) (auto split: if_splits sum.splits)

function scan_string :: "string \<Rightarrow> json_error + string \<times> string" where
  "scan_string s =
     (case s of
        [] \<Rightarrow> Inl UnexpectedEOF
      | c # r \<Rightarrow>
          if c = CHR 0x22 then Inr ([], r)
          else if c = CHR 0x5C then
            (case r of
               [] \<Rightarrow> Inl UnexpectedEOF
             | e # r' \<Rightarrow>
                 if e \<in> set ''bfnrt/'' \<or> e = CHR 0x5C \<or> e = CHR 0x22 then
                   (case scan_string r' of Inl x \<Rightarrow> Inl x | Inr (t, z) \<Rightarrow> Inr (c # e # t, z))
                 else if e = CHR ''u'' then
                   (case scan_hex 4 r' of
                      Inl x \<Rightarrow> Inl x
                    | Inr (h, r'') \<Rightarrow>
                        (case scan_string r'' of Inl x \<Rightarrow> Inl x | Inr (t, z) \<Rightarrow> Inr (c # e # h @ t, z)))
                 else Inl (InvalidChar e ''in string escape code''))
          else if code c < 32 then Inl (InvalidChar c ''in string literal'')
          else (case scan_string r of Inl x \<Rightarrow> Inl x | Inr (t, z) \<Rightarrow> Inr (c # t, z)))"
  by pat_completeness auto
termination
  by (relation "measure length") (auto dest!: scan_hex_shorter)

declare scan_string.simps [simp del]

subsection \<open>Unquoting\<close>

definition hex_digit :: "char \<Rightarrow> nat" where
  "hex_digit c = (if isDigit c then code c - 48 else if code c \<le> 70 then code c - 55 else code c - 87)"

definition hex_val :: "string \<Rightarrow> nat" where
  "hex_val h = foldl (\<lambda>a c. a * 16 + hex_digit c) 0 h"

text \<open>The UTF-8 encoding of a rune, and the length of a well-formed sequence at the front.\<close>

definition encode_rune :: "nat \<Rightarrow> string" where
  "encode_rune r =
     (if r < 128 then [char_of r]
      else if r < 2048 then [char_of (192 + r div 64), char_of (128 + r mod 64)]
      else if r < 65536 then
        [char_of (224 + r div 4096), char_of (128 + r div 64 mod 64), char_of (128 + r mod 64)]
      else [char_of (240 + r div 262144), char_of (128 + r div 4096 mod 64),
            char_of (128 + r div 64 mod 64), char_of (128 + r mod 64)])"

definition cont :: "nat \<Rightarrow> nat \<Rightarrow> char \<Rightarrow> bool" where
  "cont lo hi c \<longleftrightarrow> lo \<le> code c \<and> code c \<le> hi"

definition rune_length :: "string \<Rightarrow> nat" where
  "rune_length s =
     (case s of
        [] \<Rightarrow> 0
      | a # _ \<Rightarrow>
          if code a < 128 then 1
          else if cont 194 223 a then
            (case s of _ # b # _ \<Rightarrow> if cont 128 191 b then 2 else 0 | _ \<Rightarrow> 0)
          else if cont 224 239 a then
            (case s of
               _ # b # c # _ \<Rightarrow>
                 if cont (if code a = 224 then 160 else 128) (if code a = 237 then 159 else 191) b
                    \<and> cont 128 191 c then 3 else 0
             | _ \<Rightarrow> 0)
          else if cont 240 244 a then
            (case s of
               _ # b # c # d # _ \<Rightarrow>
                 if cont (if code a = 240 then 144 else 128) (if code a = 244 then 143 else 191) b
                    \<and> cont 128 191 c \<and> cont 128 191 d then 4 else 0
             | _ \<Rightarrow> 0)
          else 0)"

definition replacement :: nat where "replacement = 65533"

definition simple_escape :: "char \<Rightarrow> char" where
  "simple_escape e =
     (if e = CHR ''b'' then CHR 0x08 else if e = CHR ''f'' then CHR 0x0C
      else if e = CHR ''n'' then CHR 0x0A else if e = CHR ''r'' then CHR 0x0D
      else if e = CHR ''t'' then CHR 0x09 else e)"

text \<open>A second escape \<open>\u\<close> that completes a surrogate pair with \<open>hi\<close>.\<close>

definition low_surrogate :: "string \<Rightarrow> nat option" where
  "low_surrogate s =
     (case s of
        a # b # h1 # h2 # h3 # h4 # _ \<Rightarrow>
          if a = CHR 0x5C \<and> b = CHR ''u'' \<and> list_all isHex [h1, h2, h3, h4]
             \<and> 56320 \<le> hex_val [h1, h2, h3, h4] \<and> hex_val [h1, h2, h3, h4] < 57344
          then Some (hex_val [h1, h2, h3, h4]) else None
      | _ \<Rightarrow> None)"

function unquote :: "string \<Rightarrow> string" where
  "unquote s =
     (case s of
        [] \<Rightarrow> []
      | c # r \<Rightarrow>
          if c = CHR 0x5C then
            (case r of
               [] \<Rightarrow> []
             | e # r' \<Rightarrow>
                 if e = CHR ''u'' then
                   let x = hex_val (take 4 r'); r'' = drop 4 r'
                   in if 55296 \<le> x \<and> x < 57344 then
                        (case (if x < 56320 then low_surrogate r'' else None) of
                           Some y \<Rightarrow>
                             encode_rune ((x - 55296) * 1024 + (y - 56320) + 65536) @ unquote (drop 6 r'')
                         | None \<Rightarrow> encode_rune replacement @ unquote r'')
                      else encode_rune x @ unquote r''
                 else simple_escape e # unquote r')
          else if rune_length s = 0 then encode_rune replacement @ unquote r
          else take (rune_length s) s @ unquote (drop (rune_length s) s))"
  by pat_completeness auto
termination
  by (relation "measure length") (auto simp: Let_def)

declare unquote.simps [simp del]

subsection \<open>Numbers and words\<close>

text \<open>\<open>digits1\<close>: one digit at least; \<open>ctx\<close> is the context of the error otherwise.\<close>

definition digits1 :: "string \<Rightarrow> string \<Rightarrow> json_error + string \<times> string" where
  "digits1 ctx s =
     (case s of
        [] \<Rightarrow> Inl UnexpectedEOF
      | c # r \<Rightarrow> if isDigit c then Inr (takeWhile isDigit s, dropWhile isDigit s) else Inl (InvalidChar c ctx))"

definition scan_int :: "string \<Rightarrow> json_error + string \<times> string" where
  "scan_int s =
     (case s of
        [] \<Rightarrow> Inl UnexpectedEOF
      | c # r \<Rightarrow> if c = CHR ''0'' then Inr ([c], r) else digits1 ''in numeric literal'' s)"

definition scan_frac :: "string \<Rightarrow> json_error + string \<times> string" where
  "scan_frac s =
     (case s of
        [] \<Rightarrow> Inr ([], s)
      | c # r \<Rightarrow>
          if c = CHR ''.'' then
            (case digits1 ''after decimal point in numeric literal'' r of
               Inl e \<Rightarrow> Inl e | Inr (d, z) \<Rightarrow> Inr (c # d, z))
          else Inr ([], s))"

definition scan_exp :: "string \<Rightarrow> json_error + string \<times> string" where
  "scan_exp s =
     (case s of
        [] \<Rightarrow> Inr ([], s)
      | c # r \<Rightarrow>
          if c = CHR ''e'' \<or> c = CHR ''E'' then
            (let (sg, r') = (case r of [] \<Rightarrow> ([], r)
                             | g # z \<Rightarrow> if g = CHR ''+'' \<or> g = CHR ''-'' then ([g], z) else ([], r))
             in case digits1 ''in exponent of numeric literal'' r' of
                  Inl e \<Rightarrow> Inl e | Inr (d, z) \<Rightarrow> Inr (c # sg @ d, z))
          else Inr ([], s))"

definition scan_number :: "string \<Rightarrow> json_error + string \<times> string" where
  "scan_number s =
     (let (sg, r) = (case s of [] \<Rightarrow> ([], s) | c # z \<Rightarrow> if c = CHR ''-'' then ([c], z) else ([], s))
      in case scan_int r of
           Inl e \<Rightarrow> Inl e
         | Inr (i, r) \<Rightarrow>
             (case scan_frac r of
                Inl e \<Rightarrow> Inl e
              | Inr (f, r) \<Rightarrow>
                  (case scan_exp r of Inl e \<Rightarrow> Inl e | Inr (x, r) \<Rightarrow> Inr (sg @ i @ f @ x, r))))"

text \<open>The rest of the word \<open>name\<close>.\<close>

fun scan_word :: "string \<Rightarrow> string \<Rightarrow> string \<Rightarrow> json_error + string" where
  "scan_word name [] s = Inr s"
| "scan_word name (w # u) [] = Inl UnexpectedEOF"
| "scan_word name (w # u) (c # s) =
     (if c = w then scan_word name u s
      else Inl (InvalidChar c (''in literal '' @ name @ '' (expecting '' @
             [CHR 0x27, w, CHR 0x27] @ '')'')))"

datatype literal = LString string | LNumber string | LBool bool | LNull

text \<open>A literal that starts with the character \<open>c\<close>.\<close>

definition scan_literal :: "char \<Rightarrow> string \<Rightarrow> json_error + literal \<times> string" where
  "scan_literal c r =
     (if c = CHR 0x22 then
        (case scan_string r of Inl e \<Rightarrow> Inl e | Inr (t, z) \<Rightarrow> Inr (LString (unquote t), z))
      else if c = CHR ''-'' \<or> isDigit c then
        (case scan_number (c # r) of Inl e \<Rightarrow> Inl e | Inr (t, z) \<Rightarrow> Inr (LNumber t, z))
      else if c = CHR ''t'' then map_sum (\<lambda>e. e) (\<lambda>z. (LBool True, z)) (scan_word ''true'' ''rue'' r)
      else if c = CHR ''f'' then map_sum (\<lambda>e. e) (\<lambda>z. (LBool False, z)) (scan_word ''false'' ''alse'' r)
      else if c = CHR ''n'' then map_sum (\<lambda>e. e) (\<lambda>z. (LNull, z)) (scan_word ''null'' ''ull'' r)
      else Inl (InvalidChar c ''looking for beginning of value''))"

section \<open>The token stream\<close>

datatype token_state =
    TopValue | ArrayStart | ArrayValue | ArrayComma
  | ObjectStart | ObjectKey | ObjectColon | ObjectValue | ObjectComma

record Decoder =
  input :: string
  tokenState :: token_state
  tokenStack :: "token_state list"

datatype token = Delim char | Lit literal

definition NewDecoder :: "string \<Rightarrow> Decoder" where
  "NewDecoder s = \<lparr>input = s, tokenState = TopValue, tokenStack = []\<rparr>"

definition tokenValueAllowed :: "token_state \<Rightarrow> bool" where
  "tokenValueAllowed st \<longleftrightarrow> st \<in> {TopValue, ArrayStart, ArrayValue, ObjectValue}"

definition tokenValueEnd :: "token_state \<Rightarrow> token_state" where
  "tokenValueEnd st =
     (if st = ArrayStart \<or> st = ArrayValue then ArrayComma
      else if st = ObjectValue then ObjectComma else st)"

definition token_context :: "token_state \<Rightarrow> string" where
  "token_context st =
     (case st of
        TopValue \<Rightarrow> ''looking for beginning of value''
      | ArrayStart \<Rightarrow> ''looking for beginning of value''
      | ArrayValue \<Rightarrow> ''looking for beginning of value''
      | ObjectValue \<Rightarrow> ''looking for beginning of value''
      | ArrayComma \<Rightarrow> ''after array element''
      | ObjectKey \<Rightarrow> ''looking for beginning of object key string''
      | ObjectStart \<Rightarrow> []
      | ObjectColon \<Rightarrow> ''after object key''
      | ObjectComma \<Rightarrow> ''after object key:value pair'')"

lemma length_ws: "length (ws s) \<le> length s"
  by (simp add: ws_def length_dropWhile_le)

text \<open>
  \<open>Token\<close>: commas and colons move the state and are not handed out. A bracket that closes
  goes back to the state below; the stack is not empty then, because the state says so.
\<close>

function Token :: "Decoder \<Rightarrow> json_error + token \<times> Decoder" where
  "Token d =
     (let st = tokenState d
      in case ws (input d) of
        [] \<Rightarrow> Inl EOF
      | c # r \<Rightarrow>
          if c = CHR ''['' then
            if \<not> tokenValueAllowed st then Inl (InvalidChar c (token_context st))
            else Inr (Delim c, d\<lparr>input := r, tokenStack := st # tokenStack d, tokenState := ArrayStart\<rparr>)
          else if c = CHR '']'' then
            if st \<noteq> ArrayStart \<and> st \<noteq> ArrayComma then Inl (InvalidChar c (token_context st))
            else Inr (Delim c, d\<lparr>input := r, tokenStack := tl (tokenStack d),
                                 tokenState := tokenValueEnd (hd (tokenStack d))\<rparr>)
          else if c = CHR ''{'' then
            if \<not> tokenValueAllowed st then Inl (InvalidChar c (token_context st))
            else Inr (Delim c, d\<lparr>input := r, tokenStack := st # tokenStack d, tokenState := ObjectStart\<rparr>)
          else if c = CHR ''}'' then
            if st \<noteq> ObjectStart \<and> st \<noteq> ObjectComma then Inl (InvalidChar c (token_context st))
            else Inr (Delim c, d\<lparr>input := r, tokenStack := tl (tokenStack d),
                                 tokenState := tokenValueEnd (hd (tokenStack d))\<rparr>)
          else if c = CHR '':'' then
            if st \<noteq> ObjectColon then Inl (InvalidChar c (token_context st))
            else Token (d\<lparr>input := r, tokenState := ObjectValue\<rparr>)
          else if c = CHR '','' then
            if st = ArrayComma then Token (d\<lparr>input := r, tokenState := ArrayValue\<rparr>)
            else if st = ObjectComma then Token (d\<lparr>input := r, tokenState := ObjectKey\<rparr>)
            else Inl (InvalidChar c (token_context st))
          else if c = CHR 0x22 \<and> (st = ObjectStart \<or> st = ObjectKey) then
            (case scan_literal c r of
               Inl e \<Rightarrow> Inl e
             | Inr (l, z) \<Rightarrow> Inr (Lit l, d\<lparr>input := z, tokenState := ObjectColon\<rparr>))
          else if \<not> tokenValueAllowed st then Inl (InvalidChar c (token_context st))
          else
            (case scan_literal c r of
               Inl e \<Rightarrow> Inl e
             | Inr (l, z) \<Rightarrow> Inr (Lit l, d\<lparr>input := z, tokenState := tokenValueEnd st\<rparr>)))"
  by pat_completeness auto
termination
proof (relation "measure (\<lambda>d. length (input d))")
  fix d st c r
  assume "ws (input d) = c # r"
  then have "length r < length (input d)" using length_ws [of "input d"] by simp
  then show "(d\<lparr>input := r, tokenState := ObjectValue\<rparr>, d) \<in> measure (\<lambda>d. length (input d))"
    "(d\<lparr>input := r, tokenState := ArrayValue\<rparr>, d) \<in> measure (\<lambda>d. length (input d))"
    "(d\<lparr>input := r, tokenState := ObjectKey\<rparr>, d) \<in> measure (\<lambda>d. length (input d))" by simp_all
qed simp

declare Token.simps [simp del]

definition More :: "Decoder \<Rightarrow> bool" where
  "More d = (case ws (input d) of [] \<Rightarrow> False | c # r \<Rightarrow> c \<noteq> CHR '']'' \<and> c \<noteq> CHR ''}'')"

section \<open>The grammar\<close>

datatype json =
    JLit literal
  | JArray "json list"
  | JObject "(string \<times> json) list"

text \<open>
  A value at the front of the text. The loops of arrays and objects take the state in which
  the token stream would be: at the start, or behind an element. Each call spends one unit
  of fuel; \<open>2 * length s + 2\<close> units are enough (\<open>parse_value_fuel\<close>).
\<close>

fun parse_value :: "nat \<Rightarrow> string \<Rightarrow> (json \<times> string) option"
  and parse_array :: "nat \<Rightarrow> bool \<Rightarrow> string \<Rightarrow> (json list \<times> string) option"
  and parse_object :: "nat \<Rightarrow> bool \<Rightarrow> string \<Rightarrow> ((string \<times> json) list \<times> string) option"
where
  "parse_value 0 s = None"
| "parse_value (Suc k) s =
     (case ws s of
        [] \<Rightarrow> None
      | c # r \<Rightarrow>
          if c = CHR ''['' then map_option (\<lambda>(vs, z). (JArray vs, z)) (parse_array k True r)
          else if c = CHR ''{'' then map_option (\<lambda>(ms, z). (JObject ms, z)) (parse_object k True r)
          else case scan_literal c r of Inl _ \<Rightarrow> None | Inr (l, z) \<Rightarrow> Some (JLit l, z))"
| "parse_array 0 first s = None"
| "parse_array (Suc k) first s =
     (case ws s of
        [] \<Rightarrow> None
      | c # r \<Rightarrow>
          if c = CHR '']'' then Some ([], r)
          else if \<not> first \<and> c \<noteq> CHR '','' then None
          else case parse_value k (if first then c # r else r) of
                 None \<Rightarrow> None
               | Some (v, z) \<Rightarrow> map_option (\<lambda>(vs, z). (v # vs, z)) (parse_array k False z))"
| "parse_object 0 first s = None"
| "parse_object (Suc k) first s =
     (case ws s of
        [] \<Rightarrow> None
      | c # r \<Rightarrow>
          if c = CHR ''}'' then Some ([], r)
          else if \<not> first \<and> c \<noteq> CHR '','' then None
          else case (if first then c # r else ws r) of
                 [] \<Rightarrow> None
               | q # r \<Rightarrow>
                   if q \<noteq> CHR 0x22 then None
                   else case scan_string r of
                          Inl _ \<Rightarrow> None
                        | Inr (t, z) \<Rightarrow>
                            (case ws z of
                               [] \<Rightarrow> None
                             | e # z \<Rightarrow>
                                 if e \<noteq> CHR '':'' then None
                                 else case parse_value k z of
                                        None \<Rightarrow> None
                                      | Some (v, z) \<Rightarrow>
                                          map_option (\<lambda>(ms, z). ((unquote t, v) # ms, z))
                                            (parse_object k False z)))"

definition fuel :: "string \<Rightarrow> nat" where
  "fuel s = 2 * length s + 2"

text \<open>A text that is one value and nothing else.\<close>

definition parse_json :: "string \<Rightarrow> json option" where
  "parse_json s =
     (case parse_value (fuel s) s of
        None \<Rightarrow> None
      | Some (v, r) \<Rightarrow> if ws r = [] then Some v else None)"

end
