(* ===== verification/Json_Structure.thy ===== *)
theory Json_Structure
  imports Json
begin

text \<open>
  The first pass over a request body (internal/httpapi/score.go, \<open>validateJSONStructure\<close> and
  the functions below it): it walks the token stream, rejects duplicate keys at every level
  and unknown names at the top, and accepts one value only. \<open>quote\<close> is the quoting of the
  verb \<open>%q\<close>. The functions call each other without a bound; here each call spends a unit of
  fuel, and the fuel given at the start is never used up (\<open>structure_terminates\<close>).
\<close>

section \<open>The walk\<close>

datatype consume_error = Decode json_error | Problem string | OutOfFuel

definition allowedTopLevelFields :: "string list" where
  "allowedTopLevelFields = [''transaction_id'', ''features'']"

fun consumeJSONValue :: "(string \<Rightarrow> string) \<Rightarrow> nat \<Rightarrow> bool \<Rightarrow> Decoder \<Rightarrow> consume_error + Decoder"
  and consumeJSONObject ::
    "(string \<Rightarrow> string) \<Rightarrow> nat \<Rightarrow> bool \<Rightarrow> string list \<Rightarrow> Decoder \<Rightarrow> consume_error + Decoder"
  and consumeJSONArray :: "(string \<Rightarrow> string) \<Rightarrow> nat \<Rightarrow> Decoder \<Rightarrow> consume_error + Decoder"
where
  "consumeJSONValue quote 0 topLevel dec = Inl OutOfFuel"
| "consumeJSONValue quote (Suc k) topLevel dec =
     (case Token dec of
        Inl e \<Rightarrow> Inl (Decode e)
      | Inr (Delim c, dec) \<Rightarrow>
          if c = CHR ''{'' then consumeJSONObject quote k topLevel [] dec
          else if c = CHR ''['' then
            if topLevel then Inl (Problem ''request body must contain a JSON object'')
            else consumeJSONArray quote k dec
          else Inl (Problem (''unexpected JSON delimiter '' @ quote [c]))
      | Inr (Lit l, dec) \<Rightarrow> Inr dec)"
| "consumeJSONObject quote 0 topLevel seen dec = Inl OutOfFuel"
| "consumeJSONObject quote (Suc k) topLevel seen dec =
     (if More dec then
        (case Token dec of
           Inl e \<Rightarrow> Inl (Decode e)
         | Inr (Lit (LString key), dec) \<Rightarrow>
             if key \<in> set seen then Inl (Problem (''duplicate JSON field '' @ quote key))
             else if topLevel \<and> key \<notin> set allowedTopLevelFields
               then Inl (Problem (''unknown top-level field '' @ quote key))
             else (case consumeJSONValue quote k False dec of
                     Inl e \<Rightarrow> Inl e
                   | Inr dec \<Rightarrow> consumeJSONObject quote k topLevel (key # seen) dec)
         | Inr (_, dec) \<Rightarrow> Inl (Problem ''invalid JSON object key''))
      else
        (case Token dec of
           Inl e \<Rightarrow> Inl (Decode e)
         | Inr (token, dec) \<Rightarrow>
             if token \<noteq> Delim (CHR ''}'') then Inl (Problem ''invalid JSON object'') else Inr dec))"
| "consumeJSONArray quote 0 dec = Inl OutOfFuel"
| "consumeJSONArray quote (Suc k) dec =
     (if More dec then
        (case consumeJSONValue quote k False dec of
           Inl e \<Rightarrow> Inl e
         | Inr dec \<Rightarrow> consumeJSONArray quote k dec)
      else
        (case Token dec of
           Inl e \<Rightarrow> Inl (Decode e)
         | Inr (token, dec) \<Rightarrow>
             if token \<noteq> Delim (CHR '']'') then Inl (Problem ''invalid JSON array'') else Inr dec))"

text \<open>The texts of the decoder's errors.\<close>

definition quoteChar :: "(string \<Rightarrow> string) \<Rightarrow> char \<Rightarrow> string" where
  "quoteChar quote c =
     (if c = CHR 0x27 then [CHR 0x27, CHR 0x5C, CHR 0x27, CHR 0x27]
      else if c = CHR 0x22 then [CHR 0x27, CHR 0x22, CHR 0x27]
      else [CHR 0x27] @ butlast (tl (quote (encode_rune (code c)))) @ [CHR 0x27])"

fun error_text :: "(string \<Rightarrow> string) \<Rightarrow> json_error \<Rightarrow> string" where
  "error_text quote EOF = ''EOF''"
| "error_text quote UnexpectedEOF = ''unexpected EOF''"
| "error_text quote (InvalidChar c ctx) =
     ''invalid character '' @ quoteChar quote c @ (if ctx = [] then [] else CHR '' '' # ctx)"

text \<open>
  \<open>None\<close> is no error. The last token must be the end of the text: a further token, or text
  that is no token, is refused.
\<close>

definition validateJSONStructure :: "(string \<Rightarrow> string) \<Rightarrow> string \<Rightarrow> go_error" where
  "validateJSONStructure quote data =
     (if ws data = [] then Some ''request body is empty''
      else case consumeJSONValue quote (fuel data) True (NewDecoder data) of
        Inl (Decode EOF) \<Rightarrow> Some ''invalid JSON: unexpected end of input''
      | Inl (Decode e) \<Rightarrow> Some (''invalid JSON: '' @ error_text quote e)
      | Inl (Problem e) \<Rightarrow> Some (''invalid JSON: '' @ e)
      | Inl OutOfFuel \<Rightarrow> Some ''out of fuel''
      | Inr dec \<Rightarrow>
          (case Token dec of
             Inl EOF \<Rightarrow> None
           | Inl e \<Rightarrow> Some (''invalid trailing JSON: '' @ error_text quote e)
           | Inr _ \<Rightarrow> Some ''request body must contain exactly one JSON object''))"

section \<open>The walk and the grammar\<close>

fun unique_keys :: "json \<Rightarrow> bool" where
  "unique_keys (JLit l) = True"
| "unique_keys (JArray vs) = list_all unique_keys vs"
| "unique_keys (JObject ms) = (distinct (map fst ms) \<and> list_all (\<lambda>(k, v). unique_keys v) ms)"

definition top_ok :: "json \<Rightarrow> bool" where
  "top_ok v = (case v of
     JLit l \<Rightarrow> True | JArray vs \<Rightarrow> False | JObject ms \<Rightarrow> fst ` set ms \<subseteq> set allowedTopLevelFields)"

lemma ws_idem [simp]: "ws (ws s) = ws s"
  by (induction s) (simp_all add: ws_def)

lemma ws_token: "\<not> isSpace c \<Longrightarrow> ws (c # r) = c # r"
  by (simp add: ws_def)

lemma scan_literal_punctuation [simp]:
  "scan_literal (CHR '']'') r = Inl (InvalidChar (CHR '']'') ''looking for beginning of value'')"
  "scan_literal (CHR ''}'') r = Inl (InvalidChar (CHR ''}'') ''looking for beginning of value'')"
  "scan_literal (CHR '':'') r = Inl (InvalidChar (CHR '':'') ''looking for beginning of value'')"
  "scan_literal (CHR '','') r = Inl (InvalidChar (CHR '','') ''looking for beginning of value'')"
  by (simp_all add: scan_literal_def isDigit_def code_def)

lemma Token_allowed:
  assumes "tokenValueAllowed (tokenState d)" "ws (input d) = c # r" "c = CHR '']'' \<longrightarrow> tokenState d \<noteq> ArrayStart"
  shows "c = CHR ''['' \<Longrightarrow>
      Token d = Inr (Delim c, d\<lparr>input := r, tokenStack := tokenState d # tokenStack d, tokenState := ArrayStart\<rparr>)"
    and "c = CHR ''{'' \<Longrightarrow>
      Token d = Inr (Delim c, d\<lparr>input := r, tokenStack := tokenState d # tokenStack d, tokenState := ObjectStart\<rparr>)"
    and "c \<noteq> CHR ''['' \<Longrightarrow> c \<noteq> CHR ''{'' \<Longrightarrow> scan_literal c r = Inr (l, z) \<Longrightarrow>
      Token d = Inr (Lit l, d\<lparr>input := z, tokenState := tokenValueEnd (tokenState d)\<rparr>)"
    and "c \<noteq> CHR ''['' \<Longrightarrow> c \<noteq> CHR ''{'' \<Longrightarrow> scan_literal c r = Inl e \<Longrightarrow> \<exists>e. Token d = Inl e"
proof -
  note t = Token.simps [of d] and a = assms(1)
  have st: "tokenState d \<noteq> ObjectStart" "tokenState d \<noteq> ObjectComma" "tokenState d \<noteq> ObjectColon"
    "tokenState d \<noteq> ArrayComma" "tokenState d \<noteq> ObjectKey"
    using a by (auto simp: tokenValueAllowed_def)
  show "c = CHR ''['' \<Longrightarrow>
      Token d = Inr (Delim c, d\<lparr>input := r, tokenStack := tokenState d # tokenStack d, tokenState := ArrayStart\<rparr>)"
    "c = CHR ''{'' \<Longrightarrow>
      Token d = Inr (Delim c, d\<lparr>input := r, tokenStack := tokenState d # tokenStack d, tokenState := ObjectStart\<rparr>)"
    using a assms(2) by (simp_all add: t)
  show "Token d = Inr (Lit l, d\<lparr>input := z, tokenState := tokenValueEnd (tokenState d)\<rparr>)"
    if "c \<noteq> CHR ''[''" "c \<noteq> CHR ''{''" "scan_literal c r = Inr (l, z)"
  proof -
    have "c \<noteq> CHR '']''" "c \<noteq> CHR ''}''" "c \<noteq> CHR '':''" "c \<noteq> CHR '',''"
      using that(3) by auto
    then show ?thesis using a st assms(2) that by (simp add: t)
  qed
  show "\<exists>e. Token d = Inl e"
    if "c \<noteq> CHR ''[''" "c \<noteq> CHR ''{''" "scan_literal c r = Inl e"
    using a st assms(2,3) that by (simp add: t Let_def)
qed

lemma Token_empty: "ws (input d) = [] \<Longrightarrow> Token d = Inl EOF"
  by (simp add: Token.simps [of d])

text \<open>Where the next value starts, behind a comma or a colon, and the states around it.\<close>

definition value_start :: "token_state \<Rightarrow> string \<Rightarrow> string option" where
  "value_start st s =
     (if st = ArrayComma \<or> st = ObjectColon
      then (case ws s of
              [] \<Rightarrow> None
            | c # r \<Rightarrow> if c = (if st = ArrayComma then CHR '','' else CHR '':'') then Some r else None)
      else Some s)"

definition value_state :: "token_state \<Rightarrow> token_state" where
  "value_state st = (if st = ArrayComma then ArrayValue else if st = ObjectColon then ObjectValue else st)"

lemma Token_skip:
  assumes "tokenState d \<in> {ArrayComma, ObjectColon}" "value_start (tokenState d) (input d) = Some s"
  shows "Token d = Token (d\<lparr>input := s, tokenState := value_state (tokenState d)\<rparr>)"
  using assms
  by (auto simp: Token.simps [of d] value_start_def value_state_def split: list.splits if_splits)

lemma Token_no_skip:
  assumes "tokenState d \<in> {ArrayComma, ObjectColon}" "value_start (tokenState d) (input d) = None"
    and "More d"
  shows "\<exists>e. Token d = Inl e"
  using assms
  by (auto simp: Token.simps [of d] value_start_def More_def tokenValueAllowed_def split: list.splits if_splits)

lemma Token_close:
  assumes "\<not> More d" "tokenStack d = s0 # ss"
  shows "tokenState d \<in> {ArrayStart, ArrayComma} \<Longrightarrow>
      (case ws (input d) of [] \<Rightarrow> \<exists>e. Token d = Inl e
       | c # r \<Rightarrow> if c = CHR '']''
                 then Token d = Inr (Delim c, \<lparr>input = r, tokenState = tokenValueEnd s0, tokenStack = ss\<rparr>)
                 else \<exists>e. Token d = Inl e)"
    and "tokenState d \<in> {ObjectStart, ObjectComma} \<Longrightarrow>
      (case ws (input d) of [] \<Rightarrow> \<exists>e. Token d = Inl e
       | c # r \<Rightarrow> if c = CHR ''}''
                 then Token d = Inr (Delim c, \<lparr>input = r, tokenState = tokenValueEnd s0, tokenStack = ss\<rparr>)
                 else \<exists>e. Token d = Inl e)"
  using assms by (auto simp: Token.simps [of d] More_def split: list.splits)

text \<open>What the three functions accept, for a given amount of fuel.\<close>

definition value_spec :: "(string \<Rightarrow> string) \<Rightarrow> nat \<Rightarrow> bool" where
  "value_spec quote k \<longleftrightarrow> (\<forall>topLevel d d'. tokenState d \<in> {TopValue, ArrayStart, ArrayComma, ObjectColon} \<longrightarrow>
     (tokenState d \<in> {ArrayStart, ArrayComma} \<longrightarrow> More d) \<longrightarrow>
     (consumeJSONValue quote k topLevel d = Inr d' \<longleftrightarrow>
        (\<exists>s v r. value_start (tokenState d) (input d) = Some s \<and> parse_value k s = Some (v, r) \<and>
           unique_keys v \<and> (topLevel \<longrightarrow> top_ok v) \<and>
           d' = d\<lparr>input := r, tokenState := tokenValueEnd (value_state (tokenState d))\<rparr>)))"

definition array_spec :: "(string \<Rightarrow> string) \<Rightarrow> nat \<Rightarrow> bool" where
  "array_spec quote k \<longleftrightarrow> (\<forall>d d' s0 ss. tokenState d \<in> {ArrayStart, ArrayComma} \<longrightarrow> tokenStack d = s0 # ss \<longrightarrow>
     (consumeJSONArray quote k d = Inr d' \<longleftrightarrow>
        (\<exists>vs r. parse_array k (tokenState d = ArrayStart) (input d) = Some (vs, r) \<and> list_all unique_keys vs \<and>
           d' = \<lparr>input = r, tokenState = tokenValueEnd s0, tokenStack = ss\<rparr>)))"

definition object_spec :: "(string \<Rightarrow> string) \<Rightarrow> nat \<Rightarrow> bool" where
  "object_spec quote k \<longleftrightarrow> (\<forall>topLevel seen d d' s0 ss. tokenState d \<in> {ObjectStart, ObjectComma} \<longrightarrow>
     tokenStack d = s0 # ss \<longrightarrow>
     (consumeJSONObject quote k topLevel seen d = Inr d' \<longleftrightarrow>
        (\<exists>ms r. parse_object k (tokenState d = ObjectStart) (input d) = Some (ms, r) \<and>
           unique_keys (JObject ms) \<and> fst ` set ms \<inter> set seen = {} \<and>
           (topLevel \<longrightarrow> fst ` set ms \<subseteq> set allowedTopLevelFields) \<and>
           d' = \<lparr>input = r, tokenState = tokenValueEnd s0, tokenStack = ss\<rparr>)))"

lemma Decoder_upd: "(d :: Decoder)\<lparr>input := s, tokenState := t\<rparr> = \<lparr>input = s, tokenState = t, tokenStack = tokenStack d\<rparr>"
  by (cases d) simp

lemma value_specD:
  assumes "value_spec quote k" "tokenState d \<in> {TopValue, ArrayStart, ArrayComma, ObjectColon}"
    and "tokenState d \<in> {ArrayStart, ArrayComma} \<longrightarrow> More d"
  shows "consumeJSONValue quote k topLevel d = Inr d' \<longleftrightarrow>
    (\<exists>s v r. value_start (tokenState d) (input d) = Some s \<and> parse_value k s = Some (v, r) \<and>
       unique_keys v \<and> (topLevel \<longrightarrow> top_ok v) \<and>
       d' = d\<lparr>input := r, tokenState := tokenValueEnd (value_state (tokenState d))\<rparr>)"
  by (rule assms(1) [unfolded value_spec_def, rule_format, OF assms(2) assms(3) [rule_format]])

lemma array_specD:
  assumes "array_spec quote k" "tokenState d \<in> {ArrayStart, ArrayComma}" "tokenStack d = s0 # ss"
  shows "consumeJSONArray quote k d = Inr d' \<longleftrightarrow>
    (\<exists>vs r. parse_array k (tokenState d = ArrayStart) (input d) = Some (vs, r) \<and> list_all unique_keys vs \<and>
       d' = \<lparr>input = r, tokenState = tokenValueEnd s0, tokenStack = ss\<rparr>)"
  by (rule assms(1) [unfolded array_spec_def, rule_format, OF assms(2,3)])

lemma object_specD:
  assumes "object_spec quote k" "tokenState d \<in> {ObjectStart, ObjectComma}" "tokenStack d = s0 # ss"
  shows "consumeJSONObject quote k topLevel seen d = Inr d' \<longleftrightarrow>
    (\<exists>ms r. parse_object k (tokenState d = ObjectStart) (input d) = Some (ms, r) \<and>
       unique_keys (JObject ms) \<and> fst ` set ms \<inter> set seen = {} \<and>
       (topLevel \<longrightarrow> fst ` set ms \<subseteq> set allowedTopLevelFields) \<and>
       d' = \<lparr>input = r, tokenState = tokenValueEnd s0, tokenStack = ss\<rparr>)"
  by (rule assms(1) [unfolded object_spec_def, rule_format, OF assms(2,3)])

lemma consume_value_allowed:
  assumes "array_spec quote k" "object_spec quote k" "tokenValueAllowed (tokenState d)"
    and "tokenState d = ArrayStart \<Longrightarrow> More d"
  shows "consumeJSONValue quote (Suc k) topLevel d = Inr d' \<longleftrightarrow>
    (\<exists>v r. parse_value (Suc k) (input d) = Some (v, r) \<and> unique_keys v \<and> (topLevel \<longrightarrow> top_ok v) \<and>
       d' = d\<lparr>input := r, tokenState := tokenValueEnd (tokenState d)\<rparr>)"
proof (cases "ws (input d)")
  case Nil
  then show ?thesis by (simp add: Token_empty)
next
  case (Cons c r)
  have cl: "c = CHR '']'' \<longrightarrow> tokenState d \<noteq> ArrayStart"
    using assms(4) Cons by (auto simp: More_def)
  note tok = Token_allowed [OF assms(3) Cons cl]
  consider (arr) "c = CHR ''[''" | (obj) "c = CHR ''{''" | (lit) "c \<noteq> CHR ''[''" "c \<noteq> CHR ''{''" by blast
  then show ?thesis
  proof cases
    case arr
    let ?d = "d\<lparr>input := r, tokenStack := tokenState d # tokenStack d, tokenState := ArrayStart\<rparr>"
    have a: "consumeJSONArray quote k ?d = Inr d' \<longleftrightarrow>
        (\<exists>vs z. parse_array k True r = Some (vs, z) \<and> list_all unique_keys vs \<and>
           d' = d\<lparr>input := z, tokenState := tokenValueEnd (tokenState d)\<rparr>)"
      using array_specD [OF assms(1), of ?d "tokenState d" "tokenStack d" d'] by (simp add: Decoder_upd)
    have c: "consumeJSONValue quote (Suc k) topLevel d =
        (if topLevel then Inl (Problem ''request body must contain a JSON object'')
         else consumeJSONArray quote k ?d)"
      using tok(1) [OF arr] arr by simp
    have p: "parse_value (Suc k) (input d) = map_option (\<lambda>(vs, z). (JArray vs, z)) (parse_array k True r)"
      using Cons arr by simp
    show ?thesis
    proof (cases topLevel)
      case False
      then show ?thesis unfolding c p if_not_P [OF False] a by (auto simp: split_def)
    next
      case True
      then show ?thesis unfolding c p if_P [OF True] by (auto simp: top_ok_def)
    qed
  next
    case obj
    let ?d = "d\<lparr>input := r, tokenStack := tokenState d # tokenStack d, tokenState := ObjectStart\<rparr>"
    have o: "consumeJSONObject quote k topLevel [] ?d = Inr d' \<longleftrightarrow>
        (\<exists>ms z. parse_object k True r = Some (ms, z) \<and> unique_keys (JObject ms) \<and>
           (topLevel \<longrightarrow> fst ` set ms \<subseteq> set allowedTopLevelFields) \<and>
           d' = d\<lparr>input := z, tokenState := tokenValueEnd (tokenState d)\<rparr>)"
      using object_specD [OF assms(2), of ?d "tokenState d" "tokenStack d" topLevel "[]" d'] by (simp add: Decoder_upd)
    have c: "consumeJSONValue quote (Suc k) topLevel d = consumeJSONObject quote k topLevel [] ?d"
      using tok(2) [OF obj] obj by simp
    have p: "parse_value (Suc k) (input d) = map_option (\<lambda>(ms, z). (JObject ms, z)) (parse_object k True r)"
      using Cons obj by simp
    show ?thesis unfolding c p o by (auto simp: top_ok_def split_def simp del: unique_keys.simps)
  next
    case lit
    show ?thesis
    proof (cases "scan_literal c r")
      case (Inl e)
      then obtain e' where "Token d = Inl e'" using tok(4) [OF lit] by blast
      then show ?thesis using lit Cons Inl by simp
    next
      case (Inr x)
      obtain l z where x: "x = (l, z)" by (cases x)
      show ?thesis using tok(3) [OF lit Inr [unfolded x]] lit Cons Inr x by (auto simp: top_ok_def)
    qed
  qed
qed

lemma consume_value_step:
  assumes "array_spec quote k" "object_spec quote k"
  shows "value_spec quote (Suc k)"
  unfolding value_spec_def
proof (intro allI impI)
  fix topLevel and d d' :: Decoder
  assume st: "tokenState d \<in> {TopValue, ArrayStart, ArrayComma, ObjectColon}"
    and more: "tokenState d \<in> {ArrayStart, ArrayComma} \<longrightarrow> More d"
  show "consumeJSONValue quote (Suc k) topLevel d = Inr d' \<longleftrightarrow>
        (\<exists>s v r. value_start (tokenState d) (input d) = Some s \<and> parse_value (Suc k) s = Some (v, r) \<and>
           unique_keys v \<and> (topLevel \<longrightarrow> top_ok v) \<and>
           d' = d\<lparr>input := r, tokenState := tokenValueEnd (value_state (tokenState d))\<rparr>)"
  proof (cases "tokenState d \<in> {ArrayComma, ObjectColon}")
    case False
    then have "tokenValueAllowed (tokenState d)" "value_start (tokenState d) (input d) = Some (input d)"
      "value_state (tokenState d) = tokenState d"
      using st by (auto simp: tokenValueAllowed_def value_start_def value_state_def)
    then show ?thesis
      using consume_value_allowed [where d = d and topLevel = topLevel and d' = d', OF assms] more by simp
  next
    case True
    show ?thesis
    proof (cases "value_start (tokenState d) (input d)")
      case None
      have "\<exists>e. Token d = Inl e"
      proof (cases "More d")
        case True
        then show ?thesis using Token_no_skip \<open>tokenState d \<in> {ArrayComma, ObjectColon}\<close> None by blast
      next
        case False
        then have "tokenState d = ObjectColon" using more True by auto
        then show ?thesis
          using False by (auto simp: Token.simps [of d] More_def split: list.splits)
      qed
      then show ?thesis using None by auto
    next
      case (Some s)
      let ?d = "d\<lparr>input := s, tokenState := value_state (tokenState d)\<rparr>"
      have "consumeJSONValue quote (Suc k) topLevel d = consumeJSONValue quote (Suc k) topLevel ?d"
        using Token_skip [OF True Some] by simp
      moreover have "tokenValueAllowed (tokenState ?d)" "tokenState ?d \<noteq> ArrayStart"
        using True by (auto simp: tokenValueAllowed_def value_state_def)
      ultimately show ?thesis
        using consume_value_allowed [where d = ?d and topLevel = topLevel and d' = d', OF assms] Some by simp
    qed
  qed
qed

lemma array_step:
  assumes "value_spec quote k" "array_spec quote k"
  shows "array_spec quote (Suc k)"
  unfolding array_spec_def
proof (intro allI impI)
  fix d d' :: Decoder and s0 ss
  assume st: "tokenState d \<in> {ArrayStart, ArrayComma}" and stack: "tokenStack d = s0 # ss"
  show "consumeJSONArray quote (Suc k) d = Inr d' \<longleftrightarrow>
        (\<exists>vs r. parse_array (Suc k) (tokenState d = ArrayStart) (input d) = Some (vs, r) \<and>
           list_all unique_keys vs \<and> d' = \<lparr>input = r, tokenState = tokenValueEnd s0, tokenStack = ss\<rparr>)"
  proof (cases "More d")
    case False
    have "scan_literal (CHR ''}'') r = Inl (InvalidChar (CHR ''}'') ''looking for beginning of value'')" for r by simp
    then have "parse_value k (CHR ''}'' # r) = None" for r
      by (cases k) (simp_all add: ws_token isSpace_def)
    then show ?thesis
      using False Token_close(1) [OF False stack st]
      by (cases "ws (input d)") (auto simp: More_def split: if_splits)
  next
    case True
    then obtain c r where c: "ws (input d) = c # r" "c \<noteq> CHR '']''" "c \<noteq> CHR ''}''"
      by (auto simp: More_def split: list.splits)
    have ev: "tokenValueEnd (value_state (tokenState d)) = ArrayComma"
      using st by (auto simp: value_state_def tokenValueEnd_def)
    let ?s = "value_start (tokenState d) (input d)"
    have pa: "parse_array (Suc k) (tokenState d = ArrayStart) (input d) =
        (case ?s of None \<Rightarrow> None
         | Some s \<Rightarrow> (case parse_value k s of None \<Rightarrow> None
             | Some (v, z) \<Rightarrow> map_option (\<lambda>(vs, z). (v # vs, z)) (parse_array k False z)))"
    proof (cases "tokenState d = ArrayStart")
      case True
      have "parse_value k (c # r) = parse_value k (input d)"
        using ws_idem [of "input d"] by (cases k) (simp_all add: c(1))
      then show ?thesis using True c by (simp add: value_start_def)
    next
      case False
      then show ?thesis using st c by (auto simp: value_start_def)
    qed
    have v: "consumeJSONValue quote k False d = Inr x \<longleftrightarrow>
        (\<exists>s v r. ?s = Some s \<and> parse_value k s = Some (v, r) \<and> unique_keys v \<and>
           x = d\<lparr>input := r, tokenState := ArrayComma\<rparr>)" for x
      using value_specD [OF assms(1), of d False x] st True ev by auto
    have a: "consumeJSONArray quote k (d\<lparr>input := z, tokenState := ArrayComma\<rparr>) = Inr d' \<longleftrightarrow>
        (\<exists>vs r. parse_array k False z = Some (vs, r) \<and> list_all unique_keys vs \<and>
           d' = \<lparr>input = r, tokenState = tokenValueEnd s0, tokenStack = ss\<rparr>)" for z
      using array_specD [OF assms(2), of "d\<lparr>input := z, tokenState := ArrayComma\<rparr>" s0 ss d'] stack by simp
    have "consumeJSONArray quote (Suc k) d = Inr d' \<longleftrightarrow>
        (\<exists>x. consumeJSONValue quote k False d = Inr x \<and> consumeJSONArray quote k x = Inr d')"
      using True by (auto split: sum.splits)
    also have "\<dots> \<longleftrightarrow> (\<exists>s v z. ?s = Some s \<and> parse_value k s = Some (v, z) \<and> unique_keys v \<and>
        consumeJSONArray quote k (d\<lparr>input := z, tokenState := ArrayComma\<rparr>) = Inr d')"
      unfolding v by blast
    also have "\<dots> \<longleftrightarrow> (\<exists>vs r. parse_array (Suc k) (tokenState d = ArrayStart) (input d) = Some (vs, r) \<and>
        list_all unique_keys vs \<and> d' = \<lparr>input = r, tokenState = tokenValueEnd s0, tokenStack = ss\<rparr>)"
      unfolding a pa by (cases ?s) (auto split: option.splits)
    finally show ?thesis .
  qed
qed

text \<open>The key at the front of an object's next member, and the text behind it.\<close>

definition next_key :: "bool \<Rightarrow> string \<Rightarrow> (string \<times> string) option" where
  "next_key first s =
     (case ws s of
        [] \<Rightarrow> None
      | c # r \<Rightarrow>
          if \<not> first \<and> c \<noteq> CHR '','' then None
          else case (if first then c # r else ws r) of
                 [] \<Rightarrow> None
               | q # r \<Rightarrow>
                   if q \<noteq> CHR 0x22 then None
                   else case scan_string r of Inl _ \<Rightarrow> None | Inr (t, z) \<Rightarrow> Some (unquote t, z))"

lemma parse_object_key:
  assumes "ws s = c # r" "c \<noteq> CHR ''}''"
  shows "parse_object (Suc k) first s =
    (case next_key first s of
       None \<Rightarrow> None
     | Some (key, z) \<Rightarrow>
         (case value_start ObjectColon z of
            None \<Rightarrow> None
          | Some z \<Rightarrow>
              (case parse_value k z of
                 None \<Rightarrow> None
               | Some (v, z) \<Rightarrow> map_option (\<lambda>(ms, z). ((key, v) # ms, z)) (parse_object k False z))))"
  using assms by (simp add: next_key_def value_start_def split: list.splits sum.splits option.splits)

lemma Token_key:
  assumes "tokenState d \<in> {ObjectStart, ObjectComma}" "More d"
  shows "case next_key (tokenState d = ObjectStart) (input d) of
      None \<Rightarrow> \<exists>e. Token d = Inl e
    | Some (key, z) \<Rightarrow> Token d = Inr (Lit (LString key), d\<lparr>input := z, tokenState := ObjectColon\<rparr>)"
proof -
  obtain c r where c: "ws (input d) = c # r" "c \<noteq> CHR '']''" "c \<noteq> CHR ''}''"
    using assms(2) by (auto simp: More_def split: list.splits)
  have quote: "scan_literal (CHR 0x22) x =
      (case scan_string x of Inl e \<Rightarrow> Inl e | Inr (t, z) \<Rightarrow> Inr (LString (unquote t), z))" for x
    by (simp add: scan_literal_def)
  show ?thesis
  proof (cases "tokenState d = ObjectStart")
    case True
    then show ?thesis
      using c quote by (simp add: next_key_def Token.simps [of d] tokenValueAllowed_def split: sum.splits)
  next
    case False
    then have st: "tokenState d = ObjectComma" using assms(1) by simp
    show ?thesis
    proof (cases "c = CHR '',''")
      case True
      let ?d = "d\<lparr>input := r, tokenState := ObjectKey\<rparr>"
      have t: "Token d = Token ?d" using True st c by (simp add: Token.simps [of d])
      show ?thesis
        using True st c quote unfolding t
        by (cases "ws r") (simp_all add: next_key_def Token.simps [of ?d] tokenValueAllowed_def split: sum.splits)
    next
      case False
      then show ?thesis
        using st c by (simp add: next_key_def Token.simps [of d] tokenValueAllowed_def)
    qed
  qed
qed

lemma object_step:
  assumes "value_spec quote k" "object_spec quote k"
  shows "object_spec quote (Suc k)"
  unfolding object_spec_def
proof (intro allI impI)
  fix topLevel seen and d d' :: Decoder and s0 ss
  assume st: "tokenState d \<in> {ObjectStart, ObjectComma}" and stack: "tokenStack d = s0 # ss"
  let ?done = "\<lambda>r. \<lparr>input = r, tokenState = tokenValueEnd s0, tokenStack = ss\<rparr>"
  let ?ok = "\<lambda>seen ms. unique_keys (JObject ms) \<and> fst ` set ms \<inter> set seen = {} \<and>
     (topLevel \<longrightarrow> fst ` set ms \<subseteq> set allowedTopLevelFields)"
  show "consumeJSONObject quote (Suc k) topLevel seen d = Inr d' \<longleftrightarrow>
        (\<exists>ms r. parse_object (Suc k) (tokenState d = ObjectStart) (input d) = Some (ms, r) \<and>
           unique_keys (JObject ms) \<and> fst ` set ms \<inter> set seen = {} \<and>
           (topLevel \<longrightarrow> fst ` set ms \<subseteq> set allowedTopLevelFields) \<and> d' = ?done r)"
  proof (cases "More d")
    case False
    then show ?thesis
      using Token_close(2) [OF False stack st]
      by (cases "ws (input d)") (auto simp: More_def split: if_splits)
  next
    case True
    then obtain c r where c: "ws (input d) = c # r" "c \<noteq> CHR ''}''"
      by (auto simp: More_def split: list.splits)
    note po = parse_object_key [OF c, of k "tokenState d = ObjectStart"]
    note tk = Token_key [OF st True]
    show ?thesis
    proof (cases "next_key (tokenState d = ObjectStart) (input d)")
      case None
      then obtain e where "Token d = Inl e" using tk by auto
      then show ?thesis using True None po by simp
    next
      case (Some x)
      obtain key z where x: "x = (key, z)" by (cases x)
      let ?d = "d\<lparr>input := z, tokenState := ObjectColon\<rparr>"
      have t: "Token d = Inr (Lit (LString key), ?d)" using tk Some x by simp
      have v: "consumeJSONValue quote k False ?d = Inr y \<longleftrightarrow>
          (\<exists>s v r. value_start ObjectColon z = Some s \<and> parse_value k s = Some (v, r) \<and> unique_keys v \<and>
             y = d\<lparr>input := r, tokenState := ObjectComma\<rparr>)" for y
        using value_specD [OF assms(1), of ?d False y] by (simp add: value_state_def tokenValueEnd_def)
      have o: "consumeJSONObject quote k topLevel (key # seen) (d\<lparr>input := r, tokenState := ObjectComma\<rparr>) = Inr d' \<longleftrightarrow>
          (\<exists>ms z. parse_object k False r = Some (ms, z) \<and> ?ok (key # seen) ms \<and> d' = ?done z)" for r
        using object_specD [OF assms(2), of "d\<lparr>input := r, tokenState := ObjectComma\<rparr>" s0 ss topLevel "key # seen" d'] stack
        by simp
      let ?key = "key \<notin> set seen \<and> (topLevel \<longrightarrow> key \<in> set allowedTopLevelFields)"
      have "consumeJSONObject quote (Suc k) topLevel seen d = Inr d' \<longleftrightarrow> ?key \<and>
          (\<exists>y. consumeJSONValue quote k False ?d = Inr y \<and> consumeJSONObject quote k topLevel (key # seen) y = Inr d')"
        using True t by (auto split: sum.splits)
      also have "\<dots> \<longleftrightarrow> ?key \<and> (\<exists>s v r. value_start ObjectColon z = Some s \<and> parse_value k s = Some (v, r) \<and>
          unique_keys v \<and>
          consumeJSONObject quote k topLevel (key # seen) (d\<lparr>input := r, tokenState := ObjectComma\<rparr>) = Inr d')"
        unfolding v by blast
      also have "\<dots> \<longleftrightarrow> (\<exists>s v r ms w. value_start ObjectColon z = Some s \<and> parse_value k s = Some (v, r) \<and>
          parse_object k False r = Some (ms, w) \<and> ?ok seen ((key, v) # ms) \<and> d' = ?done w)"
        unfolding o by auto
      also have "\<dots> \<longleftrightarrow> (\<exists>ms r. parse_object (Suc k) (tokenState d = ObjectStart) (input d) = Some (ms, r) \<and>
          ?ok seen ms \<and> d' = ?done r)"
        unfolding po Some x
        by (auto simp: split_def simp del: unique_keys.simps split: option.splits)
      finally show ?thesis by (simp only: conj_assoc)
    qed
  qed
qed

theorem consume_specs: "value_spec quote k \<and> array_spec quote k \<and> object_spec quote k"
proof (induction k)
  case 0
  show ?case by (simp add: value_spec_def array_spec_def object_spec_def)
next
  case (Suc k)
  then show ?case using consume_value_step array_step object_step by blast
qed

section \<open>Progress\<close>

lemma scan_string_shorter: "scan_string s = Inr (t, z) \<Longrightarrow> length z < length s"
proof (induction "length s" arbitrary: s t z rule: less_induct)
  case less
  have IH: "length z' < length s" if "scan_string y = Inr (t', z')" "length y < length s" for y t' z'
    using less.hyps [OF that(2,1)] that(2) by simp
  show ?case
  proof (cases s)
    case (Cons c r)
    note u = less.prems [unfolded Cons scan_string.simps [of "c # r"]]
    show ?thesis
    proof (cases "c = CHR 0x5C")
      case True
      then obtain e r' where r: "r = e # r'" using u by (cases r) auto
      show ?thesis
        using u True r Cons IH [of r'] IH
        by (auto split: if_splits sum.splits dest!: scan_hex_shorter)
    next
      case False
      then show ?thesis using u Cons IH [of r] by (auto split: if_splits sum.splits)
    qed
  qed (use less.prems in \<open>simp add: scan_string.simps\<close>)
qed

lemma digits1_shorter: "digits1 ctx s = Inr (d, z) \<Longrightarrow> length z < length s"
  by (auto simp: digits1_def length_dropWhile_le le_imp_less_Suc split: list.splits if_splits)

lemma scan_number_shorter:
  assumes "scan_number s = Inr (t, z)"
  shows "length z < length s"
proof -
  have i: "length r' < length r" if "scan_int r = Inr (i, r')" for r i r'
    using that by (auto simp: scan_int_def split: list.splits if_splits dest!: digits1_shorter)
  have f: "length r' \<le> length r" if "scan_frac r = Inr (i, r')" for r i r'
    using that by (auto simp: scan_frac_def split: list.splits if_splits sum.splits dest!: digits1_shorter)
  have e: "length r' \<le> length r" if "scan_exp r = Inr (i, r')" for r i r'
    using that by (auto simp: scan_exp_def Let_def split: list.splits if_splits sum.splits dest!: digits1_shorter)
  show ?thesis
    using assms by (auto simp: scan_number_def Let_def split: list.splits if_splits sum.splits
        dest!: i f e)
qed

lemma scan_word_shorter: "scan_word n w s = Inr z \<Longrightarrow> length z \<le> length s"
  by (induction n w s rule: scan_word.induct) (auto split: if_splits)

lemma scan_literal_shorter:
  assumes "scan_literal c r = Inr (l, z)"
  shows "length z \<le> length r"
  using assms
  by (auto simp: scan_literal_def map_sum_def split: if_splits sum.splits
      dest!: scan_string_shorter scan_number_shorter scan_word_shorter)

lemma Token_shorter: "Token d = Inr (tok, d') \<Longrightarrow> length (input d') < length (input d)"
proof (induction "length (input d)" arbitrary: d rule: less_induct)
  case less
  show ?case
  proof (cases "ws (input d)")
    case Nil
    then show ?thesis using less.prems by (simp add: Token_empty)
  next
    case (Cons c r)
    then have r: "length r < length (input d)" using length_ws [of "input d"] by simp
    have IH: "length (input d') < length (input d)" if "Token (d\<lparr>input := r, tokenState := st\<rparr>) = Inr (tok, d')" for st
      using less.hyps [of "d\<lparr>input := r, tokenState := st\<rparr>"] that r by simp
    show ?thesis
      using less.prems Cons r
      by (auto simp: Token.simps [of d] Let_def split: if_splits sum.splits
          dest!: IH scan_literal_shorter)
  qed
qed

lemma consume_shorter:
  "(consumeJSONValue quote k topLevel d = Inr d' \<longrightarrow> length (input d') < length (input d)) \<and>
   (consumeJSONObject quote k topLevel seen d = Inr d' \<longrightarrow> length (input d') < length (input d)) \<and>
   (consumeJSONArray quote k d = Inr d' \<longrightarrow> length (input d') < length (input d))"
proof (induction k arbitrary: topLevel seen d d')
  case (Suc k)
  note IH = Suc [THEN conjunct1, rule_format] Suc [THEN conjunct2, THEN conjunct1, rule_format]
    Suc [THEN conjunct2, THEN conjunct2, rule_format]
  have v: "consumeJSONValue quote (Suc k) topLevel d = Inr d' \<longrightarrow> length (input d') < length (input d)"
  proof (cases "Token d")
    case (Inr x)
    obtain tok e where x: "x = (tok, e)" by (cases x)
    have "length (input e) < length (input d)" using Token_shorter Inr x by blast
    then show ?thesis
      using Inr x by (auto split: token.splits if_splits dest!: IH)
  qed simp
  have a: "consumeJSONArray quote (Suc k) d = Inr d' \<longrightarrow> length (input d') < length (input d)"
    using Token_shorter [of d] by (auto split: if_splits sum.splits dest!: IH)
  have o: "consumeJSONObject quote (Suc k) topLevel seen d = Inr d' \<longrightarrow> length (input d') < length (input d)"
    using Token_shorter [of d]
    by (auto split: if_splits sum.splits token.splits literal.splits dest!: IH)
  show ?case using v a o by blast
qed simp

lemma consume_has_fuel:
  "(2 * length (input d) < k \<longrightarrow> consumeJSONValue quote k topLevel d \<noteq> Inl OutOfFuel) \<and>
   (2 * length (input d) + 1 < k \<longrightarrow> consumeJSONObject quote k topLevel seen d \<noteq> Inl OutOfFuel) \<and>
   (2 * length (input d) + 1 < k \<longrightarrow> consumeJSONArray quote k d \<noteq> Inl OutOfFuel)"
proof (induction k arbitrary: topLevel seen d)
  case (Suc k)
  note IH = Suc [THEN conjunct1, rule_format] Suc [THEN conjunct2, THEN conjunct1, rule_format]
    Suc [THEN conjunct2, THEN conjunct2, rule_format]
  note vs = consume_shorter [THEN conjunct1, rule_format]
  have v: "consumeJSONValue quote (Suc k) topLevel d \<noteq> Inl OutOfFuel" if "2 * length (input d) < Suc k"
  proof (cases "Token d")
    case (Inr x)
    obtain tok e where x: "x = (tok, e)" by (cases x)
    have "length (input e) < length (input d)" using Token_shorter Inr x by blast
    then have "2 * length (input e) + 1 < k" using that by simp
    then show ?thesis using Inr x IH(2,3) [of e] by (simp split: token.split)
  qed simp
  have a: "consumeJSONArray quote (Suc k) d \<noteq> Inl OutOfFuel" if l: "2 * length (input d) + 1 < Suc k"
  proof (cases "More d")
    case True
    show ?thesis
    proof (cases "consumeJSONValue quote k False d")
      case (Inl e)
      then show ?thesis using True IH(1) [of d False] l by auto
    next
      case (Inr e)
      then have "2 * length (input e) + 1 < k" using vs [OF Inr] l by simp
      then show ?thesis using True Inr IH(3) by simp
    qed
  qed (auto split: sum.split)
  have o: "consumeJSONObject quote (Suc k) topLevel seen d \<noteq> Inl OutOfFuel" if l: "2 * length (input d) + 1 < Suc k"
  proof (cases "More d")
    case True
    show ?thesis
    proof (cases "Token d")
      case (Inr x)
      obtain tok e where x: "x = (tok, e)" by (cases x)
      have le: "length (input e) < length (input d)" using Token_shorter Inr x by blast
      show ?thesis
      proof (cases "\<exists>key. tok = Lit (LString key)")
        case True
        then obtain key where key: "tok = Lit (LString key)" by blast
        show ?thesis
        proof (cases "consumeJSONValue quote k False e")
          case (Inl y)
          then show ?thesis using \<open>More d\<close> Inr x key IH(1) [of e False] l le by auto
        next
          case (Inr f)
          then have "2 * length (input f) + 1 < k" using vs [OF Inr] l le by simp
          then show ?thesis using \<open>More d\<close> \<open>Token d = Inr x\<close> x key Inr IH(2) by simp
        qed
      next
        case False
        then show ?thesis using \<open>More d\<close> Inr x by (auto split: token.split literal.split)
      qed
    qed (use True in simp)
  qed (auto split: sum.split)
  show ?case using v a o by blast
qed simp

text \<open>The fuel of \<open>parse_json\<close> is enough: what any amount of fuel accepts, it accepts.\<close>

lemma parse_shorter:
  "(parse_value k s = Some (v, z) \<longrightarrow> length z < length s) \<and>
   (parse_array k first s = Some (vs, z) \<longrightarrow> length z < length s) \<and>
   (parse_object k first s = Some (ms, z) \<longrightarrow> length z < length s)"
proof (induction k arbitrary: s v vs ms z first)
  case (Suc k)
  note IH = Suc [THEN conjunct1, rule_format] Suc [THEN conjunct2, THEN conjunct1, rule_format]
    Suc [THEN conjunct2, THEN conjunct2, rule_format]
  have le: "length r < length s" if "ws s = c # r" for c r using length_ws [of s] that by simp
  have v: "parse_value (Suc k) s = Some (v, z) \<longrightarrow> length z < length s"
  proof (cases "ws s")
    case (Cons c r)
    then show ?thesis using le [OF Cons]
      by (auto split: if_splits sum.splits option.splits dest!: IH scan_literal_shorter)
  qed simp
  have a: "parse_array (Suc k) first s = Some (vs, z) \<longrightarrow> length z < length s"
  proof (cases "ws s")
    case (Cons c r)
    then show ?thesis using le [OF Cons]
      by (auto split: if_splits option.splits dest!: IH)
  qed simp
  have o: "parse_object (Suc k) first s = Some (ms, z) \<longrightarrow> length z < length s"
  proof (cases "ws s")
    case (Cons c r)
    have w: "length t \<le> length u" if "ws u = e # t" for u e t using length_ws [of u] that by simp
    show ?thesis using Cons le [OF Cons]
      by (auto split: if_splits option.splits list.splits sum.splits dest!: IH scan_string_shorter w)
  qed simp
  show ?case using v a o by blast
qed simp

lemma parse_fuel:
  "(parse_value k s = Some x \<longrightarrow> 2 * length s < j \<longrightarrow> parse_value j s = Some x) \<and>
   (parse_array k first s = Some y \<longrightarrow> 2 * length s + 1 < j \<longrightarrow> parse_array j first s = Some y) \<and>
   (parse_object k first s = Some w \<longrightarrow> 2 * length s + 1 < j \<longrightarrow> parse_object j first s = Some w)"
proof (induction k arbitrary: s x y w j first)
  case (Suc k)
  note IH = Suc [THEN conjunct1, rule_format] Suc [THEN conjunct2, THEN conjunct1, rule_format]
    Suc [THEN conjunct2, THEN conjunct2, rule_format]
  note sh = parse_shorter [THEN conjunct1, rule_format]
  have le: "length r < length s" if "ws s = c # r" for c r using length_ws [of s] that by simp
  have v: "parse_value j s = Some x" if p: "parse_value (Suc k) s = Some x" and l: "2 * length s < j"
  proof (cases "ws s")
    case (Cons c r)
    obtain i where j: "j = Suc i" using l by (cases j) auto
    have "2 * length r + 1 < i" using le [OF Cons] l j by simp
    then show ?thesis using p Cons j IH(2) [of True r _ i] IH(3) [of True r _ i] by (auto split: if_splits)
  qed (use p in simp)
  have a: "parse_array j first s = Some y" if p: "parse_array (Suc k) first s = Some y" and l: "2 * length s + 1 < j"
  proof (cases "ws s")
    case (Cons c r)
    obtain i where j: "j = Suc i" using l by (cases j) auto
    let ?t = "if first then c # r else r"
    have t: "length ?t \<le> length s" using le [OF Cons] by simp
    show ?thesis
    proof (cases "parse_value k ?t")
      case None
      then show ?thesis using p Cons j by (auto split: if_splits)
    next
      case (Some q)
      obtain u z where q: "q = (u, z)" by (cases q)
      have "length z < length s" using sh [of k ?t u z] Some q t by simp
      then have "2 * length z + 1 < i" "2 * length ?t < i" using l j t by auto
      then show ?thesis using p Cons j Some q IH(1) [of ?t q i] IH(2) [of False z _ i] by (auto split: if_splits)
    qed
  qed (use p in simp)
  have o: "parse_object j first s = Some w" if p: "parse_object (Suc k) first s = Some w" and l: "2 * length s + 1 < j"
  proof (cases "ws s")
    case (Cons c r)
    obtain i where j: "j = Suc i" using l by (cases j) auto
    show ?thesis
    proof (cases "c = CHR ''}''")
      case False
      let ?t = "if first then c # r else ws r"
      have t: "length ?t \<le> length s" using le [OF Cons] length_ws [of r] by simp
      obtain b t' e z u z' where steps: "first \<or> c = CHR '',''" "?t = CHR 0x22 # b" "scan_string b = Inr (t', e)" "ws e = CHR '':'' # z"
        "parse_value k z = Some (u, z')" "parse_object k False z' \<noteq> None"
        using p Cons False by (auto split: if_splits list.splits sum.splits option.splits)
      obtain ms z'' where ms: "parse_object k False z' = Some (ms, z'')" using steps(6) by (cases "parse_object k False z'") auto
      have "length z < length s" using t steps(2) scan_string_shorter [OF steps(3)] length_ws [of e] steps(4) by simp
      moreover have "length z' < length z" using sh [OF steps(5)] .
      ultimately have "2 * length z' + 1 < i" "2 * length z < i" using l j by auto
      then have "parse_value i z = Some (u, z')" "parse_object i False z' = Some (ms, z'')"
        using IH(1) [OF steps(5)] IH(3) [OF ms] by blast+
      then show ?thesis using p Cons j False steps ms by (auto split: if_splits)
    qed (use p Cons j in simp)
  qed (use p in simp)
  show ?case using v a o by blast
qed simp

lemma parse_value_fuel: "parse_value k s = Some x \<Longrightarrow> parse_value (fuel s) s = Some x"
  using parse_fuel [THEN conjunct1, rule_format, of k s x "fuel s"] by (simp add: fuel_def)

text \<open>The scanner never reports a plain end of file.\<close>

lemma scan_hex_error: "scan_hex k s \<noteq> Inl EOF"
  by (induction k s rule: scan_hex.induct) (auto split: sum.splits)

lemma scan_string_error: "scan_string s \<noteq> Inl EOF"
proof (induction "length s" arbitrary: s rule: less_induct)
  case less
  show ?case
  proof (cases s)
    case (Cons c r)
    have IH: "length y < length s \<Longrightarrow> scan_string y \<noteq> Inl EOF" for y using less by blast
    note u = scan_string.simps [of "c # r"]
    show ?thesis
    proof (cases "c = CHR 0x5C")
      case True
      show ?thesis
      proof (cases r)
        case (Cons e r')
        have "scan_string r' \<noteq> Inl EOF" using IH [of r'] \<open>s = c # r\<close> Cons by simp
        moreover have "scan_string r'' \<noteq> Inl EOF" if "scan_hex 4 r' = Inr (h, r'')" for h r''
          using IH [of r''] scan_hex_shorter [OF that] \<open>s = c # r\<close> Cons by simp
        ultimately show ?thesis
          unfolding \<open>s = c # r\<close> u using True Cons scan_hex_error [of 4 r'] by (auto split: sum.splits)
      qed (use \<open>s = c # r\<close> u True in simp)
    next
      case False
      have "scan_string r \<noteq> Inl EOF" using IH [of r] Cons by simp
      then show ?thesis unfolding Cons u using False by (auto split: sum.splits)
    qed
  qed (simp add: scan_string.simps)
qed

lemma digits1_error: "digits1 ctx s \<noteq> Inl EOF"
  by (simp add: digits1_def split: list.split)

lemma scan_number_error: "scan_number s \<noteq> Inl EOF"
proof -
  have i: "scan_int s \<noteq> Inl EOF" for s by (simp add: scan_int_def digits1_error split: list.split)
  have f: "scan_frac s \<noteq> Inl EOF" for s
    by (rule notI) (auto simp: scan_frac_def digits1_error split: list.splits sum.splits if_splits)
  have e: "scan_exp s \<noteq> Inl EOF" for s
    by (rule notI)
      (auto simp: scan_exp_def digits1_error split_def Let_def split: list.splits sum.splits if_splits)
  show ?thesis
    by (rule notI) (auto simp: scan_number_def i f e split_def Let_def split: sum.splits)
qed

lemma scan_word_error: "scan_word n w s \<noteq> Inl EOF"
  by (induction n w s rule: scan_word.induct) auto

lemma scan_literal_error: "scan_literal c r \<noteq> Inl EOF"
proof -
  have w: "map_sum (\<lambda>e. e) f (scan_word n w r) \<noteq> Inl EOF" for f :: "string \<Rightarrow> literal \<times> string" and n w
    using scan_word_error [of n w r] by (cases "scan_word n w r") auto
  consider "c = CHR 0x22" | "c \<noteq> CHR 0x22" "c = CHR ''-'' \<or> isDigit c"
    | "c \<noteq> CHR 0x22" "\<not> (c = CHR ''-'' \<or> isDigit c)" by blast
  then show ?thesis
  proof cases
    case 1
    then show ?thesis
      using scan_string_error [of r] by (cases "scan_string r") (auto simp: scan_literal_def)
  next
    case 2
    then have "scan_literal c r =
        (case scan_number (c # r) of Inl e \<Rightarrow> Inl e | Inr (t, z) \<Rightarrow> Inr (LNumber t, z))"
      by (simp only: scan_literal_def if_True if_False)
    then show ?thesis
      using scan_number_error [of "c # r"] by (cases "scan_number (c # r)") auto
  next
    case 3
    then show ?thesis by (simp add: scan_literal_def w)
  qed
qed

lemma Token_top:
  assumes "tokenState d = TopValue"
  shows "Token d = Inl EOF \<longleftrightarrow> ws (input d) = []"
proof (cases "ws (input d)")
  case (Cons c r)
  then show ?thesis
    using assms scan_literal_error [of c r]
    by (auto simp: Token.simps [of d] tokenValueAllowed_def Let_def split: sum.splits)
qed (simp add: Token_empty)

lemma walk_correct:
  "validateJSONStructure quote body = None \<longleftrightarrow>
     (\<exists>v. parse_json body = Some v \<and> unique_keys v \<and> top_ok v)"
proof (cases "ws body = []")
  case True
  then have "parse_value (fuel body) body = None" by (simp add: fuel_def)
  then show ?thesis using True by (simp add: validateJSONStructure_def parse_json_def)
next
  case False
  let ?d = "NewDecoder body"
  have "value_spec quote (fuel body)" using consume_specs by blast
  from value_specD [OF this, of ?d True]
  have v: "consumeJSONValue quote (fuel body) True ?d = Inr d' \<longleftrightarrow>
      (\<exists>v r. parse_value (fuel body) body = Some (v, r) \<and> unique_keys v \<and> top_ok v \<and>
         d' = \<lparr>input = r, tokenState = TopValue, tokenStack = []\<rparr>)" for d'
    by (simp add: NewDecoder_def value_start_def value_state_def tokenValueEnd_def)
  show ?thesis
  proof (cases "consumeJSONValue quote (fuel body) True ?d")
    case (Inl e)
    then have "\<nexists>v r. parse_value (fuel body) body = Some (v, r) \<and> unique_keys v \<and> top_ok v"
      using v by (metis sum.distinct(1))
    then show ?thesis
      using False Inl
      by (auto simp: validateJSONStructure_def parse_json_def split: consume_error.splits json_error.splits
          option.splits prod.splits if_splits)
  next
    case (Inr d')
    then obtain w r where w: "parse_value (fuel body) body = Some (w, r)" "unique_keys w" "top_ok w"
      "d' = \<lparr>input = r, tokenState = TopValue, tokenStack = []\<rparr>" using v by blast
    have "validateJSONStructure quote body = None \<longleftrightarrow> Token d' = Inl EOF"
      using False Inr by (simp add: validateJSONStructure_def split: sum.split json_error.split)
    also have "\<dots> \<longleftrightarrow> ws r = []" using Token_top [of d'] w(4) by simp
    finally show ?thesis using w by (simp add: parse_json_def)
  qed
qed

section \<open>Properties\<close>

text \<open>
  C31. The walk ends on every body: with two units of fuel for every byte and two more, none of the
  three functions runs out of it, whatever the text.
\<close>

theorem structure_terminates:
  "consumeJSONValue quote (fuel data) True (NewDecoder data) \<noteq> Inl OutOfFuel"
proof -
  have "2 * length (input (NewDecoder data)) < fuel data" by (simp add: NewDecoder_def fuel_def)
  then show ?thesis using consume_has_fuel [of "NewDecoder data" "fuel data" quote True] by blast
qed

text \<open>
  C30. \<open>validateJSONStructure\<close>, which only sees tokens, accepts exactly the bodies that the JSON
  grammar derives as one value with nothing behind it, in which no object at any depth has
  a key twice, whose top is not an array, and whose top-level names are the two allowed ones.
\<close>

theorem structure_correct:
  "validateJSONStructure quote body = None \<longleftrightarrow>
     (\<exists>v. parse_json body = Some v \<and> unique_keys v \<and> top_ok v)"
  by (rule walk_correct)

end
