(* ===== verification/Json_Decode.thy ===== *)
theory Json_Decode
  imports Json_Structure "HOL-Library.AList"
begin

text \<open>
  What the services use of \<open>json.Unmarshal\<close> and \<open>Decoder.Decode\<close>: the text is scanned as one
  value of the grammar, and the value is stored into a Go variable. Storing goes on after
  a mismatch and reports the first one at the end, so a decoder takes the variable and a value
  and returns the variable and the first error. \<open>null\<close> leaves a string, number, bool or struct
  as it is.
\<close>

section \<open>Errors\<close>

datatype decode_error =
    Malformed
  | TypeMismatch string string
  | UnknownField string
  | CorruptBase64

type_synonym 'a decoder = "'a \<Rightarrow> json \<Rightarrow> 'a \<times> decode_error option"

definition first :: "'e option \<Rightarrow> 'e option \<Rightarrow> 'e option" where
  "first a b = (case a of None \<Rightarrow> b | Some e \<Rightarrow> Some e)"

fun first_of :: "'e option list \<Rightarrow> 'e option" where
  "first_of [] = None"
| "first_of (e # es) = first e (first_of es)"

lemma first_None [simp]: "first a b = None \<longleftrightarrow> a = None \<and> b = None"
  by (simp add: first_def split: option.split)

lemma first_of_None [simp]: "first_of es = None \<longleftrightarrow> set es \<subseteq> {None}"
  by (induction es) auto

text \<open>The kind of a value in the text of a mismatch.\<close>

fun kind_name :: "json \<Rightarrow> string" where
  "kind_name (JLit (LString s)) = ''string''"
| "kind_name (JLit (LNumber t)) = ''number''"
| "kind_name (JLit (LBool b)) = ''bool''"
| "kind_name (JLit LNull) = ''null''"
| "kind_name (JArray vs) = ''array''"
| "kind_name (JObject ms) = ''object''"

definition mismatch :: "json \<Rightarrow> string \<Rightarrow> decode_error option" where
  "mismatch v ty = Some (TypeMismatch (kind_name v) ty)"

section \<open>Scanning\<close>

text \<open>The scanner counts open brackets and refuses more than ten thousand.\<close>

fun depth :: "json \<Rightarrow> nat" where
  "depth (JLit l) = 0"
| "depth (JArray vs) = Suc (fold (\<lambda>v m. max (depth v) m) vs 0)"
| "depth (JObject ms) = Suc (fold (\<lambda>(k, v) m. max (depth v) m) ms 0)"

definition maxNestingDepth :: nat where "maxNestingDepth = 10000"

text \<open>
  A reader delivers some bytes and then either the end of the text or an error. \<open>Decode\<close>
  reads no further than the value; only a literal needs the byte behind it, or the end of the
  text, to be complete.
\<close>

record stream =
  delivered :: string
  complete :: bool

fun is_literal :: "json \<Rightarrow> bool" where
  "is_literal (JLit l) = True"
| "is_literal _ = False"

definition read_value :: "stream \<Rightarrow> json option" where
  "read_value s =
     (case parse_value (fuel (delivered s)) (delivered s) of
        None \<Rightarrow> None
      | Some (v, r) \<Rightarrow>
          if maxNestingDepth < depth v \<or> is_literal v \<and> r = [] \<and> \<not> complete s then None else Some v)"

definition Decode :: "'a decoder \<Rightarrow> 'a \<Rightarrow> stream \<Rightarrow> 'a \<times> decode_error option" where
  "Decode f x s = (case read_value s of None \<Rightarrow> (x, Some Malformed) | Some v \<Rightarrow> f x v)"

text \<open>\<open>Unmarshal\<close> wants one value and nothing behind it.\<close>

definition Unmarshal :: "'a decoder \<Rightarrow> 'a \<Rightarrow> string \<Rightarrow> 'a \<times> decode_error option" where
  "Unmarshal f x data =
     (case parse_json data of
        None \<Rightarrow> (x, Some Malformed)
      | Some v \<Rightarrow> if maxNestingDepth < depth v then (x, Some Malformed) else f x v)"

text \<open>\<open>http.MaxBytesReader\<close>: at most \<open>n\<close> bytes, and an error in place of the next one.\<close>

definition MaxBytesReader :: "nat \<Rightarrow> stream \<Rightarrow> stream" where
  "MaxBytesReader n s =
     (if n < length (delivered s) then \<lparr>delivered = take n (delivered s), complete = False\<rparr> else s)"

section \<open>Scalars\<close>

definition decode_string :: "string decoder" where
  "decode_string x v =
     (case v of
        JLit LNull \<Rightarrow> (x, None)
      | JLit (LString s) \<Rightarrow> (s, None)
      | _ \<Rightarrow> (x, mismatch v ''string''))"

definition decode_bool :: "bool decoder" where
  "decode_bool x v =
     (case v of
        JLit LNull \<Rightarrow> (x, None)
      | JLit (LBool b) \<Rightarrow> (b, None)
      | _ \<Rightarrow> (x, mismatch v ''bool''))"

text \<open>
  \<open>strconv.ParseFloat\<close> on the text of a JSON number: its digits, the point and the exponent,
  of which the digits stop counting once ten thousand is reached; then the nearest
  float64, and an error when that is infinite.
\<close>

definition nat_of_digits :: "string \<Rightarrow> nat" where
  "nat_of_digits ds = foldl (\<lambda>a c. a * 10 + (code c - 48)) 0 ds"

definition exponent_of_digits :: "string \<Rightarrow> nat" where
  "exponent_of_digits ds = foldl (\<lambda>e c. if e < 10000 then e * 10 + (code c - 48) else e) 0 ds"

definition pow10 :: "int \<Rightarrow> rat" where
  "pow10 e = (if 0 \<le> e then 10 ^ nat e else 1 / 10 ^ nat (- e))"

definition number_value :: "string \<Rightarrow> bool \<times> rat" where
  "number_value t =
     (let neg = (t \<noteq> [] \<and> hd t = CHR ''-'');
          t1 = (if neg then tl t else t);
          whole = takeWhile isDigit t1;
          t2 = dropWhile isDigit t1;
          frac = (if t2 \<noteq> [] \<and> hd t2 = CHR ''.'' then takeWhile isDigit (tl t2) else []);
          t3 = (if t2 \<noteq> [] \<and> hd t2 = CHR ''.'' then dropWhile isDigit (tl t2) else t2);
          t4 = tl t3;
          eneg = (t4 \<noteq> [] \<and> hd t4 = CHR ''-'');
          edigits = (if t4 \<noteq> [] \<and> (hd t4 = CHR ''-'' \<or> hd t4 = CHR ''+'') then tl t4 else t4);
          e = int (exponent_of_digits edigits)
      in (neg, of_nat (nat_of_digits (whole @ frac)) * pow10 ((if eneg then - e else e) - int (length frac))))"

definition ParseFloat :: "string \<Rightarrow> float64 option" where
  "ParseFloat t =
     (case number_value t of (neg, q) \<Rightarrow> if isFinite (rnd neg q) then Some (rnd neg q) else None)"

definition decode_float64 :: "float64 decoder" where
  "decode_float64 x v =
     (case v of
        JLit LNull \<Rightarrow> (x, None)
      | JLit (LNumber t) \<Rightarrow>
          (case ParseFloat t of
             Some f \<Rightarrow> (f, None)
           | None \<Rightarrow> (x, Some (TypeMismatch (''number '' @ t) ''float64'')))
      | _ \<Rightarrow> (x, mismatch v ''float64''))"

text \<open>\<open>strconv.ParseUint\<close> in base ten: digits only, and a value below \<open>2 ^ bits\<close>.\<close>

definition ParseUint :: "nat \<Rightarrow> string \<Rightarrow> nat option" where
  "ParseUint bits t =
     (if t \<noteq> [] \<and> list_all isDigit t \<and> nat_of_digits t < 2 ^ bits then Some (nat_of_digits t) else None)"

definition decode_uint :: "'w::len word decoder" where
  "decode_uint x v =
     (case v of
        JLit LNull \<Rightarrow> (x, None)
      | JLit (LNumber t) \<Rightarrow>
          (case ParseUint LENGTH('w) t of
             Some n \<Rightarrow> (of_nat n, None)
           | None \<Rightarrow> (x, Some (TypeMismatch (''number '' @ t) ''uint'')))
      | _ \<Rightarrow> (x, mismatch v ''uint''))"

section \<open>Structs\<close>

text \<open>
  A key selects the field of that name, and otherwise the one whose name is the same up to
  case. Folding takes ASCII letters to upper case; of the other runes only the long s
  and the Kelvin sign fold to ASCII.
\<close>

function fold_name :: "string \<Rightarrow> string" where
  "fold_name s =
     (case s of
        [] \<Rightarrow> []
      | c # r \<Rightarrow>
          if 97 \<le> code c \<and> code c \<le> 122 then char_of (code c - 32) # fold_name r
          else if take 2 s = [CHR 0xC5, CHR 0xBF] then CHR ''S'' # fold_name (drop 2 s)
          else if take 3 s = [CHR 0xE2, CHR 0x84, CHR 0xAA] then CHR ''K'' # fold_name (drop 3 s)
          else c # fold_name r)"
  by pat_completeness auto
termination by (relation "measure length") auto

declare fold_name.simps [simp del]

definition field_of :: "(string \<times> 'f) list \<Rightarrow> string \<Rightarrow> 'f option" where
  "field_of fds key =
     (case map_of fds key of
        Some f \<Rightarrow> Some f
      | None \<Rightarrow> map_option snd (find (\<lambda>(name, f). fold_name name = fold_name key) fds))"

text \<open>\<open>strict\<close>: \<open>DisallowUnknownFields\<close> was called.\<close>

fun decode_members :: "bool \<Rightarrow> (string \<times> 's decoder) list \<Rightarrow> 's \<Rightarrow> (string \<times> json) list \<Rightarrow>
  's \<times> decode_error option" where
  "decode_members strict fds s [] = (s, None)"
| "decode_members strict fds s ((key, v) # ms) =
     (case field_of fds key of
        None \<Rightarrow>
          (case decode_members strict fds s ms of (s', e) \<Rightarrow>
             (s', first (if strict then Some (UnknownField key) else None) e))
      | Some f \<Rightarrow>
          (case f s v of (s1, e1) \<Rightarrow>
             (case decode_members strict fds s1 ms of (s2, e2) \<Rightarrow> (s2, first e1 e2))))"

definition decode_struct :: "bool \<Rightarrow> string \<Rightarrow> (string \<times> 's decoder) list \<Rightarrow> 's decoder" where
  "decode_struct strict ty fds s v =
     (case v of
        JLit LNull \<Rightarrow> (s, None)
      | JObject ms \<Rightarrow> decode_members strict fds s ms
      | _ \<Rightarrow> (s, mismatch v ty))"

text \<open>A field, from its getter and setter.\<close>

definition field :: "('s \<Rightarrow> 'a) \<Rightarrow> ('a \<Rightarrow> 's \<Rightarrow> 's) \<Rightarrow> 'a decoder \<Rightarrow> 's decoder" where
  "field get put f s v = (case f (get s) v of (x, e) \<Rightarrow> (put x s, e))"

section \<open>Slices\<close>

text \<open>
  The elements of a slice and those behind its length that its array still holds. The element at
  each position is decoded into what the array has there, or into a zero value behind its end;
  the slice then ends behind the last element. An empty array makes a new slice.
\<close>

record 'a slice =
  elems :: "'a list"
  spare :: "'a list"

definition nil_slice :: "'a slice" where
  "nil_slice = \<lparr>elems = [], spare = []\<rparr>"

fun decode_elems :: "'a decoder \<Rightarrow> 'a \<Rightarrow> 'a list \<Rightarrow> json list \<Rightarrow> ('a list \<times> 'a list) \<times> decode_error option" where
  "decode_elems f zero old [] = (([], old), None)"
| "decode_elems f zero old (v # vs) =
     (case f (case old of [] \<Rightarrow> zero | x # _ \<Rightarrow> x) v of (x, e1) \<Rightarrow>
        (case decode_elems f zero (tl old) vs of ((xs, rest), e2) \<Rightarrow> ((x # xs, rest), first e1 e2)))"

definition decode_slice :: "string \<Rightarrow> 'a decoder \<Rightarrow> 'a \<Rightarrow> 'a slice decoder" where
  "decode_slice ty f zero s v =
     (case v of
        JLit LNull \<Rightarrow> (nil_slice, None)
      | JArray [] \<Rightarrow> (nil_slice, None)
      | JArray vs \<Rightarrow>
          (case decode_elems f zero (elems s @ spare s) vs of ((xs, rest), e) \<Rightarrow>
             (\<lparr>elems = xs, spare = rest\<rparr>, e))
      | _ \<Rightarrow> (s, mismatch v ty))"

end
