(* ===== verification/Json_Encode.thy ===== *)
theory Json_Encode
  imports Json_Decode
begin

text \<open>
  What the services use of \<open>json.Marshal\<close> and \<open>Encoder.Encode\<close>: the text of a value, with the
  escapes of Go's encoder, which also escapes the characters that matter in HTML. The main
  fact is that parsing the printed text gives the value back (\<open>parse_print\<close>).
\<close>

section \<open>Printing\<close>

definition html_safe :: "char \<Rightarrow> bool" where
  "html_safe c \<longleftrightarrow> 32 \<le> code c \<and> c \<noteq> CHR 0x22 \<and> c \<noteq> CHR 0x5C \<and> c \<notin> set ''<>&''"

definition hex_char :: "nat \<Rightarrow> char" where
  "hex_char n = char_of (if n < 10 then 48 + n else 87 + n)"

definition ascii_escape :: "char \<Rightarrow> string" where
  "ascii_escape c =
     (if c = CHR 0x5C \<or> c = CHR 0x22 then [CHR 0x5C, c]
      else if c = CHR 0x08 then [CHR 0x5C, CHR ''b'']
      else if c = CHR 0x0C then [CHR 0x5C, CHR ''f'']
      else if c = CHR 0x0A then [CHR 0x5C, CHR ''n'']
      else if c = CHR 0x0D then [CHR 0x5C, CHR ''r'']
      else if c = CHR 0x09 then [CHR 0x5C, CHR ''t'']
      else [CHR 0x5C, CHR ''u'', CHR ''0'', CHR ''0'', hex_char (code c div 16), hex_char (code c mod 16)])"

text \<open>Decimal digits.\<close>

fun show_nat :: "nat \<Rightarrow> string" where
  "show_nat n = (if n < 10 then [char_of (48 + n)] else show_nat (n div 10) @ [char_of (48 + n mod 10)])"

declare show_nat.simps [simp del]

function escape :: "string \<Rightarrow> string" where
  "escape s =
     (case s of
        [] \<Rightarrow> []
      | c # r \<Rightarrow>
          if code c < 128 then (if html_safe c then c # escape r else ascii_escape c @ escape r)
          else if rune_length s = 0 then CHR 0x5C # ''ufffd'' @ escape r
          else if take 3 s = [CHR 0xE2, CHR 0x80, CHR 0xA8] then CHR 0x5C # ''u2028'' @ escape (drop 3 s)
          else if take 3 s = [CHR 0xE2, CHR 0x80, CHR 0xA9] then CHR 0x5C # ''u2029'' @ escape (drop 3 s)
          else take (rune_length s) s @ escape (drop (rune_length s) s))"
  by pat_completeness auto
termination by (relation "measure length") auto

declare escape.simps [simp del]

fun join :: "string list \<Rightarrow> string" where
  "join [] = []"
| "join [x] = x"
| "join (x # y # ys) = x @ CHR '','' # join (y # ys)"

definition print_string :: "string \<Rightarrow> string" where
  "print_string s = CHR 0x22 # escape s @ [CHR 0x22]"

fun print_literal :: "literal \<Rightarrow> string" where
  "print_literal (LString s) = print_string s"
| "print_literal (LNumber t) = t"
| "print_literal (LBool b) = (if b then ''true'' else ''false'')"
| "print_literal LNull = ''null''"

fun print_json :: "json \<Rightarrow> string" where
  "print_json (JLit l) = print_literal l"
| "print_json (JArray vs) = CHR ''['' # join (map print_json vs) @ '']''"
| "print_json (JObject ms) =
     CHR ''{'' # join (map (\<lambda>(k, v). print_string k @ CHR '':'' # print_json v) ms) @ ''}''"

section \<open>Printing and parsing\<close>

text \<open>Strings of well-formed UTF-8.\<close>

function utf8 :: "string \<Rightarrow> bool" where
  "utf8 s =
     (if s = [] then True else if rune_length s = 0 then False else utf8 (drop (rune_length s) s))"
  by pat_completeness auto
termination by (relation "measure length") auto

declare utf8.simps [simp del]

definition number_ok :: "string \<Rightarrow> bool" where
  "number_ok t \<longleftrightarrow> scan_number t = Inr (t, [])"

fun printable :: "json \<Rightarrow> bool" where
  "printable (JLit (LString s)) = utf8 s"
| "printable (JLit (LNumber t)) = number_ok t"
| "printable (JLit (LBool b)) = True"
| "printable (JLit LNull) = True"
| "printable (JArray vs) = list_all printable vs"
| "printable (JObject ms) = list_all (\<lambda>(k, v). utf8 k \<and> printable v) ms"

text \<open>What may stand behind a value.\<close>

definition stops :: "string \<Rightarrow> bool" where
  "stops r \<longleftrightarrow> r = [] \<or> hd r \<in> set '',]}'' \<or> isSpace (hd r)"

lemma stops_simps [simp]: "stops []" "stops (CHR '','' # r)" "stops (CHR '']'' # r)" "stops (CHR ''}'' # r)"
  by (simp_all add: stops_def)

lemma stops_pad: "list_all isSpace w \<Longrightarrow> stops r \<Longrightarrow> stops (w @ r)"
  by (cases w) (simp_all add: stops_def)

lemma digit_not_space: "isDigit c \<Longrightarrow> \<not> isSpace c"
  by (auto simp: isSpace_def isDigit_def code_def)

lemma isDigit_punctuation [simp]: "\<not> isDigit (CHR '','')" "\<not> isDigit (CHR '']'')" "\<not> isDigit (CHR ''}'')"
  by (simp_all add: isDigit_def code_def)

lemma stops_digits:
  assumes "stops r"
  shows "takeWhile isDigit r = []" "dropWhile isDigit r = r"
  using assms digit_not_space by (cases r; auto simp: stops_def)+

lemma digits1_append:
  assumes "digits1 ctx s = Inr (d, z)" "stops r"
  shows "digits1 ctx (s @ r) = Inr (d, z @ r)"
proof (cases s)
  case Nil
  then show ?thesis using assms by (simp add: digits1_def)
next
  case (Cons c s')
  then have d: "isDigit c" "d = takeWhile isDigit s" "z = dropWhile isDigit s"
    using assms by (auto simp: digits1_def split: if_splits)
  have "takeWhile isDigit (s @ r) = d \<and> dropWhile isDigit (s @ r) = z @ r"
  proof (cases "\<forall>x\<in>set s. isDigit x")
    case True
    then have t: "takeWhile isDigit s = s" "dropWhile isDigit s = []" by (simp_all add: takeWhile_eq_all_conv)
    have a: "takeWhile isDigit (s @ r) = s @ takeWhile isDigit r" "dropWhile isDigit (s @ r) = dropWhile isDigit r"
      using True by (simp_all add: takeWhile_append2 dropWhile_append2)
    show ?thesis unfolding d(2,3) a t stops_digits [OF assms(2)] by simp
  next
    case False
    then obtain x where "x \<in> set s" "\<not> isDigit x" by blast
    then show ?thesis using d by (simp add: takeWhile_append1 dropWhile_append1)
  qed
  then show ?thesis using Cons d(1) by (simp add: digits1_def)
qed

lemma scan_int_append:
  "scan_int s = Inr (d, z) \<Longrightarrow> stops r \<Longrightarrow> scan_int (s @ r) = Inr (d, z @ r)"
  by (cases s) (auto simp: scan_int_def digits1_append [of _ "_ # _", simplified] split: if_splits)

lemma scan_frac_append:
  "scan_frac s = Inr (d, z) \<Longrightarrow> stops r \<Longrightarrow> scan_frac (s @ r) = Inr (d, z @ r)"
  by (cases s; cases r) (auto simp: scan_frac_def stops_def isSpace_def digits1_append split: if_splits sum.splits)

lemma scan_exp_append:
  assumes "scan_exp s = Inr (d, z)" "stops r"
  shows "scan_exp (s @ r) = Inr (d, z @ r)"
proof (cases s)
  case Nil
  then show ?thesis using assms by (cases r) (auto simp: scan_exp_def stops_def isSpace_def)
next
  case (Cons c t)
  show ?thesis
  proof (cases t)
    case Nil
    then show ?thesis using assms Cons by (auto simp: scan_exp_def digits1_def split: if_splits)
  next
    case (Cons g u)
    then show ?thesis using assms \<open>s = c # t\<close>
      by (auto simp: scan_exp_def digits1_append [of _ "_ # _", simplified] digits1_append split: if_splits sum.splits)
  qed
qed

lemma scan_number_append:
  assumes "scan_number s = Inr (t, z)" "stops r"
  shows "scan_number (s @ r) = Inr (t, z @ r)"
proof -
  let ?sg = "\<lambda>s. case s of [] \<Rightarrow> ([], s) | c # z \<Rightarrow> if c = CHR ''-'' then ([c], z) else ([], s)"
  obtain sg u where sg: "?sg s = (sg, u)" by (cases "?sg s")
  have u: "scan_number s = (case scan_int u of Inl e \<Rightarrow> Inl e | Inr (i, r) \<Rightarrow>
      (case scan_frac r of Inl e \<Rightarrow> Inl e | Inr (f, r) \<Rightarrow>
        (case scan_exp r of Inl e \<Rightarrow> Inl e | Inr (x, r) \<Rightarrow> Inr (sg @ i @ f @ x, r))))"
    unfolding scan_number_def sg by simp
  then obtain i a f b x where i: "scan_int u = Inr (i, a)" and f: "scan_frac a = Inr (f, b)"
    and x: "scan_exp b = Inr (x, z)" and t: "t = sg @ i @ f @ x"
    using assms(1) by (auto split: sum.splits)
  have "u \<noteq> []" using i by (auto simp: scan_int_def)
  then have "?sg (s @ r) = (sg, u @ r)" using sg by (cases s) (auto split: if_splits)
  then show ?thesis
    unfolding scan_number_def t
    using scan_int_append [OF i assms(2)] scan_frac_append [OF f assms(2)] scan_exp_append [OF x assms(2)]
    by simp
qed

lemma number_ok_append: "number_ok t \<Longrightarrow> stops r \<Longrightarrow> scan_number (t @ r) = Inr (t, r)"
  unfolding number_ok_def using scan_number_append [of t t "[]" r] by simp

lemma number_ok_start:
  assumes "number_ok t"
  obtains c u where "t = c # u" "c = CHR ''-'' \<or> isDigit c"
proof (cases t)
  case Nil
  then show thesis using assms by (simp add: number_ok_def scan_number_def scan_int_def)
next
  case (Cons c u)
  have "isDigit (CHR ''0'')" by (simp add: isDigit_def code_def)
  then have "c = CHR ''-'' \<or> isDigit c"
    using assms Cons
    by (auto simp: number_ok_def scan_number_def scan_int_def digits1_def split: if_splits sum.splits)
  then show thesis using that Cons by blast
qed

subsection \<open>Strings\<close>

text \<open>A rune of well-formed text is one ASCII byte or bytes that are all above ASCII.\<close>

lemma rune_high:
  assumes "rune_length (c # r) = n" "n \<noteq> 0" "\<not> code c < 128"
  shows "n \<le> length (c # r)" "1 < n" "\<forall>x\<in>set (take n (c # r)). 128 \<le> code x"
  using assms
  by (auto simp: rune_length_def cont_def split: list.splits if_splits)

lemma scan_string_high:
  assumes "\<forall>x\<in>set p. 128 \<le> code x"
  shows "scan_string (p @ r) = (case scan_string r of Inl e \<Rightarrow> Inl e | Inr (t, z) \<Rightarrow> Inr (p @ t, z))"
  using assms
proof (induction p)
  case Nil
  then show ?case by (simp split: sum.split prod.split)
next
  case (Cons c p)
  have c: "c \<noteq> CHR 0x22" "c \<noteq> CHR 0x5C" "\<not> code c < 32" using Cons.prems by (auto simp: code_def)
  show ?case
    unfolding append_Cons scan_string.simps [of "c # p @ r"] using c Cons by (simp split: sum.split)
qed

lemma scan_string_safe:
  assumes "html_safe c"
  shows "scan_string (c # r) = (case scan_string r of Inl e \<Rightarrow> Inl e | Inr (t, z) \<Rightarrow> Inr (c # t, z))"
  unfolding scan_string.simps [of "c # r"] using assms by (simp add: html_safe_def)

lemma hex_char_digit:
  assumes "n < 16"
  shows "isHex (hex_char n)" "hex_digit (hex_char n) = n"
  using assms by (auto simp: isHex_def isDigit_def hex_char_def hex_digit_def code_def)

lemma scan_string_unicode:
  assumes "list_all isHex [a, b, c, d]"
  shows "scan_string (CHR 0x5C # CHR ''u'' # a # b # c # d # r) =
    (case scan_string r of Inl e \<Rightarrow> Inl e | Inr (t, z) \<Rightarrow> Inr (CHR 0x5C # CHR ''u'' # a # b # c # d # t, z))"
  unfolding scan_string.simps [of "CHR 0x5C # r" for r] using assms
  by (simp add: numeral_eq_Suc split: sum.split)

lemma scan_string_short:
  assumes "e \<in> set ''bfnrt/'' \<or> e = CHR 0x5C \<or> e = CHR 0x22"
  shows "scan_string (CHR 0x5C # e # r) =
    (case scan_string r of Inl x \<Rightarrow> Inl x | Inr (t, z) \<Rightarrow> Inr (CHR 0x5C # e # t, z))"
proof -
  have "scan_string (CHR 0x5C # e # r) =
      (if e \<in> set ''bfnrt/'' \<or> e = CHR 0x5C \<or> e = CHR 0x22
       then case scan_string r of Inl x \<Rightarrow> Inl x | Inr (t, z) \<Rightarrow> Inr (CHR 0x5C # e # t, z)
       else if e = CHR ''u'' then
         (case scan_hex 4 r of Inl x \<Rightarrow> Inl x | Inr (h, r'') \<Rightarrow>
            (case scan_string r'' of Inl x \<Rightarrow> Inl x | Inr (t, z) \<Rightarrow> Inr (CHR 0x5C # e # h @ t, z)))
       else Inl (InvalidChar e ''in string escape code''))"
    unfolding scan_string.simps [of "CHR 0x5C # e # r"] by simp
  then show ?thesis unfolding if_P [OF assms] .
qed

lemma ascii_escape_short:
  assumes "length (ascii_escape c) = 2"
  shows "\<exists>e. ascii_escape c = [CHR 0x5C, e] \<and> (e \<in> set ''bfnrt/'' \<or> e = CHR 0x5C \<or> e = CHR 0x22)"
proof -
  have "c = CHR 0x5C \<or> c = CHR 0x22 \<or> c = CHR 0x08 \<or> c = CHR 0x0C \<or> c = CHR 0x0A \<or> c = CHR 0x0D \<or> c = CHR 0x09"
    using assms unfolding ascii_escape_def by (auto split: if_splits)
  then show ?thesis by (elim disjE) (simp_all add: ascii_escape_def)
qed

lemma scan_string_ascii:
  assumes "code c < 128" "\<not> html_safe c"
  shows "scan_string (ascii_escape c @ r) =
    (case scan_string r of Inl e \<Rightarrow> Inl e | Inr (t, z) \<Rightarrow> Inr (ascii_escape c @ t, z))"
proof (cases "length (ascii_escape c) = 2")
  case True
  then obtain e where e: "ascii_escape c = [CHR 0x5C, e]" "e \<in> set ''bfnrt/'' \<or> e = CHR 0x5C \<or> e = CHR 0x22"
    using ascii_escape_short by blast
  show ?thesis unfolding e(1) append_Cons append_Nil by (rule scan_string_short [OF e(2)])
next
  case False
  have hex: "isHex (CHR ''0'')" "isHex (hex_char (code c div 16))" "isHex (hex_char (code c mod 16))"
    using assms(1) hex_char_digit by (auto simp: isHex_def isDigit_def code_def)
  have "ascii_escape c = [CHR 0x5C, CHR ''u'', CHR ''0'', CHR ''0'', hex_char (code c div 16), hex_char (code c mod 16)]"
    using False by (auto simp: ascii_escape_def split: if_splits)
  then show ?thesis
    using scan_string_unicode [of "CHR ''0''" "CHR ''0''" "hex_char (code c div 16)" "hex_char (code c mod 16)" r] hex
    by (simp only: append_Cons append_Nil list.pred_inject simp_thms)
qed

lemma scan_string_escape: "scan_string (escape s @ CHR 0x22 # r) = Inr (escape s, r)"
proof (induction "length s" arbitrary: s rule: less_induct)
  case less
  show ?case
  proof (cases s)
    case Nil
    then show ?thesis by (simp add: escape.simps scan_string.simps)
  next
    case (Cons c t)
    let ?n = "rune_length (c # t)"
    have IH: "scan_string (escape u @ CHR 0x22 # r) = Inr (escape u, r)" if "length u < length s" for u
      using less that by blast
    have hex: "list_all isHex ''ufffd'' = False" "list_all isHex ''fffd''" "list_all isHex ''2028''" "list_all isHex ''2029''"
      by (simp_all add: isHex_def isDigit_def code_def)
    note e = escape.simps [of "c # t"]
    consider "code c < 128" | "\<not> code c < 128" "?n = 0" | "\<not> code c < 128" "?n \<noteq> 0" by blast
    then show ?thesis
    proof cases
      case 1
      then show ?thesis
        using IH [of t] Cons e scan_string_safe [of c] scan_string_ascii [of c]
        by (cases "html_safe c") auto
    next
      case 2
      then show ?thesis
        using IH [of t] Cons e hex scan_string_unicode [of "CHR ''f''" "CHR ''f''" "CHR ''f''" "CHR ''d''"] by simp
    next
      case 3
      note h = rune_high [OF refl 3(2,1)]
      consider "take 3 (c # t) = [CHR 0xE2, CHR 0x80, CHR 0xA8]" | "take 3 (c # t) = [CHR 0xE2, CHR 0x80, CHR 0xA9]"
        | "take 3 (c # t) \<noteq> [CHR 0xE2, CHR 0x80, CHR 0xA8]" "take 3 (c # t) \<noteq> [CHR 0xE2, CHR 0x80, CHR 0xA9]" by blast
      then show ?thesis
      proof cases
        case 1
        then show ?thesis
          using IH [of "drop 3 s"] Cons e 3 hex scan_string_unicode [of "CHR ''2''" "CHR ''0''" "CHR ''2''" "CHR ''8''"] by simp
      next
        case 2
        then show ?thesis
          using IH [of "drop 3 s"] Cons e 3 hex scan_string_unicode [of "CHR ''2''" "CHR ''0''" "CHR ''2''" "CHR ''9''"] by simp
      next
        case n: 3
        have "escape s = take ?n s @ escape (drop ?n s)"
          unfolding Cons e by (simp only: list.case 3 n if_False)
        then show ?thesis
          using IH [of "drop ?n s"] scan_string_high [OF h(3)] h Cons by simp
      qed
    qed
  qed
qed

lemma rune_length_prefix:
  assumes "rune_length s = n" "n \<noteq> 0"
  shows "rune_length (take n s @ x) = n"
proof (cases s)
  case Nil
  then show ?thesis using assms by (simp add: rune_length_def)
next
  case (Cons a r)
  consider "code a < 128" | "\<not> code a < 128" "cont 194 223 a" | "\<not> code a < 128" "\<not> cont 194 223 a" "cont 224 239 a"
    | "\<not> code a < 128" "\<not> cont 194 223 a" "\<not> cont 224 239 a" by blast
  then show ?thesis
  proof cases
    case 1
    then have "n = 1" using assms Cons by (simp add: rune_length_def)
    then show ?thesis using 1 Cons by (simp add: rune_length_def)
  next
    case 2
    then obtain b t where "r = b # t" "n = 2" "cont 128 191 b"
      using assms Cons by (cases r) (simp_all add: rune_length_def split: if_splits)
    then show ?thesis using 2 Cons by (simp add: rune_length_def)
  next
    case 3
    then obtain b c t where "r = b # c # t" "n = 3"
      "cont (if code a = 224 then 160 else 128) (if code a = 237 then 159 else 191) b \<and> cont 128 191 c"
      using assms Cons by (cases r; cases "tl r") (simp_all add: rune_length_def split: if_split_asm)
    then show ?thesis using 3 Cons by (simp add: rune_length_def)
  next
    case 4
    then have "cont 240 244 a" using assms Cons by (simp add: rune_length_def split: if_split_asm)
    moreover from this obtain b c d t where "r = b # c # d # t" "n = 4"
      "cont (if code a = 240 then 144 else 128) (if code a = 244 then 143 else 191) b \<and> cont 128 191 c \<and> cont 128 191 d"
      using assms Cons 4 by (cases r; cases "tl r"; cases "tl (tl r)") (simp_all add: rune_length_def split: if_split_asm)
    ultimately show ?thesis using 4 Cons by (simp add: rune_length_def)
  qed
qed

lemma char_of_code: "code c = n \<Longrightarrow> char_of n = c"
  by (auto simp: code_def)

lemma unquote_rune:
  assumes "rune_length p = length p" "p \<noteq> []" "rune_length (p @ r) = length p" "hd p \<noteq> CHR 0x5C"
  shows "unquote (p @ r) = p @ unquote r"
  using assms unquote.simps [of "p @ r"] by (cases p) auto

lemma unquote_short:
  "e \<noteq> CHR ''u'' \<Longrightarrow> unquote (CHR 0x5C # e # r) = simple_escape e # unquote r"
  by (subst unquote.simps) simp

lemma unquote_unicode:
  assumes "hex_val [a, b, c, d] < 55296"
  shows "unquote (CHR 0x5C # CHR ''u'' # a # b # c # d # r) = encode_rune (hex_val [a, b, c, d]) @ unquote r"
proof -
  have "take 4 (a # b # c # d # r) = [a, b, c, d]" "drop 4 (a # b # c # d # r) = r" by simp_all
  then show ?thesis using assms by (subst unquote.simps) (simp add: Let_def)
qed

lemma unquote_ascii:
  assumes "code c < 128"
  shows "unquote (ascii_escape c @ r) = c # unquote r"
proof (cases "length (ascii_escape c) = 2")
  case True
  then have "c = CHR 0x5C \<or> c = CHR 0x22 \<or> c = CHR 0x08 \<or> c = CHR 0x0C \<or> c = CHR 0x0A \<or> c = CHR 0x0D \<or> c = CHR 0x09"
    unfolding ascii_escape_def by (auto split: if_splits)
  then show ?thesis by (elim disjE) (simp_all add: ascii_escape_def unquote_short simple_escape_def)
next
  case False
  then have e: "ascii_escape c = [CHR 0x5C, CHR ''u'', CHR ''0'', CHR ''0'', hex_char (code c div 16), hex_char (code c mod 16)]"
    by (auto simp: ascii_escape_def split: if_splits)
  have d: "hex_digit (CHR ''0'') = 0" by (simp add: hex_digit_def isDigit_def code_def)
  have h: "hex_val [CHR ''0'', CHR ''0'', hex_char (code c div 16), hex_char (code c mod 16)] = code c"
    unfolding hex_val_def using assms by (simp add: d hex_char_digit)
  have "encode_rune (code c) = [c]" using assms by (simp add: encode_rune_def code_def)
  then show ?thesis unfolding e append_Cons append_Nil using unquote_unicode [of "CHR ''0''" "CHR ''0''"] h assms by simp
qed

lemma unquote_escape: "utf8 s \<Longrightarrow> unquote (escape s) = s"
proof (induction "length s" arbitrary: s rule: less_induct)
  case less
  show ?case
  proof (cases s)
    case Nil
    then show ?thesis by (simp add: escape.simps unquote.simps)
  next
    case (Cons c t)
    let ?n = "rune_length (c # t)"
    have n: "?n \<noteq> 0" "utf8 (drop ?n s)" using less.prems Cons utf8.simps [of s] by (simp_all split: if_splits)
    have IH: "unquote (escape (drop ?n s)) = drop ?n s" using less.hyps [OF _ n(2)] n(1) Cons by simp
    note e = escape.simps [of "c # t"]
    show ?thesis
    proof (cases "code c < 128")
      case True
      then have one: "?n = 1" "rune_length (c # x) = 1" for x by (simp_all add: rune_length_def)
      show ?thesis
      proof (cases "html_safe c")
        case h: True
        then have "escape s = [c] @ escape t" using Cons e True by simp
        then show ?thesis
          using unquote_rune [of "[c]" "escape t"] one h IH Cons by (simp add: html_safe_def)
      next
        case False
        then have "escape s = ascii_escape c @ escape t" using Cons e True by simp
        then show ?thesis using unquote_ascii [OF True] one IH Cons by simp
      qed
    next
      case False
      note h = rune_high [OF refl n(1) False]
      have hex: "hex_val ''2028'' = 8232" "hex_val ''2029'' = 8233"
        by (simp_all add: hex_val_def hex_digit_def isDigit_def code_def)
      have enc: "encode_rune 8232 = [CHR 0xE2, CHR 0x80, CHR 0xA8]" "encode_rune 8233 = [CHR 0xE2, CHR 0x80, CHR 0xA9]"
        using char_of_code [of "CHR 0xE2" 226] char_of_code [of "CHR 0x80" 128]
          char_of_code [of "CHR 0xA8" 168] char_of_code [of "CHR 0xA9" 169]
        by (simp_all add: encode_rune_def code_def)
      consider "take 3 (c # t) = [CHR 0xE2, CHR 0x80, CHR 0xA8]" | "take 3 (c # t) = [CHR 0xE2, CHR 0x80, CHR 0xA9]"
        | "take 3 (c # t) \<noteq> [CHR 0xE2, CHR 0x80, CHR 0xA8]" "take 3 (c # t) \<noteq> [CHR 0xE2, CHR 0x80, CHR 0xA9]" by blast
      then show ?thesis
      proof cases
        case 1
        have s: "s = take 3 s @ drop 3 s" by simp
        have "?n = 3" using 1 n(1) by (auto simp: rune_length_def cont_def code_def split: list.splits if_splits)
        moreover have "escape s = CHR 0x5C # ''u2028'' @ escape (drop 3 s)"
          unfolding Cons e by (simp only: list.case False n(1) 1 if_False if_True simp_thms)
        ultimately show ?thesis
          using unquote_unicode [of "CHR ''2''" "CHR ''0''" "CHR ''2''" "CHR ''8''"] hex enc IH 1 Cons s by simp
      next
        case 2
        have s: "s = take 3 s @ drop 3 s" by simp
        have ne: "[CHR 0xE2, CHR 0x80, CHR 0xA9] \<noteq> [CHR 0xE2, CHR 0x80, CHR 0xA8]" by simp
        have "?n = 3" using 2 n(1) by (auto simp: rune_length_def cont_def code_def split: list.splits if_splits)
        moreover have "escape s = CHR 0x5C # ''u2029'' @ escape (drop 3 s)"
          unfolding Cons e by (simp only: list.case False n(1) 2 ne if_False if_True simp_thms)
        ultimately show ?thesis
          using unquote_unicode [of "CHR ''2''" "CHR ''0''" "CHR ''2''" "CHR ''9''"] hex enc IH 2 Cons s by simp
      next
        case 3
        have esc: "escape s = take ?n s @ escape (drop ?n s)"
          unfolding Cons e by (simp only: list.case False n(1) 3 if_False)
        have l: "length (take ?n s) = ?n" using h(1) Cons by simp
        have "hd (take ?n s) \<noteq> CHR 0x5C" "take ?n s \<noteq> []" using Cons n(1) False by (auto simp: code_def)
        then have "unquote (take ?n s @ escape (drop ?n s)) = take ?n s @ unquote (escape (drop ?n s))"
          using rune_length_prefix [OF refl n(1)] rune_length_prefix [OF refl n(1), of "[]"] l Cons
          by (intro unquote_rune) simp_all
        then show ?thesis unfolding esc IH by simp
      qed
    qed
  qed
qed

subsection \<open>Values\<close>

lemma not_space [simp]: "\<not> isSpace (CHR ''['')" "\<not> isSpace (CHR ''{'')" "\<not> isSpace (CHR '']'')" "\<not> isSpace (CHR ''}'')"
  "\<not> isSpace (CHR '','')" "\<not> isSpace (CHR '':'')" "\<not> isSpace (CHR 0x22)" "\<not> isSpace (CHR ''t'')"
  "\<not> isSpace (CHR ''f'')" "\<not> isSpace (CHR ''n'')" "\<not> isSpace (CHR ''-'')"
  by (simp_all add: isSpace_def)

lemma digit_not_mark: "isDigit c \<Longrightarrow> c \<noteq> CHR ''['' \<and> c \<noteq> CHR ''{'' \<and> c \<noteq> CHR 0x22 \<and> c \<noteq> CHR '']''"
  by (auto simp: isDigit_def code_def)

lemma digit_words [simp]: "\<not> isDigit (CHR ''t'')" "\<not> isDigit (CHR ''f'')" "\<not> isDigit (CHR ''n'')"
  by (simp_all add: isDigit_def code_def)

text \<open>The printed form of a literal is scanned as that literal, with what follows left over.\<close>

lemma print_literal_scan:
  assumes "printable (JLit l)" "stops r"
  obtains c t where "print_literal l @ r = c # t" "\<not> isSpace c" "c \<noteq> CHR ''[''" "c \<noteq> CHR ''{''" "c \<noteq> CHR '']''"
    "scan_literal c t = Inr (l, r)"
proof (cases l)
  case (LString s)
  then have "scan_literal (CHR 0x22) (escape s @ CHR 0x22 # r) = Inr (l, r)"
    using assms(1) by (simp add: scan_literal_def scan_string_escape unquote_escape)
  then show thesis using that [of "CHR 0x22"] LString by (simp add: print_string_def)
next
  case (LNumber t)
  then have ok: "number_ok t" using assms(1) by simp
  then obtain c u where c: "t = c # u" "c = CHR ''-'' \<or> isDigit c" by (rule number_ok_start)
  have s: "scan_number (c # u @ r) = Inr (t, r)" using number_ok_append [OF ok assms(2)] c(1) by simp
  have m: "c \<noteq> CHR 0x22" "\<not> isSpace c" "c \<noteq> CHR ''[''" "c \<noteq> CHR ''{''" "c \<noteq> CHR '']''"
    using c(2) digit_not_space [of c] digit_not_mark [of c] by auto
  have "scan_literal c (u @ r) = Inr (l, r)"
    unfolding scan_literal_def if_not_P [OF m(1)] if_P [OF c(2)] using s LNumber by simp
  then show thesis using that [of c "u @ r"] m c LNumber by simp
next
  case (LBool b)
  show thesis
    by (rule that [of "if b then CHR ''t'' else CHR ''f''" "(if b then ''rue'' else ''alse'') @ r"])
      (use LBool in \<open>auto simp: scan_literal_def\<close>)
next
  case LNull
  show thesis
    by (rule that [of "CHR ''n''" "''ull'' @ r"]) (use LNull in \<open>auto simp: scan_literal_def\<close>)
qed

text \<open>
  \<open>reads_as t v\<close>: the text \<open>t\<close>, which may start with white space, is read as the value \<open>v\<close>
  wherever it stands, and as nothing when \<open>v\<close> is \<open>None\<close>. \<open>reads_member\<close> says the same of the member
  of an object. Both hold for every way to set white space around the tokens.
\<close>

definition reads_as :: "string \<Rightarrow> json option \<Rightarrow> bool" where
  "reads_as t v \<longleftrightarrow> (\<exists>c u. ws t = c # u \<and> c \<noteq> CHR '']'') \<and>
     (\<forall>r j. stops r \<longrightarrow> 2 * length (t @ r) < j \<longrightarrow> parse_value j (t @ r) = map_option (\<lambda>x. (x, r)) v)"

definition reads_member :: "string \<Rightarrow> string \<times> json option \<Rightarrow> bool" where
  "reads_member t m \<longleftrightarrow> (\<exists>w raw u. t = w @ CHR 0x22 # raw @ CHR 0x22 # CHR '':'' # u \<and> list_all isSpace w \<and>
     (\<forall>z. scan_string (raw @ CHR 0x22 # z) = Inr (raw, z)) \<and> unquote raw = fst m \<and> reads_as u (snd m))"

definition member :: "string \<times> json option \<Rightarrow> (string \<times> json) option" where
  "member m = map_option (Pair (fst m)) (snd m)"

lemma those_Some: "those (map Some xs) = Some xs"
  by (induction xs) simp_all

lemma ws_pad: "list_all isSpace w \<Longrightarrow> ws (w @ s) = ws s"
  by (induction w) (simp_all add: ws_def)

lemma ws_append: "ws t = c # u \<Longrightarrow> ws (t @ r) = c # u @ r"
  by (induction t) (auto simp: ws_def split: if_splits)

lemma parse_value_ws: "ws s = ws t \<Longrightarrow> parse_value k s = parse_value k t"
  by (cases k) simp_all

lemma reads_asD:
  "reads_as t v \<Longrightarrow> stops r \<Longrightarrow> 2 * length (t @ r) < j \<Longrightarrow> parse_value j (t @ r) = map_option (\<lambda>x. (x, r)) v"
  by (simp add: reads_as_def)

lemma reads_as_start:
  assumes "reads_as t v"
  obtains c u where "ws (t @ r) = c # u" "c \<noteq> CHR '']''"
  using assms ws_append unfolding reads_as_def by blast

lemma reads_as_nonempty: "reads_as t v \<Longrightarrow> 0 < length t"
  by (cases t) (auto simp: reads_as_def ws_def)

lemma reads_as_pad:
  assumes "list_all isSpace w" "reads_as t v"
  shows "reads_as (w @ t) v"
  unfolding reads_as_def
proof (intro conjI allI impI)
  show "\<exists>c u. ws (w @ t) = c # u \<and> c \<noteq> CHR '']''" using assms by (simp add: ws_pad reads_as_def)
next
  fix r j assume "stops r" "2 * length ((w @ t) @ r) < j"
  then have "parse_value j (t @ r) = map_option (\<lambda>x. (x, r)) v" by (intro reads_asD [OF assms(2)]) simp_all
  then show "parse_value j ((w @ t) @ r) = map_option (\<lambda>x. (x, r)) v"
    using parse_value_ws [of "w @ t @ r" "t @ r" j] ws_pad [OF assms(1), of "t @ r"] by simp
qed

text \<open>A text that starts with neither bracket is read as what the scanner makes of it.\<close>

lemma reads_scalar:
  assumes t: "t = c # u" "\<not> isSpace c" "c \<notin> set ''[{]''"
    and scan: "\<And>r. stops r \<Longrightarrow>
      (case scan_literal c (u @ r) of Inl _ \<Rightarrow> None | Inr (l, z) \<Rightarrow> Some (JLit l, z)) = map_option (\<lambda>x. (x, r)) v"
  shows "reads_as t v"
  unfolding reads_as_def
proof (intro conjI allI impI)
  show "\<exists>c u. ws t = c # u \<and> c \<noteq> CHR '']''" using t by (simp add: ws_token)
next
  fix r j assume r: "stops r" "2 * length (t @ r) < j"
  then obtain k where "j = Suc k" by (cases j) auto
  then show "parse_value j (t @ r) = map_option (\<lambda>x. (x, r)) v" using t scan [OF r(1)] by (simp add: ws_token)
qed

definition tail :: "string list \<Rightarrow> string" where
  "tail xs = concat (map (\<lambda>x. CHR '','' # x) xs)"

lemma tail_simps [simp]: "tail [] = []" "tail (x # xs) = CHR '','' # x @ tail xs"
  by (simp_all add: tail_def)

lemma join_Cons: "join (x # xs) = x @ tail xs"
  by (induction xs arbitrary: x) simp_all

lemma stops_tail: "list_all isSpace w \<Longrightarrow> c = CHR '']'' \<or> c = CHR ''}'' \<Longrightarrow> stops (tail ts @ w @ c # r)"
  using stops_pad [of w "c # r"] by (cases ts) auto

lemma array_tail:
  assumes "list_all2 reads_as ts vs" "list_all isSpace w" "2 * length (tail ts @ w @ CHR '']'' # r) + 1 < j"
  shows "parse_array j False (tail ts @ w @ CHR '']'' # r) = map_option (\<lambda>x. (x, r)) (those vs)"
  using assms(1,3)
proof (induction arbitrary: j rule: list_all2_induct)
  case Nil
  then show ?case using assms(2) by (cases j) (simp_all add: ws_pad ws_token)
next
  case (Cons t ts v vs)
  let ?t = "tail ts @ w @ CHR '']'' # r"
  obtain k where j: "j = Suc k" using Cons.prems by (cases j) auto
  have "parse_value k (t @ ?t) = map_option (\<lambda>x. (x, ?t)) v"
    using Cons.prems j stops_tail [OF assms(2)] by (intro reads_asD [OF Cons.hyps(1)]) simp_all
  moreover have "parse_array k False ?t = map_option (\<lambda>x. (x, r)) (those vs)"
    using Cons.prems j by (intro Cons.IH) simp_all
  ultimately show ?case unfolding j by (cases v) (simp_all add: ws_token option.map_comp comp_def)
qed

lemma fuel_left: "2 * (a + b) + 1 < Suc k \<Longrightarrow> 0 < a \<Longrightarrow> 2 * b + 1 < (k :: nat)"
  by simp

lemma array_all:
  assumes "list_all2 reads_as ts vs" "list_all isSpace w" "2 * length (join ts @ w @ CHR '']'' # r) + 1 < j"
  shows "parse_array j True (join ts @ w @ CHR '']'' # r) = map_option (\<lambda>x. (x, r)) (those vs)"
proof (cases ts)
  case Nil
  then show ?thesis using assms by (cases j) (simp_all add: ws_pad ws_token)
next
  case (Cons t us)
  then obtain v vs' where vs: "vs = v # vs'" "reads_as t v" "list_all2 reads_as us vs'"
    using assms(1) by (cases vs) auto
  let ?t = "tail us @ w @ CHR '']'' # r"
  have shown: "join ts @ w @ CHR '']'' # r = t @ ?t" using Cons by (simp add: join_Cons)
  obtain k where j: "j = Suc k" using assms(3) by (cases j) auto
  have st: "stops ?t" using stops_tail [OF assms(2)] by simp
  have l: "2 * length (t @ ?t) + 1 < j" using assms(3) unfolding shown .
  obtain c u where c: "ws (t @ ?t) = c # u" "c \<noteq> CHR '']''" using vs(2) by (rule reads_as_start)
  have "parse_value k (t @ ?t) = map_option (\<lambda>x. (x, ?t)) v" using l j by (intro reads_asD [OF vs(2) st]) simp
  moreover have "parse_value k (c # u) = parse_value k (t @ ?t)"
    using c(1) by (intro parse_value_ws) (metis ws_idem)
  moreover have "parse_array k False ?t = map_option (\<lambda>x. (x, r)) (those vs')"
    using l [unfolded j length_append [of t]] reads_as_nonempty [OF vs(2)]
    by (intro array_tail [OF vs(3) assms(2)]) (rule fuel_left)
  ultimately show ?thesis
    unfolding shown j using c vs(1) by (cases v) (simp_all add: option.map_comp comp_def)
qed

lemma reads_array:
  assumes "list_all2 reads_as ts vs" "list_all isSpace w"
  shows "reads_as (CHR ''['' # join ts @ w @ '']'') (map_option JArray (those vs))"
  unfolding reads_as_def
proof (intro conjI allI impI)
  show "\<exists>c u. ws (CHR ''['' # join ts @ w @ '']'') = c # u \<and> c \<noteq> CHR '']''" by (simp add: ws_token)
next
  fix r j assume "2 * length ((CHR ''['' # join ts @ w @ '']'') @ r) < j"
  then obtain k where j: "j = Suc k" "2 * length (join ts @ w @ CHR '']'' # r) + 1 < k" by (cases j) auto
  then show "parse_value j ((CHR ''['' # join ts @ w @ '']'') @ r) = map_option (\<lambda>x. (x, r)) (map_option JArray (those vs))"
    using array_all [OF assms j(2)] by (simp add: ws_token option.map_comp comp_def)
qed

lemma reads_memberE:
  assumes "reads_member t m" "stops r" "2 * length (t @ r) < k"
  obtains z raw y where "ws (t @ r) = CHR 0x22 # z" "scan_string z = Inr (raw, CHR '':'' # y)"
    "parse_value k y = map_option (\<lambda>x. (x, r)) (snd m)" "unquote raw = fst m"
proof -
  obtain w raw u where t: "t = w @ CHR 0x22 # raw @ CHR 0x22 # CHR '':'' # u" "list_all isSpace w"
    "\<And>z. scan_string (raw @ CHR 0x22 # z) = Inr (raw, z)" "unquote raw = fst m" "reads_as u (snd m)"
    using assms(1) unfolding reads_member_def by blast
  have "parse_value k (u @ r) = map_option (\<lambda>x. (x, r)) (snd m)"
    using assms(3) t(1) by (intro reads_asD [OF t(5) assms(2)]) simp
  moreover have "ws (t @ r) = CHR 0x22 # raw @ CHR 0x22 # CHR '':'' # u @ r"
    using ws_pad [OF t(2)] by (simp add: t(1) ws_token)
  ultimately show thesis using that t(3,4) by blast
qed

lemma object_tail:
  assumes "list_all2 reads_member ts ms" "list_all isSpace w" "2 * length (tail ts @ w @ CHR ''}'' # r) + 1 < j"
  shows "parse_object j False (tail ts @ w @ CHR ''}'' # r) = map_option (\<lambda>x. (x, r)) (those (map member ms))"
  using assms(1,3)
proof (induction arbitrary: j rule: list_all2_induct)
  case Nil
  then show ?case using assms(2) by (cases j) (simp_all add: ws_pad ws_token)
next
  case (Cons t ts m ms)
  let ?t = "tail ts @ w @ CHR ''}'' # r"
  obtain k where j: "j = Suc k" using Cons.prems by (cases j) auto
  have "stops ?t" "2 * length (t @ ?t) < k" using Cons.prems j stops_tail [OF assms(2)] by simp_all
  with Cons.hyps(1) obtain z raw y where z: "ws (t @ ?t) = CHR 0x22 # z" "scan_string z = Inr (raw, CHR '':'' # y)"
    "parse_value k y = map_option (\<lambda>x. (x, ?t)) (snd m)" "unquote raw = fst m" by (rule reads_memberE)
  have "parse_object k False ?t = map_option (\<lambda>x. (x, r)) (those (map member ms))"
    using Cons.prems j by (intro Cons.IH) simp_all
  then show ?case
    unfolding j using z by (cases "snd m") (simp_all add: ws_token member_def [of m] option.map_comp comp_def)
qed

lemma object_all:
  assumes "list_all2 reads_member ts ms" "list_all isSpace w" "2 * length (join ts @ w @ CHR ''}'' # r) + 1 < j"
  shows "parse_object j True (join ts @ w @ CHR ''}'' # r) = map_option (\<lambda>x. (x, r)) (those (map member ms))"
proof (cases ts)
  case Nil
  then show ?thesis using assms by (cases j) (simp_all add: ws_pad ws_token)
next
  case (Cons t us)
  then obtain m ms' where ms: "ms = m # ms'" "reads_member t m" "list_all2 reads_member us ms'"
    using assms(1) by (cases ms) auto
  let ?t = "tail us @ w @ CHR ''}'' # r"
  have shown: "join ts @ w @ CHR ''}'' # r = t @ ?t" using Cons by (simp add: join_Cons)
  obtain k where j: "j = Suc k" using assms(3) by (cases j) auto
  have l: "2 * length (t @ ?t) + 1 < j" using assms(3) unfolding shown .
  have st: "stops ?t" using stops_tail [OF assms(2)] by simp
  from ms(2) st obtain z raw y where z: "ws (t @ ?t) = CHR 0x22 # z" "scan_string z = Inr (raw, CHR '':'' # y)"
    "parse_value k y = map_option (\<lambda>x. (x, ?t)) (snd m)" "unquote raw = fst m"
    by (rule reads_memberE) (use l j in simp)
  have "0 < length t" using ms(2) by (auto simp: reads_member_def)
  then have "parse_object k False ?t = map_option (\<lambda>x. (x, r)) (those (map member ms'))"
    using l [unfolded j length_append [of t]] by (intro object_tail [OF ms(3) assms(2)]) (rule fuel_left)
  then show ?thesis
    unfolding shown j using z ms(1) by (cases "snd m") (simp_all add: ws_token member_def [of m] option.map_comp comp_def)
qed

text \<open>An object ends with its brace, so anything may stand behind it.\<close>

lemma object_text:
  assumes "list_all2 reads_member ts ms" "list_all isSpace w" "2 * length ((CHR ''{'' # join ts @ w @ ''}'') @ r) < j"
  shows "parse_value j ((CHR ''{'' # join ts @ w @ ''}'') @ r) = map_option (\<lambda>x. (JObject x, r)) (those (map member ms))"
proof -
  obtain k where j: "j = Suc k" "2 * length (join ts @ w @ CHR ''}'' # r) + 1 < k" using assms(3) by (cases j) auto
  then show ?thesis using object_all [OF assms(1,2) j(2)] by (simp add: ws_token option.map_comp comp_def)
qed

lemma reads_object:
  assumes "list_all2 reads_member ts ms" "list_all isSpace w"
  shows "reads_as (CHR ''{'' # join ts @ w @ ''}'') (map_option JObject (those (map member ms)))"
  unfolding reads_as_def using object_text [OF assms] by (simp add: ws_token option.map_comp comp_def)

text \<open>A text that is read as a value, or as none, on its own.\<close>

lemma parse_reads:
  assumes "reads_as t v"
  shows "parse_json t = v"
proof -
  have "stops []" "2 * length (t @ []) < fuel t" by (simp_all add: fuel_def)
  from reads_asD [OF assms this] show ?thesis by (cases v) (simp_all add: parse_json_def ws_def)
qed

subsection \<open>What Go prints\<close>

lemma printed_member:
  assumes "utf8 k" "reads_as (print_json v) (Some v)"
  shows "reads_member (print_string k @ CHR '':'' # print_json v) (k, Some v)"
  unfolding reads_member_def
  by (intro exI [of _ "[]"] exI [of _ "escape k"] exI [of _ "print_json v"])
    (use assms in \<open>simp add: print_string_def scan_string_escape unquote_escape\<close>)

lemma printed_members:
  assumes "\<forall>(k, v)\<in>set ms. utf8 k \<and> reads_as (print_json v) (Some v)"
  shows "list_all2 reads_member (map (\<lambda>(k, v). print_string k @ CHR '':'' # print_json v) ms) (map (\<lambda>(k, v). (k, Some v)) ms)"
  using assms printed_member by (auto simp: list_all2_map1 list_all2_map2 list_all2_same)

lemma those_printed: "those (map member (map (\<lambda>(k, v). (k, Some v)) ms)) = Some ms"
  by (induction ms) (auto simp: member_def)

lemma printable_literal:
  assumes "printable (JLit l)"
  shows "reads_as (print_literal l) (Some (JLit l))"
proof -
  have "stops []" by simp
  with assms obtain c u where c: "print_literal l @ [] = c # u" "\<not> isSpace c" "c \<noteq> CHR ''[''" "c \<noteq> CHR ''{''" "c \<noteq> CHR '']''"
    "scan_literal c u = Inr (l, [])" by (rule print_literal_scan)
  have "scan_literal c (u @ r) = Inr (l, r)" if "stops r" for r
    using assms that by (rule print_literal_scan) (use c in auto)
  then show ?thesis using c by (intro reads_scalar [of _ c u]) simp_all
qed

lemma printable_reads: "printable v \<Longrightarrow> reads_as (print_json v) (Some v)"
proof (induction v)
  case (JLit l)
  then show ?case using printable_literal by simp
next
  case (JArray vs)
  then have "list_all2 reads_as (map print_json vs) (map Some vs)"
    by (simp add: list_all2_map1 list_all2_map2 list_all2_same list_all_iff)
  then show ?case using reads_array [of _ "map Some vs" "[]"] by (simp add: those_Some)
next
  case (JObject ms)
  then have "\<forall>(k, v)\<in>set ms. utf8 k \<and> reads_as (print_json v) (Some v)" by (force simp: list_all_iff)
  from reads_object [OF printed_members [OF this], of "[]"] show ?case by (simp add: those_printed del: map_map)
qed

lemma parse_printed_object:
  assumes "printable (JObject ms)" "2 * length (print_json (JObject ms) @ r) < j"
  shows "parse_value j (print_json (JObject ms) @ r) = Some (JObject ms, r)"
proof -
  have "\<forall>(k, v)\<in>set ms. utf8 k \<and> reads_as (print_json v) (Some v)"
    using assms(1) printable_reads by (auto simp: list_all_iff)
  from object_text [OF printed_members [OF this], of "[]" r j] assms(2) show ?thesis
    by (simp add: those_printed del: map_map)
qed

lemma parse_value_print:
  assumes "printable v" "stops r"
  shows "parse_value (fuel (print_json v @ r)) (print_json v @ r) = Some (v, r)"
proof -
  have "2 * length (print_json v @ r) < fuel (print_json v @ r)" by (simp add: fuel_def)
  then show ?thesis using reads_asD [OF printable_reads [OF assms(1)] assms(2)] by simp
qed

lemma parse_print: "printable v \<Longrightarrow> parse_json (print_json v) = Some v"
  by (rule parse_reads [OF printable_reads])

section \<open>Text that is cut short\<close>

text \<open>More text behind a complete value does not change how it is parsed.\<close>

lemma scan_hex_append: "scan_hex k s = Inr (h, z) \<Longrightarrow> scan_hex k (s @ q) = Inr (h, z @ q)"
  by (induction k s arbitrary: h rule: scan_hex.induct) (auto split: if_splits sum.splits)

lemma scan_string_append: "scan_string s = Inr (t, z) \<Longrightarrow> scan_string (s @ q) = Inr (t, z @ q)"
proof (induction "length s" arbitrary: s t rule: less_induct)
  case less
  show ?case
  proof (cases s)
    case Nil
    then show ?thesis using less.prems by (simp add: scan_string.simps)
  next
    case (Cons c r)
    have IH: "scan_string (y @ q) = Inr (u, z @ q)" if "scan_string y = Inr (u, z)" "length y < length s" for y u
      using less.hyps that by blast
    note u = scan_string.simps [of "c # r"] scan_string.simps [of "c # r @ q"]
    consider "c = CHR 0x22" | "c = CHR 0x5C" | "c \<noteq> CHR 0x22" "c \<noteq> CHR 0x5C" by blast
    then show ?thesis
    proof cases
      case 1
      then show ?thesis using less.prems Cons u by simp
    next
      case 2
      then obtain e r' where r: "r = e # r'" using less.prems Cons u(1) by (cases r) auto
      show ?thesis
      proof (cases "e \<in> set ''bfnrt/'' \<or> e = CHR 0x5C \<or> e = CHR 0x22")
        case True
        from scan_string_short [OF True, of r'] scan_string_short [OF True, of "r' @ q"]
        show ?thesis using less.prems Cons r 2 IH [of r'] by (auto split: sum.splits)
      next
        case False
        then have e: "e = CHR ''u''" using less.prems Cons r 2 u(1) by (auto split: if_splits)
        have v: "scan_string (c # e # y) = (case scan_hex 4 y of Inl x \<Rightarrow> Inl x | Inr (h, w) \<Rightarrow>
            (case scan_string w of Inl x \<Rightarrow> Inl x | Inr (t, z) \<Rightarrow> Inr (c # e # h @ t, z)))" for y
          unfolding 2 e using scan_string.simps [of "CHR 0x5C # CHR ''u'' # y"] by simp
        obtain h w where h: "scan_hex 4 r' = Inr (h, w)" using less.prems Cons r v [of r'] by (auto split: sum.splits)
        have "length w < length s" using scan_hex_shorter [OF h] Cons r by simp
        then show ?thesis
          using less.prems Cons r v [of r'] v [of "r' @ q"] h scan_hex_append [OF h, of q] IH [of w] by (auto split: sum.splits)
      qed
    next
      case 3
      then show ?thesis using less.prems Cons u IH [of r] by (auto split: if_splits sum.splits)
    qed
  qed
qed

lemma digits1_more: "digits1 ctx s = Inr (d, z) \<Longrightarrow> z \<noteq> [] \<Longrightarrow> digits1 ctx (s @ q) = Inr (d, z @ q)"
proof -
  assume d: "digits1 ctx s = Inr (d, z)" and z: "z \<noteq> []"
  then have "\<exists>x\<in>set s. \<not> isDigit x"
    by (auto simp: digits1_def dropWhile_eq_Nil_conv split: list.splits if_splits)
  then obtain x where x: "x \<in> set s" "\<not> isDigit x" by blast
  have w: "takeWhile isDigit (s @ q) = takeWhile isDigit s" "dropWhile isDigit (s @ q) = dropWhile isDigit s @ q"
    using x by (simp_all add: takeWhile_append1 dropWhile_append1)
  obtain c r where s: "s = c # r" using x by (cases s) auto
  then have "isDigit c" "d = takeWhile isDigit s" "z = dropWhile isDigit s"
    using d by (auto simp: digits1_def split: if_splits)
  then show ?thesis using w s by (simp add: digits1_def)
qed

lemma scan_int_more: "scan_int s = Inr (d, z) \<Longrightarrow> z \<noteq> [] \<Longrightarrow> scan_int (s @ q) = Inr (d, z @ q)"
  using digits1_more [of _ s d z q] by (cases s) (auto simp: scan_int_def split: if_splits)

lemma scan_frac_more: "scan_frac s = Inr (d, z) \<Longrightarrow> z \<noteq> [] \<Longrightarrow> scan_frac (s @ q) = Inr (d, z @ q)"
  by (cases s) (auto simp: scan_frac_def digits1_more split: if_splits sum.splits)

lemma scan_exp_more: "scan_exp s = Inr (d, z) \<Longrightarrow> z \<noteq> [] \<Longrightarrow> scan_exp (s @ q) = Inr (d, z @ q)"
proof -
  assume a: "scan_exp s = Inr (d, z)" "z \<noteq> []"
  show ?thesis
  proof (cases s)
    case Nil
    then show ?thesis using a by (simp add: scan_exp_def)
  next
    case (Cons c t)
    show ?thesis
    proof (cases t)
      case Nil
      then show ?thesis using a Cons by (auto simp: scan_exp_def digits1_def split: if_splits)
    next
      case (Cons g u)
      then show ?thesis using a \<open>s = c # t\<close> digits1_more [of _ t _ z q]
        by (auto simp: scan_exp_def digits1_more split: if_splits sum.splits)
    qed
  qed
qed

lemma scan_number_more:
  assumes "scan_number s = Inr (t, z)" "z \<noteq> []"
  shows "scan_number (s @ q) = Inr (t, z @ q)"
proof -
  let ?sg = "\<lambda>s. case s of [] \<Rightarrow> ([], s) | c # z \<Rightarrow> if c = CHR ''-'' then ([c], z) else ([], s)"
  obtain sg u where sg: "?sg s = (sg, u)" by (cases "?sg s")
  obtain i a f b x where i: "scan_int u = Inr (i, a)" and f: "scan_frac a = Inr (f, b)"
    and x: "scan_exp b = Inr (x, z)" and t: "t = sg @ i @ f @ x"
    using assms(1) unfolding scan_number_def sg by (auto split: sum.splits)
  have b: "b \<noteq> []" using x assms(2) by (auto simp: scan_exp_def)
  then have a: "a \<noteq> []" using f by (auto simp: scan_frac_def)
  have "u \<noteq> []" using i by (auto simp: scan_int_def)
  then have "?sg (s @ q) = (sg, u @ q)" using sg by (cases s) (auto split: if_splits)
  then show ?thesis
    unfolding scan_number_def t
    using scan_int_more [OF i a] scan_frac_more [OF f b] scan_exp_more [OF x assms(2)] by simp
qed

lemma scan_word_append: "scan_word n w s = Inr z \<Longrightarrow> scan_word n w (s @ q) = Inr (z @ q)"
  by (induction n w s rule: scan_word.induct) (auto split: if_splits)

lemma word_more:
  "map_sum (\<lambda>e. e) (\<lambda>z. (x, z)) (scan_word n w r) = Inr (l, z) \<Longrightarrow>
   map_sum (\<lambda>e. e) (\<lambda>z. (x, z)) (scan_word n w (r @ q)) = Inr (l, z @ q)"
  by (cases "scan_word n w r") (auto simp: scan_word_append)

lemma scan_literal_more:
  assumes "scan_literal c r = Inr (l, z)" "z \<noteq> []"
  shows "scan_literal c (r @ q) = Inr (l, z @ q)"
proof -
  consider "c = CHR 0x22" | "c \<noteq> CHR 0x22" "c = CHR ''-'' \<or> isDigit c"
    | "c \<noteq> CHR 0x22" "\<not> (c = CHR ''-'' \<or> isDigit c)" by blast
  then show ?thesis
  proof cases
    case 1
    then show ?thesis
      using assms(1) scan_string_append [of r _ z q] by (auto simp: scan_literal_def split: sum.splits)
  next
    case 2
    have lit: "scan_literal c y = (case scan_number (c # y) of Inl e \<Rightarrow> Inl e | Inr (t, z) \<Rightarrow> Inr (LNumber t, z))" for y
      using 2 by (simp only: scan_literal_def if_True if_False)
    obtain t where "scan_number (c # r) = Inr (t, z)" "l = LNumber t"
      using assms(1) unfolding lit by (auto split: sum.splits)
    then show ?thesis using scan_number_more [of "c # r" t z q] assms(2) unfolding lit by simp
  next
    case 3
    have lit: "scan_literal c y =
        (if c = CHR ''t'' then map_sum (\<lambda>e. e) (\<lambda>z. (LBool True, z)) (scan_word ''true'' ''rue'' y)
         else if c = CHR ''f'' then map_sum (\<lambda>e. e) (\<lambda>z. (LBool False, z)) (scan_word ''false'' ''alse'' y)
         else if c = CHR ''n'' then map_sum (\<lambda>e. e) (\<lambda>z. (LNull, z)) (scan_word ''null'' ''ull'' y)
         else Inl (InvalidChar c ''looking for beginning of value''))" for y
      using 3 by (simp only: scan_literal_def if_False)
    consider "c = CHR ''t''" | "c = CHR ''f''" | "c = CHR ''n''" using assms(1) unfolding lit by (metis Inl_Inr_False)
    then show ?thesis
      using assms(1) unfolding lit by cases (simp_all add: word_more)
  qed
qed

lemma parse_append:
  "(parse_value k s = Some (v, z) \<longrightarrow> z \<noteq> [] \<or> \<not> is_literal v \<longrightarrow> parse_value k (s @ q) = Some (v, z @ q)) \<and>
   (parse_array k fst_elem s = Some (vs, z) \<longrightarrow> parse_array k fst_elem (s @ q) = Some (vs, z @ q)) \<and>
   (parse_object k fst_elem s = Some (ms, z) \<longrightarrow> parse_object k fst_elem (s @ q) = Some (ms, z @ q))"
proof (induction k arbitrary: s v vs ms z fst_elem)
  case (Suc k)
  note IH = Suc [THEN conjunct1, rule_format] Suc [THEN conjunct2, THEN conjunct1, rule_format]
    Suc [THEN conjunct2, THEN conjunct2, rule_format]
  have v: "parse_value (Suc k) (s @ q) = Some (v, z @ q)" if p: "parse_value (Suc k) s = Some (v, z)" "z \<noteq> [] \<or> \<not> is_literal v"
  proof (cases "ws s")
    case (Cons c r)
    then show ?thesis
      using p ws_append [OF Cons, of q] scan_literal_more [of c r _ z q] IH(2) [of True r _ z] IH(3) [of True r _ z]
      by (auto split: if_splits sum.splits)
  qed (use p in simp)
  have a: "parse_array (Suc k) fst_elem (s @ q) = Some (vs, z @ q)" if p: "parse_array (Suc k) fst_elem s = Some (vs, z)"
  proof (cases "ws s")
    case (Cons c r)
    show ?thesis
    proof (cases "c = CHR '']''")
      case True
      then show ?thesis using p Cons ws_append [OF Cons, of q] by simp
    next
      case False
      let ?t = "if fst_elem then c # r else r"
      obtain u y us where st: "fst_elem \<or> c = CHR '',''" "parse_value k ?t = Some (u, y)" "parse_array k False y = Some (us, z)" "vs = u # us"
        using p Cons False by (auto split: if_splits option.splits)
      have "y \<noteq> []" using st(3) by (cases k) (auto simp: ws_def)
      then have "parse_value k (?t @ q) = Some (u, y @ q)" "parse_array k False (y @ q) = Some (us, z @ q)"
        using IH(1) [OF st(2)] IH(2) [OF st(3)] by blast+
      moreover have "?t @ q = (if fst_elem then c # r @ q else r @ q)" by simp
      ultimately show ?thesis using st ws_append [OF Cons, of q] False by auto
    qed
  qed (use p in simp)
  have o: "parse_object (Suc k) fst_elem (s @ q) = Some (ms, z @ q)" if p: "parse_object (Suc k) fst_elem s = Some (ms, z)"
  proof (cases "ws s")
    case (Cons c r)
    show ?thesis
    proof (cases "c = CHR ''}''")
      case True
      then show ?thesis using p Cons ws_append [OF Cons, of q] by simp
    next
      case False
      let ?t = "if fst_elem then c # r else ws r"
      obtain b t' e y u y' us where st: "fst_elem \<or> c = CHR '',''" "?t = CHR 0x22 # b" "scan_string b = Inr (t', e)"
        "ws e = CHR '':'' # y" "parse_value k y = Some (u, y')" "parse_object k False y' = Some (us, z)" "ms = (unquote t', u) # us"
        using p Cons False by (auto split: if_splits list.splits sum.splits option.splits)
      have "y' \<noteq> []" using st(6) by (cases k) (auto simp: ws_def)
      then have ih: "parse_value k (y @ q) = Some (u, y' @ q)" "parse_object k False (y' @ q) = Some (us, z @ q)"
        using IH(1) [OF st(5)] IH(3) [OF st(6)] by blast+
      have "(if fst_elem then c # r @ q else ws (r @ q)) = CHR 0x22 # b @ q"
        using st(2) ws_append [of r "CHR 0x22" b q] by (auto split: if_splits)
      then show ?thesis
        using st(1,7) ws_append [OF Cons, of q] False scan_string_append [OF st(3), of q] ws_append [OF st(4), of q] ih by auto
    qed
  qed (use p in simp)
  show ?case using v a o by blast
qed simp

text \<open>A printed object is not complete before its last byte.\<close>

lemma object_cut_short:
  assumes "printable (JObject ms)" "n < length (print_json (JObject ms))" "complete s = False"
    "delivered s = take n (print_json (JObject ms))"
  shows "read_value s = None"
proof (rule ccontr)
  let ?t = "print_json (JObject ms)" and ?p = "take n (print_json (JObject ms))"
  assume "read_value s \<noteq> None"
  then obtain v r where v: "parse_value (fuel ?p) ?p = Some (v, r)" "\<not> (is_literal v \<and> r = [])"
    using assms(3,4) by (auto simp: read_value_def split: option.splits if_splits)
  then have "parse_value (fuel ?p) (?p @ drop n ?t) = Some (v, r @ drop n ?t)"
    using parse_append [THEN conjunct1, rule_format, OF v(1)] by blast
  then have "parse_value (fuel ?t) ?t = Some (v, r @ drop n ?t)" using parse_value_fuel by simp
  moreover have "parse_value (fuel ?t) ?t = Some (JObject ms, [])" using parse_value_print [OF assms(1), of "[]"] by simp
  ultimately show False using assms(2) by simp
qed

end
