(* ===== verification/Media_Type.thy ===== *)
theory Media_Type
  imports Json_Decode
begin

text \<open>
  What the HTTP interfaces use of Go's packages strings and mime: white space, case, and the parser of
  a content type.
\<close>

section \<open>Media types\<close>

text \<open>
  \<open>mime.ParseMediaType\<close>: a type in lower case, then parameters, each a name and a token or a
  quoted string. A malformed or repeated parameter is an error; a lone semicolon at the
  end is not.
\<close>

definition isTokenChar :: "char \<Rightarrow> bool" where
  "isTokenChar c \<longleftrightarrow> 32 < code c \<and> code c < 127 \<and> c \<notin> set ''()<>@,;:/[]?='' \<and> c \<noteq> CHR 0x22 \<and> c \<noteq> CHR 0x5C"

definition lower :: "char \<Rightarrow> char" where
  "lower c = (if 65 \<le> code c \<and> code c \<le> 90 then char_of (code c + 32) else c)"

text \<open>
  \<open>strings.ToLower\<close>, as far as its result can be an ASCII letter: the capital I with a dot and
  the Kelvin sign are the two runes beyond ASCII with an ASCII lower case.
\<close>

function to_lower :: "string \<Rightarrow> string" where
  "to_lower s =
     (case s of
        [] \<Rightarrow> []
      | c # r \<Rightarrow>
          if take 2 s = [CHR 0xC4, CHR 0xB0] then CHR ''i'' # to_lower (drop 2 s)
          else if take 3 s = [CHR 0xE2, CHR 0x84, CHR 0xAA] then CHR ''k'' # to_lower (drop 3 s)
          else lower c # to_lower r)"
  by pat_completeness auto
termination by (relation "measure length") auto

declare to_lower.simps [simp del]

text \<open>The length of the white space at the front, as \<open>unicode.IsSpace\<close> has it; 0 if there is none.\<close>

definition space_length :: "string \<Rightarrow> nat" where
  "space_length s =
     (case s of
        [] \<Rightarrow> 0
      | c # _ \<Rightarrow>
          if 9 \<le> code c \<and> code c \<le> 13 \<or> code c = 32 then 1
          else if take 2 s \<in> set [[CHR 0xC2, CHR 0x85], [CHR 0xC2, CHR 0xA0]] then 2
          else if take 3 s \<in> set [[CHR 0xE1, CHR 0x9A, CHR 0x80], [CHR 0xE2, CHR 0x80, CHR 0xA8],
                 [CHR 0xE2, CHR 0x80, CHR 0xA9], [CHR 0xE2, CHR 0x80, CHR 0xAF],
                 [CHR 0xE2, CHR 0x81, CHR 0x9F], [CHR 0xE3, CHR 0x80, CHR 0x80]]
             \<or> take 2 s = [CHR 0xE2, CHR 0x80] \<and> 2 < length s \<and> cont 128 138 (s ! 2) then 3
          else 0)"

function trim_left :: "string \<Rightarrow> string" where
  "trim_left s = (if space_length s = 0 \<or> s = [] then s else trim_left (drop (space_length s) s))"
  by pat_completeness auto
termination by (relation "measure length") auto

declare trim_left.simps [simp del]

fun trim_right :: "string \<Rightarrow> string" where
  "trim_right [] = []"
| "trim_right (c # r) = (if trim_left (c # r) = [] then [] else c # trim_right r)"

definition TrimSpace :: "string \<Rightarrow> string" where
  "TrimSpace s = trim_right (trim_left s)"

definition consumeToken :: "string \<Rightarrow> string \<times> string" where
  "consumeToken s = (takeWhile isTokenChar s, dropWhile isTokenChar s)"

definition isTSpecial :: "char \<Rightarrow> bool" where
  "isTSpecial c \<longleftrightarrow> c \<in> set ''()<>@,;:/[]?='' \<or> c = CHR 0x22 \<or> c = CHR 0x5C"

text \<open>
  A quoted string behind its opening quote: a backslash escapes a special character and
  stands for itself before any other. \<open>None\<close> when it is not closed.
\<close>

fun quoted :: "string \<Rightarrow> (string \<times> string) option" where
  "quoted [] = None"
| "quoted (c # r) =
     (if c = CHR 0x22 then Some ([], r)
      else case r of
        e # r' \<Rightarrow>
          if c = CHR 0x5C \<and> isTSpecial e then map_option (\<lambda>(t, z). (e # t, z)) (quoted r')
          else if c = CHR 0x0D \<or> c = CHR 0x0A then None
          else map_option (\<lambda>(t, z). (c # t, z)) (quoted r)
      | [] \<Rightarrow> None)"

definition consumeValue :: "string \<Rightarrow> string \<times> string" where
  "consumeValue v =
     (case v of
        [] \<Rightarrow> ([], [])
      | c # r \<Rightarrow>
          if c \<noteq> CHR 0x22 then consumeToken v
          else case quoted r of None \<Rightarrow> ([], v) | Some (t, z) \<Rightarrow> (t, z))"

text \<open>\<open>None\<close> is the empty name, with which the text is given back as it was.\<close>

definition consumeMediaParam :: "string \<Rightarrow> (string \<times> string \<times> string) option" where
  "consumeMediaParam v =
     (case trim_left v of
        [] \<Rightarrow> None
      | c # r \<Rightarrow>
          (let (param, r) = consumeToken (trim_left r)
           in if c \<noteq> CHR '';'' \<or> param = [] then None
              else (case trim_left r of
                      [] \<Rightarrow> None
                    | e # r \<Rightarrow>
                        (let (content, z) = consumeValue (trim_left r)
                         in if e \<noteq> CHR ''='' \<or> content = [] \<and> z = trim_left r then None
                            else Some (map lower param, content, z)))))"

lemma length_trim_left: "length (trim_left s) \<le> length s"
proof (induction s rule: trim_left.induct)
  case (1 s)
  then show ?case using trim_left.simps [of s] by (cases "space_length s = 0 \<or> s = []") auto
qed

lemma quoted_shorter: "quoted s = Some (t, z) \<Longrightarrow> length z < length s"
proof (induction "length s" arbitrary: s t rule: less_induct)
  case less
  show ?case
  proof (cases s)
    case (Cons c r)
    show ?thesis
    proof (cases "c = CHR 0x22 \<or> r = []")
      case False
      then obtain e u where r: "r = e # u" by (cases r) auto
      have IH: "length z < length x" if "quoted x = Some (y, z)" "length x < length s" for x y
        using less.hyps that by blast
      have q: "quoted s = (if c = CHR 0x5C \<and> isTSpecial e then map_option (\<lambda>(t, z). (e # t, z)) (quoted u)
          else if c = CHR 0x0D \<or> c = CHR 0x0A then None else map_option (\<lambda>(t, z). (c # t, z)) (quoted r))"
        unfolding Cons quoted.simps(2) [of c r] using False r by simp
      have "\<exists>f. quoted s = None \<or> quoted s = map_option (\<lambda>(t, z). (f # t, z)) (quoted u) \<or>
          quoted s = map_option (\<lambda>(t, z). (f # t, z)) (quoted r)"
        unfolding q by (cases "c = CHR 0x5C \<and> isTSpecial e"; cases "c = CHR 0x0D \<or> c = CHR 0x0A") (simp_all, blast+)
      then have "\<exists>y. quoted u = Some (y, z) \<or> quoted r = Some (y, z)"
        unfolding less.prems by (cases "quoted u"; cases "quoted r") (auto simp del: quoted.simps)
      then show ?thesis using IH [of u] IH [of r] Cons r by fastforce
    qed (use less.prems Cons in \<open>auto split: if_splits\<close>)
  qed (use less.prems in simp)
qed

lemma consumeValue_shorter: "consumeValue s = (t, z) \<Longrightarrow> length z \<le> length s"
  using length_dropWhile_le [of isTokenChar s]
  by (auto simp: consumeValue_def consumeToken_def simp del: dropWhile.simps
      split: list.splits if_splits option.splits dest: quoted_shorter)

lemma consumeMediaParam_shorter:
  assumes "consumeMediaParam v = Some (p, t, z)"
  shows "length z < length v"
proof -
  obtain c r where r: "trim_left v = c # r" using assms by (auto simp: consumeMediaParam_def split: list.splits)
  obtain e u where u: "trim_left (dropWhile isTokenChar (trim_left r)) = e # u" "\<exists>x. consumeValue (trim_left u) = (x, z)"
    using assms r by (auto simp: consumeMediaParam_def consumeToken_def split: list.splits if_splits prod.splits)
  have "length z \<le> length u" using u(2) consumeValue_shorter length_trim_left [of u] by fastforce
  also have "\<dots> < length (trim_left (dropWhile isTokenChar (trim_left r)))" using u(1) by simp
  also have "\<dots> \<le> length r"
    using length_trim_left [of r] length_trim_left [of "dropWhile isTokenChar (trim_left r)"]
      length_dropWhile_le [of isTokenChar "trim_left r"] by linarith
  also have "\<dots> < length v" using r length_trim_left [of v] by simp
  finally show ?thesis .
qed

function media_params :: "(string \<times> string) list \<Rightarrow> string \<Rightarrow> bool" where
  "media_params seen v =
     (if trim_left v = [] then True
      else case consumeMediaParam (trim_left v) of
        None \<Rightarrow> TrimSpace (trim_left v) = '';''
      | Some (param, content, z) \<Rightarrow>
          (case map_of seen param of
             Some old \<Rightarrow> if old \<noteq> content then False else media_params seen z
           | None \<Rightarrow> media_params ((param, content) # seen) z))"
  by pat_completeness auto
termination
  by (relation "measure (\<lambda>(seen, v). length v)")
    (auto dest!: consumeMediaParam_shorter intro: less_le_trans [OF _ length_trim_left])

declare media_params.simps [simp del]

definition checkMediaTypeDisposition :: "string \<Rightarrow> bool" where
  "checkMediaTypeDisposition s =
     (case consumeToken s of
        (typ, r) \<Rightarrow>
          typ \<noteq> [] \<and>
          (case r of
             [] \<Rightarrow> True
           | c # r \<Rightarrow>
               c = CHR ''/'' \<and> (case consumeToken r of (subtype, z) \<Rightarrow> subtype \<noteq> [] \<and> z = [])))"

definition ParseMediaType :: "string \<Rightarrow> string option" where
  "ParseMediaType v =
     (let base = takeWhile (\<lambda>c. c \<noteq> CHR '';'') v;
          mediatype = TrimSpace (to_lower base)
      in if checkMediaTypeDisposition mediatype \<and> media_params [] (dropWhile (\<lambda>c. c \<noteq> CHR '';'') v)
         then Some mediatype else None)"

end
