(* ===== verification/Http_Api.thy ===== *)
theory Http_Api
  imports Scoring Json_Encode Media_Type
begin

text \<open>
  The HTTP interface (internal/httpapi): the handler of \<open>POST /v1/score\<close>, the probes \<open>GET /healthz\<close>
  and \<open>GET /readyz\<close>, and the routes. A request is what \<open>net/http\<close> hands to a handler, a
  response what the handler writes. Parameters stand for the wording of texts: \<open>quote\<close> is the
  verb \<open>%q\<close>, \<open>wording\<close> the texts of the decoder's mismatches, \<open>formatFloat\<close> the digits in which a
  float64 is printed.
\<close>

section \<open>Requests and responses\<close>

text \<open>
  A request: its method, its path, its header \<open>Content-Type\<close> (empty when it has none), what its
  body delivers and, when reading the body fails, the text of that error.
\<close>

record Request =
  Method :: string
  Path :: string
  ContentType :: string
  Body :: stream
  ReadError :: string

record Response =
  Status :: nat
  Header :: string
  Data :: string

definition maxRequestBody :: nat where "maxRequestBody = 64 * 2 ^ 10"
definition maxTransactionID :: nat where "maxTransactionID = 128"

record scoreRequest =
  TransactionID :: string
  RequestFeatures :: "Features option"

record scoreMeta =
  MetaModelVersion :: string

record scoreResponse =
  ResponseTransactionID :: string
  ResponseScore :: float64
  Meta :: scoreMeta

record errorResponse =
  Error :: string

text \<open>
  The JSON value of a Go value; \<open>None\<close> when \<open>Marshal\<close> fails, which of these types only a float64
  that is not finite can make it do.
\<close>

definition marshal_score :: "(float64 \<Rightarrow> string) \<Rightarrow> scoreResponse \<Rightarrow> json option" where
  "marshal_score formatFloat x =
     (if isFinite (ResponseScore x)
      then Some (JObject
        [(''transaction_id'', JLit (LString (ResponseTransactionID x))),
         (''score'', JLit (LNumber (formatFloat (ResponseScore x)))),
         (''meta'', JObject [(''model_version'', JLit (LString (MetaModelVersion (Meta x))))])])
      else None)"

definition marshal_error :: "errorResponse \<Rightarrow> json option" where
  "marshal_error x = Some (JObject [(''error'', JLit (LString (Error x)))])"

definition marshal_status :: "string \<Rightarrow> json option" where
  "marshal_status s = Some (JObject [(''status'', JLit (LString s))])"

definition writeJSON :: "nat \<Rightarrow> json option \<Rightarrow> Response" where
  "writeJSON status content =
     (case content of
        None \<Rightarrow>
          \<lparr>Status = 500, Header = ''application/json'',
           Data = (case marshal_error \<lparr>Error = ''failed to serialize response''\<rparr> of
                     None \<Rightarrow> [] | Some v \<Rightarrow> print_json v)\<rparr>
      | Some v \<Rightarrow> \<lparr>Status = status, Header = ''application/json'', Data = print_json v\<rparr>)"

definition writeError :: "nat \<Rightarrow> string \<Rightarrow> Response" where
  "writeError status message = writeJSON status (marshal_error \<lparr>Error = message\<rparr>)"

definition requireJSON :: "Request \<Rightarrow> go_error" where
  "requireJSON r =
     (let contentType = ContentType r
      in if contentType = [] then Some ''Content-Type must be application/json''
         else if ParseMediaType contentType \<noteq> Some ''application/json''
           then Some ''Content-Type must be application/json''
         else None)"

section \<open>Decoding a request\<close>

text \<open>A JSON value in an interface variable; of a repeated key the last value counts.\<close>

fun to_any :: "json \<Rightarrow> any \<times> decode_error option" where
  "to_any (JLit LNull) = (ANull, None)"
| "to_any (JLit (LBool b)) = (ABool b, None)"
| "to_any (JLit (LString s)) = (AString s, None)"
| "to_any (JLit (LNumber t)) =
     (case ParseFloat t of
        Some x \<Rightarrow> (ANumber x, None)
      | None \<Rightarrow> (ANull, Some (TypeMismatch (''number '' @ t) ''float64'')))"
| "to_any (JArray vs) =
     (let rs = map to_any vs in (AArray (map fst rs), first_of (map snd rs)))"
| "to_any (JObject ms) =
     (let rs = map (\<lambda>(k, v). (k, to_any v)) ms
      in (AObject (fold (\<lambda>(k, x, e) m. AList.update k x m) rs []), first_of (map (\<lambda>(k, x, e). e) rs)))"

definition decode_features :: "Features option decoder" where
  "decode_features cur v =
     (case v of
        JLit LNull \<Rightarrow> (None, None)
      | JObject ms \<Rightarrow>
          (let rs = map (\<lambda>(k, v). (k, to_any v)) ms
           in (Some (fold (\<lambda>(k, x, e) m. AList.update k x m) rs (case cur of None \<Rightarrow> [] | Some m \<Rightarrow> m)),
               first_of (map (\<lambda>(k, x, e). e) rs)))
      | _ \<Rightarrow> (cur, mismatch v ''scoring.Features''))"

definition request_fields :: "(string \<times> scoreRequest decoder) list" where
  "request_fields =
     [(''transaction_id'', field TransactionID (\<lambda>x s. s\<lparr>TransactionID := x\<rparr>) decode_string),
      (''features'', field RequestFeatures (\<lambda>x s. s\<lparr>RequestFeatures := x\<rparr>) decode_features)]"

definition decode_request :: "scoreRequest decoder" where
  "decode_request = decode_struct True ''httpapi.scoreRequest'' request_fields"

section \<open>Handlers\<close>

text \<open>
  The handler of \<open>POST /v1/score\<close>. The service may panic on a nil model; \<open>net/http\<close> then drops the
  connection. Log lines are left out.
\<close>

definition scoreHandler ::
  "(string \<Rightarrow> string) \<Rightarrow> (string \<Rightarrow> decode_error \<Rightarrow> string) \<Rightarrow> (float64 \<Rightarrow> string) \<Rightarrow> (float64 \<Rightarrow> float64) \<Rightarrow> bool \<Rightarrow>
   int \<Rightarrow> Service \<Rightarrow> Request \<Rightarrow> (Response, unit) outcome" where
  "scoreHandler quote wording formatFloat Exp fused t service r =
     (case requireJSON r of
        Some err \<Rightarrow> Ok (writeError 415 err)
      | None \<Rightarrow>
          (let body = MaxBytesReader maxRequestBody (Body r)
           in if \<not> complete body then
                if maxRequestBody < length (delivered (Body r)) then Ok (writeError 413 ''request body too large'')
                else Ok (writeError 400 (''failed to read request body: '' @ ReadError r))
              else (case validateJSONStructure quote (delivered body) of
                Some err \<Rightarrow> Ok (writeError 400 err)
              | None \<Rightarrow>
                  (case Decode decode_request \<lparr>TransactionID = [], RequestFeatures = None\<rparr> body of
                     (req, Some err) \<Rightarrow> Ok (writeError 400 (''invalid JSON: '' @ wording (delivered body) err))
                   | (req, None) \<Rightarrow>
                       if TransactionID req = [] then Ok (writeError 400 ''transaction_id is required'')
                       else if maxTransactionID < length (TransactionID req)
                         then Ok (writeError 400 ''transaction_id is too long'')
                       else (case RequestFeatures req of
                         None \<Rightarrow> Ok (writeError 400 ''features is required'')
                       | Some features \<Rightarrow>
                           andThen (Service_Score quote Exp fused t service features) (\<lambda>result.
                             Ok (case result of
                                   Inl (Client e) \<Rightarrow> writeError 400 (ClientError_Error e)
                                 | Inl (Server e) \<Rightarrow> writeError 500 ''scoring failed''
                                 | Inr res \<Rightarrow>
                                     writeJSON 200 (marshal_score formatFloat
                                       \<lparr>ResponseTransactionID = TransactionID req, ResponseScore = Score res,
                                        Meta = \<lparr>MetaModelVersion = ModelVersion res\<rparr>\<rparr>))))))))"

text \<open>The probes. \<open>Encode\<close> writes a newline behind the value; \<open>Marshal\<close> does not.\<close>

definition healthHandler :: "Request \<Rightarrow> Response" where
  "healthHandler r =
     \<lparr>Status = 200, Header = ''application/json'',
      Data = (case marshal_status ''ok'' of None \<Rightarrow> [] | Some v \<Rightarrow> print_json v @ [CHR 0x0A])\<rparr>"

definition readyHandler :: "Service \<Rightarrow> Request \<Rightarrow> Response" where
  "readyHandler service r =
     (if Service_Ready service then writeJSON 200 (marshal_status ''ready'')
      else writeJSON 503 (marshal_status ''not_ready''))"

text \<open>
  The routes, for paths without dots and double slashes, which the mux would redirect: a pattern
  for GET also takes HEAD; a path that only other methods have gives 405, any other path 404.
\<close>

datatype route = Health | Ready | ScoreRoute | MethodNotAllowed | NotFound

definition New_route :: "string \<Rightarrow> string \<Rightarrow> route" where
  "New_route method path =
     (if path = ''/healthz'' then if method \<in> set [''GET'', ''HEAD''] then Health else MethodNotAllowed
      else if path = ''/readyz'' then if method \<in> set [''GET'', ''HEAD''] then Ready else MethodNotAllowed
      else if path = ''/v1/score'' then if method = ''POST'' then ScoreRoute else MethodNotAllowed
      else NotFound)"

definition New_handler ::
  "(string \<Rightarrow> string) \<Rightarrow> (string \<Rightarrow> decode_error \<Rightarrow> string) \<Rightarrow> (float64 \<Rightarrow> string) \<Rightarrow> (float64 \<Rightarrow> float64) \<Rightarrow> bool \<Rightarrow>
   int \<Rightarrow> Service \<Rightarrow> Request \<Rightarrow> (Response, unit) outcome" where
  "New_handler quote wording formatFloat Exp fused t service r =
     (case New_route (Method r) (Path r) of
        Health \<Rightarrow> Ok (healthHandler r)
      | Ready \<Rightarrow> Ok (readyHandler service r)
      | ScoreRoute \<Rightarrow> scoreHandler quote wording formatFloat Exp fused t service r
      | MethodNotAllowed \<Rightarrow>
          Ok \<lparr>Status = 405, Header = ''text/plain; charset=utf-8'', Data = ''Method Not Allowed'' @ [CHR 0x0A]\<rparr>
      | NotFound \<Rightarrow>
          Ok \<lparr>Status = 404, Header = ''text/plain; charset=utf-8'', Data = ''404 page not found'' @ [CHR 0x0A]\<rparr>)"

section \<open>What is decoded\<close>

lemma map_of_fold_update:
  assumes "distinct (map fst rs)"
  shows "map_of (fold (\<lambda>(k, x, e) m. AList.update k x m) rs m) k =
    (case map_of rs k of None \<Rightarrow> map_of m k | Some (x, e) \<Rightarrow> Some x)"
  using assms
proof (induction rs arbitrary: m)
  case (Cons r rs)
  obtain k' x e where r: "r = (k', x, e)" by (cases r)
  show ?case
    using Cons r by (auto simp: update_conv' split: option.split) (force dest: map_of_SomeD)+
qed simp

lemma features_decoded:
  assumes "distinct (map fst fm)" "decode_features None (JObject fm) = (x, e)"
  obtains fs where "x = Some fs" "\<And>k. map_of fs k = map_option (\<lambda>v. fst (to_any v)) (map_of fm k)"
    "e = None \<longleftrightarrow> (\<forall>m\<in>set fm. snd (to_any (snd m)) = None)" "fst ` set fs = fst ` set fm"
proof -
  let ?rs = "map (\<lambda>(k, v). (k, to_any v)) fm"
  let ?fs = "fold (\<lambda>(k, x, e) m. AList.update k x m) ?rs []"
  have d: "distinct (map fst ?rs)" using assms(1) by (simp add: comp_def split_def)
  have m: "map_of ?rs k = map_option to_any (map_of fm k)" for k by (simp add: map_of_map)
  have l: "map_of ?fs k = map_option (\<lambda>v. fst (to_any v)) (map_of fm k)" for k
    unfolding map_of_fold_update [OF d] m by (cases "map_of fm k") (simp_all add: split_def)
  have "fst ` set ?fs = dom (map_of ?fs)" by (simp add: dom_map_of_conv_image_fst)
  also have "\<dots> = dom (map_of fm)" unfolding dom_def l by simp
  finally have k: "fst ` set ?fs = fst ` set fm" by (simp add: dom_map_of_conv_image_fst)
  have x: "x = Some ?fs" "e = first_of (map (\<lambda>(k, x, e). e) ?rs)"
    using assms(2) by (simp_all add: decode_features_def Let_def)
  have "map (\<lambda>(k, x, e). e) ?rs = map (\<lambda>m. snd (to_any (snd m))) fm" by (simp add: split_def)
  then have e: "e = None \<longleftrightarrow> (\<forall>m\<in>set fm. snd (to_any (snd m)) = None)"
    using x(2) by (simp only: first_of_None set_map image_subset_iff singleton_iff)
  show thesis by (rule that [OF x(1) l e k])
qed

lemma field_of_request:
  "field_of request_fields ''transaction_id'' = Some (field TransactionID (\<lambda>x s. s\<lparr>TransactionID := x\<rparr>) decode_string)"
  "field_of request_fields ''features'' = Some (field RequestFeatures (\<lambda>x s. s\<lparr>RequestFeatures := x\<rparr>) decode_features)"
  by (simp_all add: field_of_def request_fields_def)

lemma top_members:
  assumes "distinct (map fst ms)" "fst ` set ms \<subseteq> set allowedTopLevelFields"
  obtains "ms = []" | v where "ms = [(''transaction_id'', v)]" | w where "ms = [(''features'', w)]"
    | v w where "ms = [(''transaction_id'', v), (''features'', w)]" | v w where "ms = [(''features'', w), (''transaction_id'', v)]"
proof -
  have "length ms = card (fst ` set ms)" using assms(1) by (metis distinct_card length_map list.set_map)
  also have "\<dots> \<le> card (set allowedTopLevelFields)" using assms(2) by (simp add: card_mono)
  also have "\<dots> = 2" by (simp add: allowedTopLevelFields_def)
  finally have "length ms \<le> 2" .
  then consider "ms = []" | m where "ms = [m]" | m n where "ms = [m, n]"
    by (cases ms; cases "tl ms"; cases "tl (tl ms)") auto
  then show thesis
  proof cases
    case (2 m)
    then show ?thesis using assms(2) that(2,3) by (cases m) (auto simp: allowedTopLevelFields_def)
  next
    case (3 m n)
    then show ?thesis using assms that(4,5) by (cases m; cases n) (auto simp: allowedTopLevelFields_def)
  qed (use that(1) in blast)
qed

abbreviation blank_request :: scoreRequest where
  "blank_request \<equiv> \<lparr>TransactionID = [], RequestFeatures = None\<rparr>"

lemma decode_string_None:
  "decode_string x v = (s, None) \<and> s \<noteq> x \<longleftrightarrow> v = JLit (LString s) \<and> s \<noteq> x"
  by (auto simp: decode_string_def mismatch_def split: json.splits literal.splits)

lemma decode_features_None:
  "decode_features None v = (Some fs, None) \<longleftrightarrow> (\<exists>fm. v = JObject fm \<and> decode_features None (JObject fm) = (Some fs, None))"
  by (auto simp: decode_features_def mismatch_def split: json.splits literal.splits)

lemma request_decoded:
  assumes "unique_keys (JObject ms)" "fst ` set ms \<subseteq> set allowedTopLevelFields"
  shows "(\<exists>req. decode_request blank_request (JObject ms) = (req, None) \<and> TransactionID req = tid \<and> RequestFeatures req = Some fs)
       \<and> tid \<noteq> [] \<longleftrightarrow>
     (\<exists>fm. fst ` set ms = {''transaction_id'', ''features''} \<and> map_of ms ''transaction_id'' = Some (JLit (LString tid)) \<and>
       map_of ms ''features'' = Some (JObject fm) \<and> decode_features None (JObject fm) = (Some fs, None)) \<and> tid \<noteq> []"
proof -
  have d: "distinct (map fst ms)" using assms(1) by simp
  note defs = decode_request_def decode_struct_def field_of_request field_def
  from d assms(2) show ?thesis
  proof (cases rule: top_members)
    case (4 v w)
    show ?thesis
      unfolding 4 using decode_string_None [of "[]" v tid] decode_features_None [of w fs]
      by (cases "decode_string [] v"; cases "decode_features None w") (auto simp: defs)
  next
    case (5 v w)
    show ?thesis
      unfolding 5 using decode_string_None [of "[]" v tid] decode_features_None [of w fs]
      by (cases "decode_string [] v"; cases "decode_features None w") (auto simp: defs)
  qed (auto simp: defs split: prod.splits)
qed

section \<open>Accepted requests\<close>

text \<open>
  The bodies that can be scored: one JSON object, without a repeated key at any depth and not nested
  beyond the decoder's limit, that has a transaction id of 1 to 128 bytes and features
  which are exactly those of the model, each a number in the range of a float64. \<open>v\<close> are
  the numbers in the order of the model.
\<close>

definition valid_request :: "Model \<Rightarrow> string \<Rightarrow> string \<Rightarrow> float64 list \<Rightarrow> bool" where
  "valid_request m body tid v \<longleftrightarrow>
     (\<exists>ms fm. parse_json body = Some (JObject ms) \<and> unique_keys (JObject ms) \<and> depth (JObject ms) \<le> maxNestingDepth \<and>
        fst ` set ms = {''transaction_id'', ''features''} \<and>
        map_of ms ''transaction_id'' = Some (JLit (LString tid)) \<and> map_of ms ''features'' = Some (JObject fm) \<and>
        tid \<noteq> [] \<and> length tid \<le> maxTransactionID \<and>
        fst ` set fm = set (FeatureOrder m) \<and>
        list_all2 (\<lambda>name x. \<exists>t. map_of fm name = Some (JLit (LNumber t)) \<and> ParseFloat t = Some x) (FeatureOrder m) v)"

lemma to_any_number: "fst (to_any v) = ANumber x \<longleftrightarrow> (\<exists>t. v = JLit (LNumber t) \<and> ParseFloat t = Some x)"
  by (cases v rule: to_any.cases) (auto simp: Let_def split: option.splits)

lemma ParseFloat_finite: "ParseFloat t = Some x \<Longrightarrow> isFinite x"
  by (auto simp: ParseFloat_def split: prod.splits if_splits)

lemma unique_keys_member: "unique_keys (JObject ms) \<Longrightarrow> map_of ms k = Some v \<Longrightarrow> unique_keys v"
  by (force dest: map_of_SomeD simp: list_all_iff)

text \<open>The two passes over the body and the feature vector, together.\<close>

lemma request_vector:
  assumes fm: "distinct (map fst fm)"
  shows "(\<exists>fs. decode_features None (JObject fm) = (Some fs, None) \<and> vectorFor m fs = Inr v) \<longleftrightarrow>
    fst ` set fm = set (FeatureOrder m) \<and>
    list_all2 (\<lambda>name x. \<exists>t. map_of fm name = Some (JLit (LNumber t)) \<and> ParseFloat t = Some x) (FeatureOrder m) v"
    (is "?L \<longleftrightarrow> ?keys \<and> ?nums")
proof -
  obtain x e where "decode_features None (JObject fm) = (x, e)" by (cases "decode_features None (JObject fm)")
  with fm obtain fs where fs: "decode_features None (JObject fm) = (Some fs, e)"
    "\<And>k. map_of fs k = map_option (\<lambda>v. fst (to_any v)) (map_of fm k)"
    "e = None \<longleftrightarrow> (\<forall>m\<in>set fm. snd (to_any (snd m)) = None)" "fst ` set fs = fst ` set fm"
    by (metis features_decoded)
  have num: "map_of fs n = Some (ANumber x) \<and> isFinite x \<longleftrightarrow>
      (\<exists>t. map_of fm n = Some (JLit (LNumber t)) \<and> ParseFloat t = Some x)" for n x
    unfolding fs(2) using to_any_number [of _ x] ParseFloat_finite by auto
  have fine: "e = None" if ?keys ?nums
  proof -
    have "snd (to_any (snd p)) = None" if "p \<in> set fm" for p
    proof -
      have "fst p \<in> set (FeatureOrder m)" using \<open>?keys\<close> \<open>p \<in> set fm\<close> by blast
      then obtain t x where "map_of fm (fst p) = Some (JLit (LNumber t))" "ParseFloat t = Some x"
        using \<open>?nums\<close> unfolding list_all2_conv_all_nth in_set_conv_nth by metis
      moreover have "map_of fm (fst p) = Some (snd p)" using fm \<open>p \<in> set fm\<close> by simp
      ultimately show ?thesis by simp
    qed
    then show ?thesis using fs(3) by blast
  qed
  have "vectorFor m fs = Inr v \<longleftrightarrow> ?keys \<and> ?nums" unfolding vectorFor_Inr num fs(4) ..
  then have "?L \<longleftrightarrow> e = None \<and> ?keys \<and> ?nums" unfolding fs(1) by simp
  then show ?thesis using fine by blast
qed

lemma structure_tree:
  assumes "validateJSONStructure quote body = None"
  obtains v where "parse_json body = Some v" "unique_keys v" "top_ok v"
    "read_value \<lparr>delivered = body, complete = True\<rparr> = (if maxNestingDepth < depth v then None else Some v)"
proof -
  obtain v where v: "parse_json body = Some v" "unique_keys v" "top_ok v"
    using assms walk_correct by blast
  then show thesis using that [OF v] by (auto simp: parse_json_def read_value_def split: option.splits if_splits)
qed


lemma valid_request_tree:
  assumes "parse_json body = Some (JObject ms)"
  shows "valid_request m body tid v \<longleftrightarrow>
    (\<exists>fm. unique_keys (JObject ms) \<and> depth (JObject ms) \<le> maxNestingDepth \<and>
       fst ` set ms = {''transaction_id'', ''features''} \<and> map_of ms ''transaction_id'' = Some (JLit (LString tid)) \<and>
       map_of ms ''features'' = Some (JObject fm) \<and> tid \<noteq> [] \<and> length tid \<le> maxTransactionID \<and>
       fst ` set fm = set (FeatureOrder m) \<and>
       list_all2 (\<lambda>name x. \<exists>t. map_of fm name = Some (JLit (LNumber t)) \<and> ParseFloat t = Some x) (FeatureOrder m) v)"
proof -
  have one: "(\<exists>ms' fm. Some (JObject ms) = Some (JObject ms') \<and> Q ms' fm) \<longleftrightarrow> (\<exists>fm. Q ms fm)" for Q by simp
  show ?thesis unfolding valid_request_def assms by (rule one)
qed

lemma valid_request_object:
  assumes "valid_request m body tid v"
  obtains ms where "parse_json body = Some (JObject ms)"
  using assms unfolding valid_request_def by blast

lemma accepted_object:
  assumes w: "parse_json body = Some (JObject ms)" "unique_keys (JObject ms)" "depth (JObject ms) \<le> maxNestingDepth"
    and top: "fst ` set ms \<subseteq> set allowedTopLevelFields"
  shows "(\<exists>req fs. decode_request blank_request (JObject ms) = (req, None) \<and>
      TransactionID req = tid \<and> tid \<noteq> [] \<and> length tid \<le> maxTransactionID \<and> RequestFeatures req = Some fs \<and>
      vectorFor m fs = Inr v) \<longleftrightarrow> valid_request m body tid v" (is "?L \<longleftrightarrow> ?R")
proof -
  have vec: "(fst ` set fm = set (FeatureOrder m) \<and>
      list_all2 (\<lambda>name x. \<exists>t. map_of fm name = Some (JLit (LNumber t)) \<and> ParseFloat t = Some x) (FeatureOrder m) v)
      = (\<exists>fs. decode_features None (JObject fm) = (Some fs, None) \<and> vectorFor m fs = Inr v)"
    if "map_of ms ''features'' = Some (JObject fm)" for fm
    using request_vector [of fm m v] unique_keys_member [OF w(2) that] by simp
  have split: "(\<exists>req fs. D req \<and> I req \<and> a \<and> b \<and> F req fs \<and> V fs) \<longleftrightarrow> (\<exists>fs. ((\<exists>req. D req \<and> I req \<and> F req fs) \<and> a) \<and> b \<and> V fs)"
    for D I F V a b by blast
  have move: "(\<exists>fs. ((\<exists>fm. p \<and> q \<and> M fm \<and> E fm fs) \<and> a) \<and> b \<and> V fs) \<longleftrightarrow>
      (\<exists>fm. u \<and> d \<and> p \<and> q \<and> M fm \<and> a \<and> b \<and> X fm \<and> Y fm)"
    if "\<And>fm. M fm \<Longrightarrow> (X fm \<and> Y fm) = (\<exists>fs. E fm fs \<and> V fs)" u d for p q M E V a b X Y u d
    using that by blast
  show ?thesis
    unfolding split request_decoded [OF w(2) top] valid_request_tree [OF w(1)]
    by (rule move [OF vec w(2,3)])
qed

lemma decode_other:
  assumes "\<And>ms. w \<noteq> JObject ms" "top_ok w" "decode_request blank_request w = (req, None)"
  shows "TransactionID req = []"
proof (cases w)
  case (JLit l)
  then show ?thesis using assms(3) by (cases l) (auto simp: decode_request_def decode_struct_def mismatch_def)
qed (use assms in \<open>simp_all add: top_ok_def\<close>)

lemma accepted_request:
  assumes "validateJSONStructure quote body = None"
  shows "(\<exists>req fs. Decode decode_request blank_request \<lparr>delivered = body, complete = True\<rparr> = (req, None) \<and>
      TransactionID req = tid \<and> tid \<noteq> [] \<and> length tid \<le> maxTransactionID \<and> RequestFeatures req = Some fs \<and>
      vectorFor m fs = Inr v) \<longleftrightarrow> valid_request m body tid v" (is "?L \<longleftrightarrow> ?R")
proof -
  obtain w where w: "parse_json body = Some w" "unique_keys w" "top_ok w"
    "read_value \<lparr>delivered = body, complete = True\<rparr> = (if maxNestingDepth < depth w then None else Some w)"
    using assms by (rule structure_tree)
  consider (deep) "maxNestingDepth < depth w" | (other) "\<And>ms. w \<noteq> JObject ms" "\<not> maxNestingDepth < depth w"
    | (object) ms where "w = JObject ms" "\<not> maxNestingDepth < depth w" by (cases w) auto
  then show ?thesis
  proof cases
    case deep
    have "\<not> ?R"
    proof
      assume r: ?R
      then obtain ms where ms: "parse_json body = Some (JObject ms)" by (rule valid_request_object)
      then show False using r deep w(1) unfolding valid_request_tree [OF ms] by simp
    qed
    moreover have "\<not> ?L" using w(4) deep by (simp add: Decode_def)
    ultimately show ?thesis by blast
  next
    case other
    then have "\<not> ?L" using w(3,4) decode_other [of w] by (auto simp: Decode_def)
    moreover have "\<not> ?R" using other(1) w(1) valid_request_object by (metis option.inject)
    ultimately show ?thesis by blast
  next
    case object
    then have "Decode decode_request blank_request \<lparr>delivered = body, complete = True\<rparr> = decode_request blank_request (JObject ms)"
      using w(4) by (simp add: Decode_def)
    then show ?thesis
      using accepted_object [of body ms tid m v] w object by (simp only: top_ok_def json.case not_less)
  qed
qed

lemma valid_request_structure:
  assumes "valid_request m body tid v"
  shows "validateJSONStructure quote body = None"
proof -
  obtain ms where ms: "parse_json body = Some (JObject ms)" using assms by (rule valid_request_object)
  obtain fm where "unique_keys (JObject ms)" "fst ` set ms = {''transaction_id'', ''features''}"
    using assms unfolding valid_request_tree [OF ms] by (elim exE conjE)
  moreover from this(2) have "top_ok (JObject ms)" by (simp add: top_ok_def allowedTopLevelFields_def)
  ultimately show ?thesis using ms unfolding walk_correct by blast
qed

section \<open>The handler step by step\<close>

lemma read_complete: "complete (MaxBytesReader n s) \<longleftrightarrow> complete s \<and> length (delivered s) \<le> n"
  by (auto simp: MaxBytesReader_def)

lemma read_all: "complete (MaxBytesReader n s) \<Longrightarrow> MaxBytesReader n s = \<lparr>delivered = delivered s, complete = True\<rparr>"
  by (cases s) (auto simp: MaxBytesReader_def split: if_splits)

definition score_data :: "(float64 \<Rightarrow> string) \<Rightarrow> string \<Rightarrow> float64 \<Rightarrow> string \<Rightarrow> json" where
  "score_data formatFloat tid p version =
     JObject [(''transaction_id'', JLit (LString tid)), (''score'', JLit (LNumber (formatFloat p))),
       (''meta'', JObject [(''model_version'', JLit (LString version))])]"

lemma writeError_simps [simp]:
  "Status (writeError n e) = n" "Header (writeError n e) = ''application/json''"
  by (simp_all add: writeError_def writeJSON_def marshal_error_def)

text \<open>What the handler does with a body that was read completely and has the right structure.\<close>

definition answer ::
  "(string \<Rightarrow> string) \<Rightarrow> (string \<Rightarrow> decode_error \<Rightarrow> string) \<Rightarrow> (float64 \<Rightarrow> string) \<Rightarrow> (float64 \<Rightarrow> float64) \<Rightarrow> bool \<Rightarrow>
   int \<Rightarrow> Service \<Rightarrow> stream \<Rightarrow> (Response, unit) outcome" where
  "answer quote wording formatFloat Exp fused t service body =
     (case Decode decode_request blank_request body of
        (req, Some err) \<Rightarrow> Ok (writeError 400 (''invalid JSON: '' @ wording (delivered body) err))
      | (req, None) \<Rightarrow>
          if TransactionID req = [] then Ok (writeError 400 ''transaction_id is required'')
          else if maxTransactionID < length (TransactionID req) then Ok (writeError 400 ''transaction_id is too long'')
          else (case RequestFeatures req of
            None \<Rightarrow> Ok (writeError 400 ''features is required'')
          | Some features \<Rightarrow>
              andThen (Service_Score quote Exp fused t service features) (\<lambda>result.
                Ok (case result of
                      Inl (Client e) \<Rightarrow> writeError 400 (ClientError_Error e)
                    | Inl (Server e) \<Rightarrow> writeError 500 ''scoring failed''
                    | Inr res \<Rightarrow>
                        writeJSON 200 (marshal_score formatFloat
                          \<lparr>ResponseTransactionID = TransactionID req, ResponseScore = Score res,
                           Meta = \<lparr>MetaModelVersion = ModelVersion res\<rparr>\<rparr>)))))"

lemma scoreHandler_answer:
  "scoreHandler quote wording formatFloat Exp fused t service r =
     (case requireJSON r of
        Some err \<Rightarrow> Ok (writeError 415 err)
      | None \<Rightarrow>
          if maxRequestBody < length (delivered (Body r)) then Ok (writeError 413 ''request body too large'')
          else if \<not> complete (Body r) then Ok (writeError 400 (''failed to read request body: '' @ ReadError r))
          else case validateJSONStructure quote (delivered (Body r)) of
            Some err \<Rightarrow> Ok (writeError 400 err)
          | None \<Rightarrow> answer quote wording formatFloat Exp fused t service \<lparr>delivered = delivered (Body r), complete = True\<rparr>)"
proof (cases "complete (MaxBytesReader maxRequestBody (Body r))")
  case True
  then have "complete (Body r)" "\<not> maxRequestBody < length (delivered (Body r))" by (simp_all add: read_complete)
  then show ?thesis
    unfolding scoreHandler_def answer_def Let_def read_all [OF True] by (simp only: stream.simps simp_thms if_True if_False)
next
  case False
  then show ?thesis
    unfolding scoreHandler_def Let_def by (auto simp: read_complete split: option.split)
qed

lemma marshal_score_finite:
  "isFinite p \<Longrightarrow> writeJSON 200 (marshal_score formatFloat
     \<lparr>ResponseTransactionID = tid, ResponseScore = p, Meta = \<lparr>MetaModelVersion = version\<rparr>\<rparr>) =
   \<lparr>Status = 200, Header = ''application/json'', Data = print_json (score_data formatFloat tid p version)\<rparr>"
  by (simp add: writeJSON_def marshal_score_def score_data_def)

lemma answer_cases:
  assumes "NewService (Some m) clk = Inr s" "model_ok m" "float_ok (Intercept m)" "exp_ok Exp"
  obtains (refused) e where "answer quote wording formatFloat Exp fused t s body = Ok (writeError 400 e)"
      "\<nexists>req fs v p. Decode decode_request blank_request body = (req, None) \<and> TransactionID req \<noteq> [] \<and>
        length (TransactionID req) \<le> maxTransactionID \<and> RequestFeatures req = Some fs \<and>
        vectorFor m fs = Inr v \<and> Model_Score Exp fused m v = Inr p"
  | (scored) req fs v p where "Decode decode_request blank_request body = (req, None)" "TransactionID req \<noteq> []"
      "length (TransactionID req) \<le> maxTransactionID" "RequestFeatures req = Some fs"
      "vectorFor m fs = Inr v" "Model_Score Exp fused m v = Inr p"
      "answer quote wording formatFloat Exp fused t s body =
        Ok \<lparr>Status = 200, Header = ''application/json'',
            Data = print_json (score_data formatFloat (TransactionID req) p (Version m))\<rparr>"
proof -
  obtain req e where D: "Decode decode_request blank_request body = (req, e)" by (cases "Decode decode_request blank_request body")
  consider (err) x where "e = Some x" | (none) "e = None" "TransactionID req = []"
    | (long) "e = None" "TransactionID req \<noteq> []" "maxTransactionID < length (TransactionID req)"
    | (nofs) "e = None" "TransactionID req \<noteq> []" "length (TransactionID req) \<le> maxTransactionID" "RequestFeatures req = None"
    | (fs) fs where "e = None" "TransactionID req \<noteq> []" "length (TransactionID req) \<le> maxTransactionID" "RequestFeatures req = Some fs"
    by (cases e; cases "RequestFeatures req") (auto simp: not_less [symmetric])
  then show thesis
  proof cases
    case fs
    note a = answer_def [of quote wording formatFloat Exp fused t s body]
    from service_cases [OF assms(1,2), of fs quote Exp fused t, THEN conjunct2]
    show thesis
    proof (elim disjE exE conjE)
      fix x assume "vectorFor m fs = Inl x" "Service_Score quote Exp fused t s fs =
        Ok (Inl (Client \<lparr>Message = FeatureError_Error quote x, Err = FeatureCause x\<rparr>))"
      then show thesis using D fs a by (intro refused) auto
    next
      fix v z assume "vectorFor m fs = Inr v" "Model_Score Exp fused m v = Inl (ErrNonFiniteLogit z)"
        "Service_Score quote Exp fused t s fs = Ok (Inl (Client \<lparr>Message = ''scoring: feature values are too large to score'',
                           Err = ModelCause (ErrNonFiniteLogit z)\<rparr>))"
      then show thesis using D fs a by (intro refused) auto
    next
      fix v p assume v: "vectorFor m fs = Inr v" "Model_Score Exp fused m v = Inr p" and
        sc: "Service_Score quote Exp fused t s fs = Ok (Inr \<lparr>Score = p, ModelVersion = Version m, ScoredAt = clock s t\<rparr>)"
      have "isFinite p" using score_finite [OF assms(4,3) v(2)] .
      then have "answer quote wording formatFloat Exp fused t s body =
          Ok \<lparr>Status = 200, Header = ''application/json'', Data = print_json (score_data formatFloat (TransactionID req) p (Version m))\<rparr>"
        unfolding a using D fs sc by (simp add: marshal_score_finite)
      then show thesis using D fs v by (intro scored) auto
    qed
  qed (use D in \<open>intro refused; force simp: answer_def\<close>)+
qed

lemma score_answered:
  assumes "NewService (Some m) clk = Inr s" "model_ok m" "float_ok (Intercept m)" "exp_ok Exp"
  shows "\<exists>resp. scoreHandler quote wording formatFloat Exp fused t s r = Ok resp \<and>
    Header resp = ''application/json'' \<and> Status resp \<in> {200, 400, 413, 415} \<and>
    (Status resp = 415 \<longleftrightarrow> requireJSON r \<noteq> None) \<and>
    (Status resp = 413 \<longleftrightarrow> requireJSON r = None \<and> maxRequestBody < length (delivered (Body r)))"
proof -
  let ?b = "\<lparr>delivered = delivered (Body r), complete = True\<rparr>"
  have "\<exists>resp. answer quote wording formatFloat Exp fused t s ?b = Ok resp \<and> Header resp = ''application/json'' \<and>
      Status resp \<in> {200, 400}"
    using assms by (cases rule: answer_cases [of m clk s Exp quote wording formatFloat fused t ?b]) auto
  then show ?thesis
    by (auto simp: scoreHandler_answer split: option.split)
qed

section \<open>An example\<close>

definition example_request :: Request where
  "example_request =
     \<lparr>Method = ''POST'', Path = ''/v1/score'', ContentType = ''Application/JSON; charset=utf-8'',
      Body = \<lparr>delivered = ''{'' @ [CHR 0x22] @ ''transaction_id'' @ [CHR 0x22] @ '':'' @ [CHR 0x22] @ ''t1'' @ [CHR 0x22] @ '','' @
          [CHR 0x22] @ ''features'' @ [CHR 0x22] @ '':{'' @ [CHR 0x22] @ ''Amount'' @ [CHR 0x22] @ '':4,'' @
          [CHR 0x22] @ ''V1'' @ [CHR 0x22] @ '':1}}'', complete = True\<rparr>,
      ReadError = []\<rparr>"

definition example_service :: Service where
  "example_service = \<lparr>model = Some example_model, clock = (\<lambda>t. t)\<rparr>"

lemma example_body:
  "parse_json (delivered (Body example_request)) =
   Some (JObject [(''transaction_id'', JLit (LString ''t1'')),
     (''features'', JObject [(''Amount'', JLit (LNumber ''4'')), (''V1'', JLit (LNumber ''1''))])])"
  by code_simp

lemma example_read:
  "requireJSON example_request = None" "complete (Body example_request)"
  "length (delivered (Body example_request)) \<le> maxRequestBody"
proof -
  show "requireJSON example_request = None" by code_simp
  show "complete (Body example_request)" "length (delivered (Body example_request)) \<le> maxRequestBody"
    by (simp_all add: example_request_def maxRequestBody_def)
qed

lemma example_numbers: "ParseFloat ''1'' = Some (Fin False 1)" "ParseFloat ''4'' = Some (Fin False 4)"
proof -
  have n: "number_value ''1'' = (False, 1)" "number_value ''4'' = (False, 4)" by code_simp+
  have r: "rv 4 = 4" using rv_representable [of 1 2] by (simp add: pow2_def)
  have big: "(4 :: rat) < pow2 1024" using pow2_less [of 2 1024] by (simp add: pow2_def)
  then have "(1 :: rat) < pow2 1024" by simp
  then show "ParseFloat ''1'' = Some (Fin False 1)" using n rv_small by (simp add: ParseFloat_def rnd_def)
  show "ParseFloat ''4'' = Some (Fin False 4)" using n r big by (simp add: ParseFloat_def rnd_def)
qed

lemma example_valid:
  "valid_request example_model (delivered (Body example_request)) ''t1'' [Fin False 1, Fin False 4]"
  unfolding valid_request_tree [OF example_body] using example_numbers
  by (auto simp: maxNestingDepth_def maxTransactionID_def example_model_def)

lemma example_ok:
  "NewService (Some example_model) None = Inr example_service" "model_ok example_model" "float_ok (Intercept example_model)"
  by (simp_all add: NewService_def example_service_def model_ok_def example_model_def)

section \<open>Properties\<close>

text \<open>
  C32. A request to \<open>POST /v1/score\<close> is answered with 200 exactly when its content type is JSON, its body
  was read completely, has at most 64 KiB and is a valid request for the model (one object, no
  repeated key at any depth, exactly the model's features), and the model scores its numbers; the
  answer then carries the transaction id of the request, that score and the version of
  the model.
\<close>

theorem score_request_correct:
  assumes "NewService (Some m) clk = Inr s" "model_ok m" "float_ok (Intercept m)" "exp_ok Exp"
  shows "scoreHandler quote wording formatFloat Exp fused t s r = Ok resp \<and> Status resp = 200 \<longleftrightarrow>
    requireJSON r = None \<and> complete (Body r) \<and> length (delivered (Body r)) \<le> maxRequestBody \<and>
    (\<exists>tid v p. valid_request m (delivered (Body r)) tid v \<and> Model_Score Exp fused m v = Inr p \<and>
       resp = \<lparr>Status = 200, Header = ''application/json'',
               Data = print_json (score_data formatFloat tid p (Version m))\<rparr>)"
    (is "?H \<longleftrightarrow> ?A \<and> ?B \<and> ?D \<and> ?V")
proof -
  let ?b = "\<lparr>delivered = delivered (Body r), complete = True\<rparr>"
  let ?v = "validateJSONStructure quote (delivered (Body r))"
  note valid = accepted_request [of quote "delivered (Body r)"]
  show ?thesis
  proof (cases "requireJSON r = None \<and> complete (Body r) \<and> length (delivered (Body r)) \<le> maxRequestBody \<and> ?v = None")
    case True
    then have h: "scoreHandler quote wording formatFloat Exp fused t s r = answer quote wording formatFloat Exp fused t s ?b"
      by (simp add: scoreHandler_answer)
    have V: "?V \<longleftrightarrow> (\<exists>req fs v p. Decode decode_request blank_request ?b = (req, None) \<and> TransactionID req \<noteq> [] \<and>
        length (TransactionID req) \<le> maxTransactionID \<and> RequestFeatures req = Some fs \<and>
        vectorFor m fs = Inr v \<and> Model_Score Exp fused m v = Inr p \<and>
        resp = \<lparr>Status = 200, Header = ''application/json'',
                Data = print_json (score_data formatFloat (TransactionID req) p (Version m))\<rparr>)"
      unfolding valid [OF True [THEN conjunct2, THEN conjunct2, THEN conjunct2], symmetric] by blast
    from assms show ?thesis
    proof (cases rule: answer_cases [of m clk s Exp quote wording formatFloat fused t ?b])
      case (refused e)
      then show ?thesis unfolding V h using True by auto
    next
      case (scored req fs v p)
      then show ?thesis unfolding V h using True by auto
    qed
  next
    case False
    have "\<not> ?H" using False by (auto simp: scoreHandler_answer split: option.splits if_splits)
    moreover have "\<not> (?A \<and> ?B \<and> ?D \<and> ?V)" using False valid_request_structure by blast
    ultimately show ?thesis by blast
  qed
qed

theorem score_request_correct_witness:
  "\<exists>resp. scoreHandler (\<lambda>x. x) (\<lambda>b e. []) (\<lambda>f. ''0.5'') example_exp False 7 example_service example_request = Ok resp \<and>
     Status resp = 200"
proof -
  obtain p where "Model_Score example_exp False example_model [Fin False 1, Fin False 4] = Inr p"
    using example_score by blast
  then show ?thesis
    using score_request_correct [OF example_ok example_exp_ok] example_read example_valid by blast
qed

text \<open>
  C33. On a valid model every request to \<open>POST /v1/score\<close> is answered, with JSON and one of the statuses 200,
  400, 413 and 415: 415 exactly for a content type other than JSON, 413 exactly for a body of more
  than 64 KiB that is announced as JSON. The branch for errors of the server is never taken.
\<close>

theorem score_status:
  assumes "NewService (Some m) clk = Inr s" "model_ok m" "float_ok (Intercept m)" "exp_ok Exp"
  shows "\<exists>resp. scoreHandler quote wording formatFloat Exp fused t s r = Ok resp \<and>
    Header resp = ''application/json'' \<and> Status resp \<in> {200, 400, 413, 415} \<and>
    (Status resp = 415 \<longleftrightarrow> requireJSON r \<noteq> None) \<and>
    (Status resp = 413 \<longleftrightarrow> requireJSON r = None \<and> maxRequestBody < length (delivered (Body r)))"
  using assms by (rule score_answered)

theorem score_status_witness:
  "\<exists>resp. scoreHandler (\<lambda>x. x) (\<lambda>b e. []) (\<lambda>f. ''0.5'') example_exp False 7 example_service
      (example_request\<lparr>ContentType := []\<rparr>) = Ok resp \<and> Status resp = 415"
proof -
  have "requireJSON (example_request\<lparr>ContentType := []\<rparr>) \<noteq> None" by (simp add: requireJSON_def)
  then show ?thesis using score_status [OF example_ok example_exp_ok] by blast
qed

end
