(* ===== verification/Server_Config.thy ===== *)
theory Server_Config
  imports Json_Decode
begin

text \<open>
  The settings of the server (internal/config): the address to listen on and the path of the model
  artifact, from the environment. An address is checked for its shape and its port. The
  environment is the function \<open>getenv\<close>, which gives the empty string for an unset variable;
  \<open>quote\<close> is the verb \<open>%q\<close>.
\<close>

section \<open>Addresses\<close>

text \<open>\<open>net.SplitHostPort\<close>: the host, without brackets, and the port behind the last colon.\<close>

datatype addr_error = MissingPort | TooManyColons | MissingBracket | UnexpectedOpen | UnexpectedClose

definition last_colon :: "string \<Rightarrow> nat option" where
  "last_colon s =
     (if CHR '':'' \<in> set s then Some (length s - 1 - length (takeWhile (\<lambda>x. x \<noteq> CHR '':'') (rev s))) else None)"

definition index_of :: "char \<Rightarrow> string \<Rightarrow> nat option" where
  "index_of c s = (if c \<in> set s then Some (length (takeWhile (\<lambda>x. x \<noteq> c) s)) else None)"

text \<open>
  \<open>j\<close> and \<open>k\<close> are the places from which no further opening and closing bracket may come.
\<close>

definition check_brackets :: "string \<Rightarrow> nat \<Rightarrow> nat \<Rightarrow> string \<Rightarrow> string \<Rightarrow> addr_error + string \<times> string" where
  "check_brackets hostport j k host port =
     (if CHR ''['' \<in> set (drop j hostport) then Inl UnexpectedOpen
      else if CHR '']'' \<in> set (drop k hostport) then Inl UnexpectedClose
      else Inr (host, port))"

definition SplitHostPort :: "string \<Rightarrow> addr_error + string \<times> string" where
  "SplitHostPort hostport =
     (case last_colon hostport of
        None \<Rightarrow> Inl MissingPort
      | Some i \<Rightarrow>
          let port = drop (i + 1) hostport
          in if hd hostport = CHR ''['' then
               (case index_of (CHR '']'') hostport of
                  None \<Rightarrow> Inl MissingBracket
                | Some e \<Rightarrow>
                    if e + 1 = length hostport then Inl MissingPort
                    else if e + 1 = i then
                      check_brackets hostport 1 (e + 1) (take (e - 1) (drop 1 hostport)) port
                    else if hostport ! (e + 1) = CHR '':'' then Inl TooManyColons
                    else Inl MissingPort)
             else if CHR '':'' \<in> set (take i hostport) then Inl TooManyColons
             else check_brackets hostport 0 0 (take i hostport) port)"

text \<open>
  \<open>strconv.Atoi\<close>: an optional sign and digits, in the range of an int of 64 bits. \<open>Inl True\<close> is
  the range error, \<open>Inl False\<close> the syntax error.
\<close>

definition Atoi :: "string \<Rightarrow> bool + int" where
  "Atoi s =
     (let neg = (s \<noteq> [] \<and> hd s = CHR ''-'');
          ds = (if s \<noteq> [] \<and> (hd s = CHR ''-'' \<or> hd s = CHR ''+'') then tl s else s);
          n = int (nat_of_digits ds)
      in if ds = [] \<or> \<not> list_all isDigit ds then Inl False
         else if neg then if n > 2 ^ 63 then Inl True else Inr (- n)
         else if n \<ge> 2 ^ 63 then Inl True else Inr n)"

section \<open>Settings\<close>

definition defaultHTTPAddr :: string where "defaultHTTPAddr = '':8080''"
definition defaultModelPath :: string where "defaultModelPath = ''models/v1.0.0/model.json''"

record Settings =
  HTTPAddr :: string
  ModelPath :: string

datatype config_problem =
    ExpectedHostPort addr_error
  | InvalidPort bool
  | PortOutOfRange int

definition validateTCPAddr :: "string \<Rightarrow> config_problem option" where
  "validateTCPAddr addr =
     (case SplitHostPort addr of
        Inl err \<Rightarrow> Some (ExpectedHostPort err)
      | Inr (_, port) \<Rightarrow>
          (case Atoi port of
             Inl err \<Rightarrow> Some (InvalidPort err)
           | Inr p \<Rightarrow> if p < 0 \<or> p > 65535 then Some (PortOutOfRange p) else None))"

definition Config_Load :: "(string \<Rightarrow> string) \<Rightarrow> (string \<times> config_problem) + Settings" where
  "Config_Load getenv =
     (let addr = (if getenv ''HTTP_ADDR'' = [] then defaultHTTPAddr else getenv ''HTTP_ADDR'')
      in case validateTCPAddr addr of
           Some err \<Rightarrow> Inl (addr, err)
         | None \<Rightarrow>
             let modelPath = (if getenv ''MODEL_PATH'' = [] then defaultModelPath else getenv ''MODEL_PATH'')
             in Inr \<lparr>HTTPAddr = addr, ModelPath = modelPath\<rparr>)"

section \<open>Facts\<close>

lemma takeWhile_stop: "c \<notin> set h \<Longrightarrow> takeWhile (\<lambda>x. x \<noteq> c) (h @ c # r) = h"
  by (induction h) auto

lemma last_colon_append [simp]:
  "CHR '':'' \<notin> set p \<Longrightarrow> last_colon (h @ CHR '':'' # p) = Some (length h)"
  using takeWhile_stop [of "CHR '':''" "rev p" "rev h"] by (simp add: last_colon_def)

lemma last_colon_Some:
  "last_colon s = Some i \<longleftrightarrow> (\<exists>h p. s = h @ CHR '':'' # p \<and> CHR '':'' \<notin> set p \<and> i = length h)"
proof
  assume l: "last_colon s = Some i"
  then have "CHR '':'' \<in> set s" by (simp add: last_colon_def split: if_splits)
  then obtain h p where "s = h @ CHR '':'' # p" "CHR '':'' \<notin> set p" by (metis split_list_last)
  then show "\<exists>h p. s = h @ CHR '':'' # p \<and> CHR '':'' \<notin> set p \<and> i = length h" using l by auto
qed auto

lemma index_of_Some: "index_of c s = Some e \<longleftrightarrow> (\<exists>h r. s = h @ c # r \<and> c \<notin> set h \<and> e = length h)"
proof
  assume "index_of c s = Some e"
  then have c: "c \<in> set s" "e = length (takeWhile (\<lambda>x. x \<noteq> c) s)" by (auto simp: index_of_def split: if_splits)
  obtain h r where s: "s = h @ c # r" "c \<notin> set h" using c(1) by (metis split_list_first)
  then have "takeWhile (\<lambda>x. x \<noteq> c) s = h" by (simp add: takeWhile_stop)
  then show "\<exists>h r. s = h @ c # r \<and> c \<notin> set h \<and> e = length h" using s c(2) by blast
next
  assume "\<exists>h r. s = h @ c # r \<and> c \<notin> set h \<and> e = length h"
  then obtain h r where s: "s = h @ c # r" "c \<notin> set h" "e = length h" by blast
  then have "takeWhile (\<lambda>x. x \<noteq> c) s = h" by (simp add: takeWhile_stop)
  then show "index_of c s = Some e" using s by (simp add: index_of_def)
qed

lemma index_of_append [simp]: "c \<notin> set h \<Longrightarrow> index_of c (h @ c # r) = Some (length h)"
  using index_of_Some by blast

text \<open>The two shapes of an address.\<close>

definition plain_address :: "string \<Rightarrow> string \<Rightarrow> string" where
  "plain_address h p = h @ CHR '':'' # p"

definition bracket_address :: "string \<Rightarrow> string \<Rightarrow> string" where
  "bracket_address h p = CHR ''['' # h @ CHR '']'' # CHR '':'' # p"

lemma split_plain:
  assumes "set p \<inter> set '':[]'' = {}" "set h \<inter> set '':[]'' = {}"
  shows "SplitHostPort (plain_address h p) = Inr (h, p)"
proof -
  have "hd (h @ CHR '':'' # p) \<noteq> CHR ''[''" using assms by (cases h) auto
  then show ?thesis
    using assms by (auto simp: plain_address_def SplitHostPort_def Let_def check_brackets_def)
qed

lemma split_bracket:
  assumes "set p \<inter> set '':[]'' = {}" "set h \<inter> set ''[]'' = {}"
  shows "SplitHostPort (bracket_address h p) = Inr (h, p)"
proof -
  let ?a = "bracket_address h p"
  have a: "?a = (CHR ''['' # h @ [CHR '']'']) @ CHR '':'' # p" by (simp add: bracket_address_def)
  have b: "?a = (CHR ''['' # h) @ CHR '']'' # CHR '':'' # p" by (simp add: bracket_address_def)
  have "last_colon ?a = Some (length h + 2)" using assms unfolding a by (subst last_colon_append) auto
  moreover have "index_of (CHR '']'') ?a = Some (length h + 1)" using assms unfolding b by (subst index_of_append) auto
  moreover have "drop (length h + 3) ?a = p" by (simp add: bracket_address_def numeral_3_eq_3)
  moreover have "hd ?a = CHR ''[''" "take (length h) (drop 1 ?a) = h"
    "drop 1 ?a = h @ CHR '']'' # CHR '':'' # p" "drop (length h + 2) ?a = CHR '':'' # p" "length ?a \<noteq> length h + 2"
    by (simp_all add: bracket_address_def)
  ultimately show ?thesis
    using assms by (auto simp: SplitHostPort_def Let_def check_brackets_def numeral_3_eq_3)
qed

lemma split_correct:
  "SplitHostPort a = Inr (h, p) \<longleftrightarrow> set p \<inter> set '':[]'' = {} \<and>
     (a = plain_address h p \<and> set h \<inter> set '':[]'' = {} \<or> a = bracket_address h p \<and> set h \<inter> set ''[]'' = {})"
  (is "?L \<longleftrightarrow> ?R")
proof
  assume l: ?L
  then obtain i where i: "last_colon a = Some i" by (auto simp: SplitHostPort_def split: option.splits)
  then obtain h' p' where a: "a = h' @ CHR '':'' # p'" "CHR '':'' \<notin> set p'" "i = length h'"
    unfolding last_colon_Some by blast
  show ?R
  proof (cases "hd a = CHR ''[''")
    case False
    then have "CHR '':'' \<notin> set h'" "check_brackets a 0 0 h' p' = Inr (h, p)"
      using l i a by (auto simp: SplitHostPort_def Let_def split: if_splits)
    then show ?thesis using a by (auto simp: check_brackets_def plain_address_def split: if_splits)
  next
    case True
    then obtain e where e: "index_of (CHR '']'') a = Some e" "e + 1 = i"
      "check_brackets a 1 (e + 1) (take (e - 1) (drop 1 a)) p' = Inr (h, p)"
      using l i a by (auto simp: SplitHostPort_def Let_def split: if_splits option.splits)
    then obtain g r where g: "a = g @ CHR '']'' # r" "CHR '']'' \<notin> set g" "e = length g"
      unfolding index_of_Some by blast
    obtain k where k: "g = CHR ''['' # k" using True g(1) by (cases g) auto
    have "h' = g @ [CHR '']'']"
    proof -
      have "take (length g + 1) a = g @ [CHR '']'']" using g(1) by simp
      moreover have "take (length g + 1) a = h'" using a(1,3) e(2) g(3) by simp
      ultimately show ?thesis by simp
    qed
    then have sh: "a = bracket_address k p'" using a(1) k by (simp add: bracket_address_def)
    then have "k = h" "p' = p" using e(3) g(3) k by (auto simp: check_brackets_def bracket_address_def split: if_splits)
    moreover have "set p' \<inter> set ''[]'' = {}" "CHR ''['' \<notin> set k"
      using e(3) g(3) k sh by (auto simp: check_brackets_def bracket_address_def split: if_splits)
    ultimately show ?thesis using sh a(2) g(2) k by auto
  qed
qed (use split_plain split_bracket in blast)

section \<open>Properties\<close>

text \<open>
  C34. \<open>Load\<close> accepts exactly the environments whose address, or the default one, is \<open>host:port\<close> or
  \<open>[host]:port\<close> with a decimal port from 0 to 65535 and no stray colon or bracket, and returns
  that address and the path of the model, each with its default when it is not set.
\<close>

theorem config_load_correct:
  "Config_Load getenv = Inr c \<longleftrightarrow>
     c = \<lparr>HTTPAddr = (if getenv ''HTTP_ADDR'' = [] then '':8080'' else getenv ''HTTP_ADDR''),
          ModelPath = (if getenv ''MODEL_PATH'' = [] then ''models/v1.0.0/model.json'' else getenv ''MODEL_PATH'')\<rparr> \<and>
     (\<exists>h p n. set p \<inter> set '':[]'' = {} \<and> Atoi p = Inr n \<and> 0 \<le> n \<and> n \<le> 65535 \<and>
        (HTTPAddr c = h @ CHR '':'' # p \<and> set h \<inter> set '':[]'' = {} \<or>
         HTTPAddr c = CHR ''['' # h @ CHR '']'' # CHR '':'' # p \<and> set h \<inter> set ''[]'' = {}))"
proof -
  have v: "validateTCPAddr a = None \<longleftrightarrow> (\<exists>h p n. SplitHostPort a = Inr (h, p) \<and> Atoi p = Inr n \<and> 0 \<le> n \<and> n \<le> 65535)" for a
    by (auto simp: validateTCPAddr_def split: sum.splits if_splits)
  have r: "Config_Load getenv = Inr c \<longleftrightarrow>
     c = \<lparr>HTTPAddr = (if getenv ''HTTP_ADDR'' = [] then '':8080'' else getenv ''HTTP_ADDR''),
          ModelPath = (if getenv ''MODEL_PATH'' = [] then ''models/v1.0.0/model.json'' else getenv ''MODEL_PATH'')\<rparr> \<and>
     validateTCPAddr (HTTPAddr c) = None"
    by (auto simp: Config_Load_def Let_def defaultHTTPAddr_def defaultModelPath_def split: option.splits)
  show ?thesis unfolding r v split_correct plain_address_def bracket_address_def by blast
qed

end
