(* ===== verification/Model_File.thy ===== *)
theory Model_File
  imports Fraud_Model Json_Encode
begin

text \<open>
  Reading a model artifact (internal/model, \<open>Parse\<close> and \<open>Load\<close>): the JSON text is unmarshalled
  into the struct and validated. \<open>readFile\<close> is \<open>os.ReadFile\<close>: the contents of a path, or an error.
\<close>

section \<open>The struct\<close>

text \<open>The variable that is decoded into; its slices keep what their arrays held before.\<close>

record artifact =
  artVersion :: string
  artCreatedAt :: string
  artFeatureOrder :: "string slice"
  artWeights :: "float64 slice"
  artIntercept :: float64

definition zero_artifact :: artifact where
  "zero_artifact = \<lparr>artVersion = [], artCreatedAt = [], artFeatureOrder = nil_slice, artWeights = nil_slice,
     artIntercept = Fin False 0\<rparr>"

definition artifact_fields :: "(string \<times> artifact decoder) list" where
  "artifact_fields =
     [(''model_version'', field artVersion (\<lambda>x s. s\<lparr>artVersion := x\<rparr>) decode_string),
      (''created_at'', field artCreatedAt (\<lambda>x s. s\<lparr>artCreatedAt := x\<rparr>) decode_string),
      (''feature_order'', field artFeatureOrder (\<lambda>x s. s\<lparr>artFeatureOrder := x\<rparr>) (decode_slice ''[]string'' decode_string [])),
      (''weights'', field artWeights (\<lambda>x s. s\<lparr>artWeights := x\<rparr>) (decode_slice ''[]float64'' decode_float64 (Fin False 0))),
      (''intercept'', field artIntercept (\<lambda>x s. s\<lparr>artIntercept := x\<rparr>) decode_float64)]"

definition decode_artifact :: "artifact decoder" where
  "decode_artifact = decode_struct False ''model.Model'' artifact_fields"

definition model_of :: "artifact \<Rightarrow> Model" where
  "model_of a = \<lparr>Version = artVersion a, CreatedAt = artCreatedAt a, FeatureOrder = elems (artFeatureOrder a),
     Weights = elems (artWeights a), Intercept = artIntercept a\<rparr>"

section \<open>Parsing and loading\<close>

datatype load_error =
    ReadArtifact string string
  | ParseArtifact decode_error
  | InvalidArtifact model_error

definition Model_Parse :: "string \<Rightarrow> load_error + Model" where
  "Model_Parse data =
     (case Unmarshal decode_artifact zero_artifact data of
        (a, Some err) \<Rightarrow> Inl (ParseArtifact err)
      | (a, None) \<Rightarrow>
          let m = model_of a
          in case Model_validate m of Some err \<Rightarrow> Inl (InvalidArtifact err) | None \<Rightarrow> Inr m)"

definition Model_Load :: "(string \<Rightarrow> string + string) \<Rightarrow> string \<Rightarrow> load_error + Model" where
  "Model_Load readFile path =
     (case readFile path of
        Inl err \<Rightarrow> Inl (ReadArtifact path err)
      | Inr data \<Rightarrow> Model_Parse data)"

section \<open>Facts\<close>

lemma field_of_in: "field_of fds key = Some f \<Longrightarrow> f \<in> snd ` set fds"
  by (force simp: field_of_def find_Some_iff dest: map_of_SomeD nth_mem split: option.splits)

text \<open>An invariant of a struct that every field keeps is kept by decoding.\<close>

lemma decode_members_inv:
  assumes "\<And>f s v. f \<in> snd ` set fds \<Longrightarrow> I s \<Longrightarrow> I (fst (f s v))" "I s"
  shows "I (fst (decode_members strict fds s ms))"
  using assms(2)
proof (induction ms arbitrary: s)
  case (Cons m ms)
  obtain key v where m: "m = (key, v)" by (cases m)
  show ?case
  proof (cases "field_of fds key")
    case None
    then show ?thesis using Cons m by (simp add: split_def)
  next
    case (Some f)
    have "I (fst (f s v))" using assms(1) field_of_in [OF Some] Cons.prems by blast
    then show ?thesis using Cons.IH m Some by (simp add: split_def)
  qed
qed simp

lemma number_value_nonneg: "0 \<le> snd (number_value t)"
  by (simp add: number_value_def Let_def pow10_def)

lemma ParseFloat_ok: "ParseFloat t = Some x \<Longrightarrow> isFinite x \<and> float_ok x"
  using number_value_nonneg [of t] by (auto simp: ParseFloat_def split: prod.splits if_splits)

lemma decode_float64_ok: "float_ok x \<Longrightarrow> float_ok (fst (decode_float64 x v))"
  by (auto simp: decode_float64_def ParseFloat_ok split: json.split literal.split option.split)

lemma decode_elems_ok:
  assumes "\<And>x v. Q x \<Longrightarrow> Q (fst (f x v))" "Q zero" "list_all Q old"
  shows "list_all Q (fst (fst (decode_elems f zero old vs))) \<and> list_all Q (snd (fst (decode_elems f zero old vs)))"
  using assms(3)
proof (induction vs arbitrary: old)
  case (Cons v vs)
  have "list_all Q (tl old)" "Q (case old of [] \<Rightarrow> zero | x # _ \<Rightarrow> x)"
    using Cons.prems assms(2) by (cases old; simp)+
  then show ?case using Cons.IH assms(1) by (simp add: split_def)
qed simp

lemma decode_slice_ok:
  assumes "\<And>x v. Q x \<Longrightarrow> Q (fst (f x v))" "Q zero" "list_all Q (elems s @ spare s)"
  shows "list_all Q (elems (fst (decode_slice ty f zero s v)) @ spare (fst (decode_slice ty f zero s v)))"
  using decode_elems_ok [of Q f zero "elems s @ spare s", OF assms] assms(3)
  by (auto simp: decode_slice_def nil_slice_def split_def simp del: decode_elems.simps
      split: json.split literal.split list.split)

definition floats_ok :: "artifact \<Rightarrow> bool" where
  "floats_ok a \<longleftrightarrow> float_ok (artIntercept a) \<and> list_all float_ok (elems (artWeights a) @ spare (artWeights a))"

lemma artifact_floats: "floats_ok a \<Longrightarrow> floats_ok (fst (decode_artifact a v))"
proof -
  assume a: "floats_ok a"
  have f: "floats_ok (fst (f s v))" if "f \<in> snd ` set artifact_fields" "floats_ok s" for f s v
    using that decode_float64_ok [of "artIntercept s" v] decode_slice_ok [of float_ok decode_float64 "Fin False 0" "artWeights s" "''[]float64''" v]
      decode_float64_ok
    by (auto simp: artifact_fields_def field_def floats_ok_def split_def)
  have "floats_ok (fst (decode_members False artifact_fields a ms))" for ms
    by (rule decode_members_inv) (use f a in blast)+
  then show ?thesis
    unfolding decode_artifact_def decode_struct_def using a by (auto split: json.split literal.split)
qed

lemma parse_sound:
  assumes "Model_Parse data = Inr m"
  shows "model_ok m" "float_ok (Intercept m)" "list_all float_ok (Weights m)"
proof -
  obtain a where a: "Unmarshal decode_artifact zero_artifact data = (a, None)" "m = model_of a" "Model_validate m = None"
    using assms by (auto simp: Model_Parse_def Let_def split: prod.splits option.splits)
  then show "model_ok m" using validated by blast
  have "floats_ok zero_artifact" by (simp add: floats_ok_def zero_artifact_def nil_slice_def)
  then have "floats_ok a"
    using a(1) artifact_floats [of zero_artifact] by (auto simp: Unmarshal_def split: option.splits if_splits) (metis fst_conv)
  then show "float_ok (Intercept m)" "list_all float_ok (Weights m)" using a(2) by (simp_all add: floats_ok_def model_of_def)
qed

section \<open>The text of an artifact\<close>

text \<open>
  The JSON value that stands for a model; \<open>fmt\<close> gives the digits of a float64. Any text with this
  value is read as the model, however it is laid out.
\<close>

definition artifact_json :: "(float64 \<Rightarrow> string) \<Rightarrow> Model \<Rightarrow> json" where
  "artifact_json fmt m = JObject
     [(''model_version'', JLit (LString (Version m))),
      (''created_at'', JLit (LString (CreatedAt m))),
      (''feature_order'', JArray (map (\<lambda>n. JLit (LString n)) (FeatureOrder m))),
      (''weights'', JArray (map (\<lambda>w. JLit (LNumber (fmt w))) (Weights m))),
      (''intercept'', JLit (LNumber (fmt (Intercept m))))]"

lemma decode_elems_fresh:
  assumes "\<And>x. x \<in> set xs \<Longrightarrow> f zero (g x) = (x, None)"
  shows "decode_elems f zero [] (map g xs) = ((xs, []), None)"
  using assms by (induction xs) (simp_all add: first_def)

lemma decode_slice_fresh:
  assumes "\<And>x. x \<in> set xs \<Longrightarrow> f zero (g x) = (x, None)"
  shows "decode_slice ty f zero nil_slice (JArray (map g xs)) = (\<lparr>elems = xs, spare = []\<rparr>, None)"
proof (cases xs)
  case (Cons y ys)
  then have "\<exists>v vs. map g xs = v # vs" by simp
  then show ?thesis
    using decode_elems_fresh [of xs f zero g, OF assms] by (auto simp: decode_slice_def nil_slice_def simp del: decode_elems.simps)
qed (simp add: decode_slice_def nil_slice_def)

lemma fold_max_zero: "\<forall>v\<in>set vs. depth v = 0 \<Longrightarrow> fold (\<lambda>v m. max (depth v) m) vs k = (k :: nat)"
  by (induction vs) simp_all

lemma artifact_fields_of:
  "field_of artifact_fields ''model_version'' = Some (field artVersion (\<lambda>x s. s\<lparr>artVersion := x\<rparr>) decode_string)"
  "field_of artifact_fields ''created_at'' = Some (field artCreatedAt (\<lambda>x s. s\<lparr>artCreatedAt := x\<rparr>) decode_string)"
  "field_of artifact_fields ''feature_order'' =
     Some (field artFeatureOrder (\<lambda>x s. s\<lparr>artFeatureOrder := x\<rparr>) (decode_slice ''[]string'' decode_string []))"
  "field_of artifact_fields ''weights'' =
     Some (field artWeights (\<lambda>x s. s\<lparr>artWeights := x\<rparr>) (decode_slice ''[]float64'' decode_float64 (Fin False 0)))"
  "field_of artifact_fields ''intercept'' = Some (field artIntercept (\<lambda>x s. s\<lparr>artIntercept := x\<rparr>) decode_float64)"
  by (simp_all add: field_of_def artifact_fields_def)

lemma parse_artifact:
  assumes p: "parse_json t = Some (artifact_json fmt m)" and ok: "model_ok m"
    and fmt: "\<forall>w\<in>set (Intercept m # Weights m). ParseFloat (fmt w) = Some w"
  shows "Model_Parse t = Inr m"
proof -
  let ?v = "artifact_json fmt m"
  have d: "depth ?v = 2" by (simp add: artifact_json_def fold_max_zero)
  let ?a = "\<lparr>artVersion = Version m, artCreatedAt = CreatedAt m, artFeatureOrder = \<lparr>elems = FeatureOrder m, spare = []\<rparr>,
    artWeights = \<lparr>elems = Weights m, spare = []\<rparr>, artIntercept = Intercept m\<rparr>"
  have names: "decode_slice ''[]string'' decode_string [] nil_slice (JArray (map (\<lambda>n. JLit (LString n)) (FeatureOrder m))) =
      (\<lparr>elems = FeatureOrder m, spare = []\<rparr>, None)"
    by (rule decode_slice_fresh) (simp add: decode_string_def)
  have ws: "decode_slice ''[]float64'' decode_float64 (Fin False 0) nil_slice (JArray (map (\<lambda>w. JLit (LNumber (fmt w))) (Weights m))) =
      (\<lparr>elems = Weights m, spare = []\<rparr>, None)"
    by (rule decode_slice_fresh) (use fmt in \<open>simp add: decode_float64_def\<close>)
  have "decode_artifact zero_artifact ?v = (?a, None)"
    using fmt names ws
    by (simp add: decode_artifact_def decode_struct_def artifact_json_def artifact_fields_of field_def zero_artifact_def
        decode_string_def decode_float64_def first_def)
  moreover have "model_of ?a = m" by (simp add: model_of_def)
  ultimately show ?thesis
    using p d ok [folded validated] by (simp add: Model_Parse_def Unmarshal_def maxNestingDepth_def Let_def)
qed

definition example_format :: "float64 \<Rightarrow> string" where
  "example_format x = (if x = Fin False 2 then ''2.0'' else if x = Fin True (1 / 2) then ''-5e-1'' else ''0'')"

text \<open>A few numbers and their digits.\<close>

lemma example_digits:
  "number_ok ''2.0'' \<and> ParseFloat ''2.0'' = Some (Fin False 2)"
  "number_ok ''-5e-1'' \<and> ParseFloat ''-5e-1'' = Some (Fin True (1 / 2))"
  "number_ok ''0'' \<and> ParseFloat ''0'' = Some (Fin False 0)"
proof -
  have n: "number_value ''2.0'' = (False, 2)" "number_value ''-5e-1'' = (True, 1 / 2)" "number_value ''0'' = (False, 0)"
    by code_simp+
  have big: "(2 :: rat) < pow2 1024" "(0 :: rat) < pow2 1024" "(1 / 2 :: rat) < pow2 1024"
    using pow2_less [of 1 1024] pow2_less [of "-1" 1024] by (simp_all add: pow2_def)
  have "ParseFloat ''2.0'' = Some (Fin False 2)" "ParseFloat ''-5e-1'' = Some (Fin True (1 / 2))" "ParseFloat ''0'' = Some (Fin False 0)"
    unfolding ParseFloat_def n using big rv_small by (simp_all add: rnd_def not_le)
  moreover have "number_ok ''2.0''" "number_ok ''-5e-1''" "number_ok ''0''" by code_simp+
  ultimately show "number_ok ''2.0'' \<and> ParseFloat ''2.0'' = Some (Fin False 2)"
    "number_ok ''-5e-1'' \<and> ParseFloat ''-5e-1'' = Some (Fin True (1 / 2))"
    "number_ok ''0'' \<and> ParseFloat ''0'' = Some (Fin False 0)" by simp_all
qed

lemma example_artifact: "Model_Parse (print_json (artifact_json example_format example_model)) = Inr example_model"
proof (rule parse_artifact)
  have "printable (artifact_json example_format example_model)" by code_simp
  then show "parse_json (print_json (artifact_json example_format example_model)) =
      Some (artifact_json example_format example_model)" by (rule parse_print)
  show "model_ok example_model" by (simp add: model_ok_def example_model_def)
  show "\<forall>w\<in>set (Intercept example_model # Weights example_model). ParseFloat (example_format w) = Some w"
    using example_digits by (simp add: example_model_def example_format_def)
qed

end
