(* ===== verification/Score_Server.thy ===== *)
theory Score_Server
  imports Http_Api Server_Config Model_File
begin

text \<open>
  The program score-server (cmd/score-server/main.go): it reads the settings and the model, builds the
  service and the HTTP server, binds the address, and serves until a signal or an error. What the
  world answers is a record: the environment, the files, the network and, once the server runs, the event that
  ends it. \<open>run\<close> returns the error and the messages of the log.
\<close>

section \<open>The world\<close>

datatype serve_error = ErrServerClosed | ServeError string

text \<open>
  The branch the final \<open>select\<close> takes: a signal, with what \<open>Shutdown\<close> and \<open>Close\<close> then return, or the
  return of \<open>Serve\<close>.
\<close>

datatype ending = Signalled go_error go_error | Served serve_error

record world =
  getenv :: "string \<Rightarrow> string"
  readFile :: "string \<Rightarrow> string + string"
  listen :: "string \<Rightarrow> string + string"
  ending :: ending

section \<open>The server\<close>

definition second :: int where "second = 1000000000"

definition readHeaderTimeout :: int where "readHeaderTimeout = 5 * second"
definition readTimeout :: int where "readTimeout = 10 * second"
definition writeTimeout :: int where "writeTimeout = 5 * second"
definition idleTimeout :: int where "idleTimeout = 60 * second"
definition shutdownTimeout :: int where "shutdownTimeout = 5 * second"

record http_server =
  served :: Service
  ReadHeaderTimeout :: int
  ReadTimeout :: int
  WriteTimeout :: int
  IdleTimeout :: int

datatype run_error =
    LoadConfig "string \<times> config_problem"
  | LoadModel load_error
  | CreateService string
  | ListenOn string string
  | ShutdownFailed string
  | ServerFailed serve_error

text \<open>\<open>run\<close> up to the start of the goroutine that serves.\<close>

definition startup :: "world \<Rightarrow> string list \<times> (run_error + http_server)" where
  "startup w =
     (case Config_Load (getenv w) of
        Inl err \<Rightarrow> ([], Inl (LoadConfig err))
      | Inr cfg \<Rightarrow>
          (case Model_Load (readFile w) (ModelPath cfg) of
             Inl err \<Rightarrow> ([''loading model''], Inl (LoadModel err))
           | Inr m \<Rightarrow>
               (case NewService (Some m) (Some (\<lambda>t. t)) of
                  Inl err \<Rightarrow> ([''loading model'', ''model loaded''], Inl (CreateService err))
                | Inr service \<Rightarrow>
                    let srv = \<lparr>served = service, ReadHeaderTimeout = readHeaderTimeout, ReadTimeout = readTimeout,
                               WriteTimeout = writeTimeout, IdleTimeout = idleTimeout\<rparr>
                    in case listen w (HTTPAddr cfg) of
                         Inl err \<Rightarrow> ([''loading model'', ''model loaded''], Inl (ListenOn (HTTPAddr cfg) err))
                       | Inr bound \<Rightarrow> ([''loading model'', ''model loaded'', ''server listening''], Inr srv))))"

definition finish :: "ending \<Rightarrow> string list \<times> run_error option" where
  "finish e =
     (case e of
        Signalled (Some err) closeErr \<Rightarrow>
          (''shutdown signal received'' # (if closeErr = None then [] else [''forced server close failed'']),
           Some (ShutdownFailed err))
      | Signalled None _ \<Rightarrow> ([''shutdown signal received'', ''server stopped cleanly''], None)
      | Served err \<Rightarrow> ([], if err = ErrServerClosed then None else Some (ServerFailed err)))"

definition run_server :: "world \<Rightarrow> string list \<times> run_error option" where
  "run_server w =
     (case startup w of
        (lines, Inl err) \<Rightarrow> (lines, Some err)
      | (lines, Inr srv) \<Rightarrow> (case finish (ending w) of (rest, err) \<Rightarrow> (lines @ rest, err)))"

text \<open>\<open>main\<close>: the log and the status with which the process exits.\<close>

definition main :: "world \<Rightarrow> string list \<times> nat" where
  "main w = (case run_server w of (lines, None) \<Rightarrow> (lines, 0) | (lines, Some err) \<Rightarrow> (lines @ [''server terminated''], 1))"

section \<open>Facts\<close>

lemma startup_Inr:
  assumes "startup w = (lines, Inr srv)"
  obtains cfg data m bound where "Config_Load (getenv w) = Inr cfg" "readFile w (ModelPath cfg) = Inr data"
    "Model_Parse data = Inr m" "NewService (Some m) (Some (\<lambda>t. t)) = Inr (served srv)" "listen w (HTTPAddr cfg) = Inr bound"
    "lines = [''loading model'', ''model loaded'', ''server listening'']"
  using assms
  by (auto simp: startup_def Model_Load_def Let_def split: sum.splits)

definition example_world :: world where
  "example_world =
     \<lparr>getenv = (\<lambda>name. []), readFile = (\<lambda>path. Inr (print_json (artifact_json example_format example_model))),
      listen = (\<lambda>addr. Inr ''[::]:8080''), ending = Signalled None None\<rparr>"

lemma example_startup: "\<exists>srv. startup example_world = ([''loading model'', ''model loaded'', ''server listening''], Inr srv)"
proof -
  have "validateTCPAddr '':8080'' = None" by code_simp
  then show ?thesis
    using example_artifact
    by (simp add: startup_def example_world_def Config_Load_def defaultHTTPAddr_def Model_Load_def NewService_def Let_def)
qed

section \<open>Properties\<close>

text \<open>
  C36. When the start of the program gets as far as serving, the model file was read, parsed and validated and
  the address was bound; from then on the service is ready and every scoring request gets one of the
  answers 200, 400, 413 and 415, whatever its bytes: no request makes the server fail.
\<close>

theorem server_never_fails:
  assumes "startup w = (lines, Inr srv)" "exp_ok Exp"
  shows "(\<exists>cfg data m. Config_Load (getenv w) = Inr cfg \<and> readFile w (ModelPath cfg) = Inr data \<and>
      Model_Parse data = Inr m \<and> model_ok m \<and> activeModel (served srv) = Some m) \<and>
    Status (readyHandler (served srv) r) = 200 \<and>
    (\<exists>resp. scoreHandler quote wording formatFloat Exp fused t (served srv) r = Ok resp \<and>
       Status resp \<in> {200, 400, 413, 415})"
proof -
  obtain cfg data m bound where s: "Config_Load (getenv w) = Inr cfg" "readFile w (ModelPath cfg) = Inr data"
    "Model_Parse data = Inr m" "NewService (Some m) (Some (\<lambda>t. t)) = Inr (served srv)"
    using assms(1) by (rule startup_Inr)
  note ok = parse_sound [OF s(3)]
  have "served srv = \<lparr>model = Some m, clock = (\<lambda>t. t)\<rparr>" using s(4) by (simp add: NewService_def)
  then have act: "activeModel (served srv) = Some m" by (simp add: activeModel_def)
  then have "Status (readyHandler (served srv) r) = 200"
    by (simp add: readyHandler_def Service_Ready_def activeModel_def writeJSON_def marshal_status_def)
  then show ?thesis
    using s ok act score_answered [OF s(4) ok(1,2) assms(2), of quote wording formatFloat fused t r] by blast
qed

theorem server_never_fails_witness:
  "\<exists>lines srv resp. startup example_world = (lines, Inr srv) \<and>
     scoreHandler (\<lambda>x. x) (\<lambda>b e. []) (\<lambda>f. ''0.5'') example_exp False 7 (served srv) example_request = Ok resp \<and>
     Status resp \<in> {200, 400, 413, 415}"
proof -
  obtain srv where s: "startup example_world = ([''loading model'', ''model loaded'', ''server listening''], Inr srv)"
    using example_startup by blast
  show ?thesis using s server_never_fails [OF s example_exp_ok] by blast
qed

text \<open>
  C37. The process exits with 0 exactly when the settings, the model and the address were accepted and the server
  then stopped in order: on a signal after a shutdown in time, or because it was closed. The line that says
  the server listens is written exactly when the address was bound.
\<close>

theorem exit_status:
  "(snd (main w) = 0 \<longleftrightarrow>
     (\<exists>cfg m bound. Config_Load (getenv w) = Inr cfg \<and> Model_Load (readFile w) (ModelPath cfg) = Inr m \<and>
        listen w (HTTPAddr cfg) = Inr bound) \<and>
     ((\<exists>c. ending w = Signalled None c) \<or> ending w = Served ErrServerClosed)) \<and>
   (''server listening'' \<in> set (fst (main w)) \<longleftrightarrow>
     (\<exists>cfg m bound. Config_Load (getenv w) = Inr cfg \<and> Model_Load (readFile w) (ModelPath cfg) = Inr m \<and>
        listen w (HTTPAddr cfg) = Inr bound))"
proof -
  have fin: "snd (finish e) = None \<longleftrightarrow> (\<exists>c. e = Signalled None c) \<or> e = Served ErrServerClosed"
    "''server listening'' \<notin> set (fst (finish e))" for e
    by (auto simp: finish_def split: ending.split option.split)
  obtain rest err where f: "finish (ending w) = (rest, err)" by (cases "finish (ending w)")
  obtain lines res where st: "startup w = (lines, res)" by (cases "startup w")
  have start: "(\<exists>srv. res = Inr srv) \<longleftrightarrow> (\<exists>cfg m bound. Config_Load (getenv w) = Inr cfg \<and>
      Model_Load (readFile w) (ModelPath cfg) = Inr m \<and> listen w (HTTPAddr cfg) = Inr bound)"
    "''server listening'' \<in> set lines \<longleftrightarrow> (\<exists>srv. res = Inr srv)"
    using st by (auto simp: startup_def NewService_def Let_def split: sum.splits)
  show ?thesis
    unfolding start(1) [symmetric] using st f fin [of "ending w"] start(2)
    by (cases res; cases err) (auto simp: main_def run_server_def)
qed

end
