(* ===== verification/Model_Export.thy ===== *)
theory Model_Export
  imports Model_File
begin

text \<open>
  The artifact as the training script writes it (training/train.py): the names of the features, the dictionary
  of the artifact, and \<open>json.dumps(artifact, indent=2)\<close>, the text that the service reads. Training itself is
  not modelled: the folded weights and the folded intercept are arguments, any float64 values, and so is the
  date of the day. \<open>repr\<close> is Python's \<open>float.__repr__\<close>, the digits of a finite float; what is not finite is
  written as \<open>NaN\<close>, \<open>Infinity\<close> or \<open>-Infinity\<close>, which is not JSON. Strings are made of ASCII characters.
\<close>

section \<open>Python's encoder\<close>

datatype py =
    PyStr string
  | PyFloat float64
  | PyList "py list"
  | PyDict "(string \<times> py) list"

definition py_plain :: "char \<Rightarrow> bool" where
  "py_plain c \<longleftrightarrow> 32 \<le> code c \<and> code c \<le> 126 \<and> c \<noteq> CHR 0x22 \<and> c \<noteq> CHR 0x5C"

definition py_string :: "string \<Rightarrow> string" where
  "py_string s = CHR 0x22 # concat (map (\<lambda>c. if py_plain c then [c] else ascii_escape c) s) @ [CHR 0x22]"

definition py_float :: "(float64 \<Rightarrow> string) \<Rightarrow> float64 \<Rightarrow> string" where
  "py_float repr x =
     (case x of
        NaN \<Rightarrow> ''NaN''
      | Inf s \<Rightarrow> if s then ''-Infinity'' else ''Infinity''
      | Fin _ _ \<Rightarrow> repr x)"

definition newline_indent :: "nat \<Rightarrow> string" where
  "newline_indent n = CHR 0x0A # replicate (2 * n) (CHR '' '')"

text \<open>The text of a value at a level of indentation.\<close>

fun dumps :: "(float64 \<Rightarrow> string) \<Rightarrow> nat \<Rightarrow> py \<Rightarrow> string" where
  "dumps repr n (PyStr s) = py_string s"
| "dumps repr n (PyFloat x) = py_float repr x"
| "dumps repr n (PyList vs) =
     (if vs = [] then ''[]''
      else CHR ''['' # join (map (\<lambda>v. newline_indent (Suc n) @ dumps repr (Suc n) v) vs) @ newline_indent n @ '']'')"
| "dumps repr n (PyDict ms) =
     (if ms = [] then ''{}''
      else CHR ''{'' # join (map (\<lambda>(k, v). newline_indent (Suc n) @ py_string k @ '': '' @ dumps repr (Suc n) v) ms) @
        newline_indent n @ ''}'')"

section \<open>The script\<close>

definition MODEL_VERSION :: string where
  "MODEL_VERSION = ''v1.0.0''"

definition FEATURES :: "string list" where
  "FEATURES = [''Time''] @ map (\<lambda>i. CHR ''V'' # show_nat i) [1..<29] @ [''Amount'']"

text \<open>\<open>dt.date.isoformat\<close>: year, month and day in four, two and two digits.\<close>

fun padded :: "nat \<Rightarrow> nat \<Rightarrow> string" where
  "padded 0 n = []"
| "padded (Suc k) n = padded k (n div 10) @ [char_of (48 + n mod 10)]"

fun isoformat :: "nat \<times> nat \<times> nat \<Rightarrow> string" where
  "isoformat (year, month, day) = padded 4 year @ ''-'' @ padded 2 month @ ''-'' @ padded 2 day"

definition training_artifact :: "nat \<times> nat \<times> nat \<Rightarrow> float64 list \<Rightarrow> float64 \<Rightarrow> py" where
  "training_artifact today w_folded b_folded = PyDict
     [(''model_version'', PyStr MODEL_VERSION),
      (''created_at'', PyStr (isoformat today)),
      (''feature_order'', PyList (map PyStr FEATURES)),
      (''weights'', PyList (map PyFloat w_folded)),
      (''intercept'', PyFloat b_folded)]"

definition export_text :: "(float64 \<Rightarrow> string) \<Rightarrow> nat \<times> nat \<times> nat \<Rightarrow> float64 list \<Rightarrow> float64 \<Rightarrow> string" where
  "export_text repr today w_folded b_folded = dumps repr 0 (training_artifact today w_folded b_folded)"

section \<open>What a JSON parser makes of the text\<close>

text \<open>The value of the text: none when a float in it is not finite.\<close>

fun json_of :: "(float64 \<Rightarrow> string) \<Rightarrow> py \<Rightarrow> json option" where
  "json_of repr (PyStr s) = Some (JLit (LString s))"
| "json_of repr (PyFloat x) = (if isFinite x then Some (JLit (LNumber (repr x))) else None)"
| "json_of repr (PyList vs) = map_option JArray (those (map (json_of repr) vs))"
| "json_of repr (PyDict ms) = map_option JObject (those (map (\<lambda>(k, v). member (k, json_of repr v)) ms))"

text \<open>Names and dates: printable ASCII that neither encoder escapes.\<close>

definition simple :: "string \<Rightarrow> bool" where
  "simple s \<longleftrightarrow> list_all (\<lambda>c. py_plain c \<and> html_safe c) s"

fun exportable :: "(float64 \<Rightarrow> string) \<Rightarrow> py \<Rightarrow> bool" where
  "exportable repr (PyStr s) = simple s"
| "exportable repr (PyFloat x) = (isFinite x \<longrightarrow> number_ok (repr x))"
| "exportable repr (PyList vs) = list_all (exportable repr) vs"
| "exportable repr (PyDict ms) = list_all (\<lambda>(k, v). simple k \<and> exportable repr v) ms"

lemma simple_string:
  assumes "simple s"
  shows "py_string s = print_string s" "utf8 s"
proof -
  have "concat (map (\<lambda>c. if py_plain c then [c] else ascii_escape c) s) = s" using assms by (induction s) (simp_all add: simple_def)
  moreover have "escape s = s" using assms by (induction s) (simp_all add: escape.simps simple_def py_plain_def)
  ultimately show "py_string s = print_string s" by (simp add: py_string_def print_string_def)
  show "utf8 s"
    using assms by (induction s) (simp_all add: utf8.simps rune_length_def simple_def py_plain_def)
qed

lemma newline_space: "list_all isSpace (newline_indent n)"
  by (simp add: newline_indent_def isSpace_def list_all_iff)

lemma py_float_reads:
  assumes "isFinite x \<longrightarrow> number_ok (repr x)"
  shows "reads_as (py_float repr x) (json_of repr (PyFloat x))"
proof (cases x)
  case (Fin s q)
  then show ?thesis using assms printable_literal [of "LNumber (repr x)"] by (simp add: py_float_def)
next
  case (Inf s)
  have "reads_as ''-Infinity'' None"
    by (rule reads_scalar [OF refl]) (simp_all add: isSpace_def scan_literal_def scan_number_def scan_int_def digits1_def isDigit_def code_def)
  moreover have "reads_as ''Infinity'' None"
    by (rule reads_scalar [OF refl]) (simp_all add: isSpace_def scan_literal_def isDigit_def code_def)
  ultimately show ?thesis using Inf by (simp add: py_float_def)
next
  case NaN
  have "reads_as ''NaN'' None"
    by (rule reads_scalar [OF refl]) (simp_all add: isSpace_def scan_literal_def isDigit_def code_def)
  then show ?thesis using NaN by (simp add: py_float_def)
qed

lemma py_member_reads:
  assumes "simple k" "reads_as u v"
  shows "reads_member (newline_indent n @ py_string k @ '': '' @ u) (k, v)"
  unfolding reads_member_def
  by (intro exI [of _ "newline_indent n"] exI [of _ "escape k"] exI [of _ "CHR '' '' # u"])
    (use assms reads_as_pad [of "'' ''" u v] simple_string [OF assms(1)] newline_space in
      \<open>simp add: print_string_def scan_string_escape unquote_escape isSpace_def\<close>)

lemma dumps_reads: "exportable repr v \<Longrightarrow> reads_as (dumps repr n v) (json_of repr v)"
proof (induction v arbitrary: n)
  case (PyStr s)
  then show ?case using simple_string [of s] printable_literal [of "LString s"] by simp
next
  case (PyFloat x)
  then show ?case using py_float_reads [of x repr] by simp
next
  case (PyList vs)
  have "reads_as (newline_indent (Suc n) @ dumps repr (Suc n) v) (json_of repr v)" if "v \<in> set vs" for v
    using PyList that by (intro reads_as_pad newline_space) (auto simp: list_all_iff)
  then have "list_all2 reads_as (map (\<lambda>v. newline_indent (Suc n) @ dumps repr (Suc n) v) vs) (map (json_of repr) vs)"
    by (simp add: list_all2_map1 list_all2_map2 list_all2_same)
  from reads_array [OF this newline_space [of n]] reads_array [of "[]" "[]" "[]"] show ?case by simp
next
  case (PyDict ms)
  have "reads_member (newline_indent (Suc n) @ py_string k @ '': '' @ dumps repr (Suc n) v) (k, json_of repr v)"
    if "(k, v) \<in> set ms" for k v
    using PyDict that by (intro py_member_reads) (force simp: list_all_iff)+
  then have "list_all2 reads_member
      (map (\<lambda>(k, v). newline_indent (Suc n) @ py_string k @ '': '' @ dumps repr (Suc n) v) ms)
      (map (\<lambda>(k, v). (k, json_of repr v)) ms)"
    by (auto simp: list_all2_map1 list_all2_map2 list_all2_same)
  from reads_object [OF this newline_space [of n]] reads_object [of "[]" "[]" "[]"] show ?case
    by (simp add: comp_def split_def)
qed

section \<open>The exported artifact\<close>

definition exported_model :: "nat \<times> nat \<times> nat \<Rightarrow> float64 list \<Rightarrow> float64 \<Rightarrow> Model" where
  "exported_model today w_folded b_folded =
     \<lparr>Version = ''v1.0.0'', CreatedAt = isoformat today, FeatureOrder = FEATURES,
      Weights = w_folded, Intercept = b_folded\<rparr>"

lemma FEATURES_simple: "list_all simple FEATURES" "length FEATURES = 30" "FEATURES \<noteq> []"
  by code_simp+

lemma keys_simple:
  "simple ''model_version''" "simple ''created_at''" "simple ''feature_order''" "simple ''weights''" "simple ''intercept''"
  "simple MODEL_VERSION"
  by code_simp+

lemma digit_simple: "simple [char_of (48 + n mod 10 :: nat)]"
proof -
  have "simple [c]" if "code c = 48 + k" "k < 10" for c k
    using that by (auto simp: simple_def py_plain_def html_safe_def code_def)
  then show ?thesis by (simp add: code_def)
qed

lemma simple_append: "simple (s @ t) \<longleftrightarrow> simple s \<and> simple t"
  by (simp add: simple_def)

lemma padded_simple: "simple (padded k n)"
  by (induction k arbitrary: n) (simp_all only: padded.simps simple_append digit_simple, simp add: simple_def)

lemma isoformat_simple: "simple (isoformat today)"
proof -
  have "simple ''-''" by code_simp
  then show ?thesis by (cases today) (simp only: isoformat.simps simple_append padded_simple simp_thms)
qed

lemma those_floats:
  "those (map (json_of repr) (map PyFloat fs)) =
     (if \<forall>x\<in>set fs. isFinite x then Some (map (\<lambda>w. JLit (LNumber (repr w))) fs) else None)"
  by (induction fs) auto

lemma those_strings: "those (map (json_of repr) (map PyStr names)) = Some (map (\<lambda>n. JLit (LString n)) names)"
  by (induction names) simp_all

lemma training_artifact_json:
  "json_of repr (training_artifact today fs b) =
     (if \<forall>x\<in>set (b # fs). isFinite x then Some (artifact_json repr (exported_model today fs b)) else None)"
  by (simp add: training_artifact_def artifact_json_def exported_model_def MODEL_VERSION_def member_def
      those_floats those_strings del: map_map)

text \<open>The text parses exactly when every number in it is finite.\<close>

lemma export_parses:
  assumes "\<forall>x\<in>set (b # fs). isFinite x \<longrightarrow> number_ok (repr x)"
  shows "parse_json (export_text repr today fs b) =
    (if \<forall>x\<in>set (b # fs). isFinite x then Some (artifact_json repr (exported_model today fs b)) else None)"
proof -
  have "exportable repr (training_artifact today fs b)"
    using assms keys_simple isoformat_simple FEATURES_simple(1) by (auto simp: training_artifact_def list_all_iff)
  then show ?thesis
    unfolding export_text_def training_artifact_json [symmetric] by (intro parse_reads dumps_reads)
qed

section \<open>Properties\<close>

text \<open>
  C35. The contract between the training script and the service: whatever the thirty folded weights, the folded
  intercept and the day, the file that the script writes is read by \<open>Parse\<close> as exactly that model, with the
  thirty features in the script's order, when every number is finite. When one is not, the script still writes
  the file, with the word \<open>NaN\<close> or \<open>Infinity\<close> in it, and \<open>Parse\<close> refuses it as malformed. Of \<open>repr\<close> it
  is only used that the digits of a finite float are a JSON number and denote that float.
\<close>

theorem export_is_read:
  assumes "length w_folded = 30"
    "\<forall>x\<in>set (b_folded # w_folded). isFinite x \<longrightarrow> number_ok (repr x) \<and> ParseFloat (repr x) = Some x"
  shows "Model_Parse (export_text repr today w_folded b_folded) =
    (if \<forall>x\<in>set (b_folded # w_folded). isFinite x
     then Inr \<lparr>Version = ''v1.0.0'', CreatedAt = isoformat today, FeatureOrder = FEATURES,
       Weights = w_folded, Intercept = b_folded\<rparr>
     else Inl (ParseArtifact Malformed))"
proof (cases "\<forall>x\<in>set (b_folded # w_folded). isFinite x")
  case True
  let ?m = "exported_model today w_folded b_folded"
  have "parse_json (export_text repr today w_folded b_folded) = Some (artifact_json repr ?m)"
    using export_parses [of b_folded w_folded repr today] assms(2) True by auto
  moreover have "model_ok ?m" using True assms(1) FEATURES_simple(2,3) by (simp add: model_ok_def exported_model_def)
  ultimately have "Model_Parse (export_text repr today w_folded b_folded) = Inr ?m"
    by (rule parse_artifact) (use assms(2) True in \<open>auto simp: exported_model_def\<close>)
  then show ?thesis unfolding if_P [OF True] exported_model_def .
next
  case False
  then have "parse_json (export_text repr today w_folded b_folded) = None"
    using export_parses [of b_folded w_folded repr today] assms(2) by auto
  then show ?thesis unfolding if_not_P [OF False] by (simp add: Model_Parse_def Unmarshal_def)
qed

theorem export_is_read_witness:
  "Model_Parse (export_text example_format (2026, 7, 21) (replicate 30 (Fin False 2)) (Fin True (1 / 2))) =
     Inr \<lparr>Version = ''v1.0.0'', CreatedAt = ''2026-07-21'', FeatureOrder = FEATURES,
       Weights = replicate 30 (Fin False 2), Intercept = Fin True (1 / 2)\<rparr> \<and>
   Model_Parse (export_text example_format (2026, 7, 21) (replicate 30 (Fin False 2)) NaN) = Inl (ParseArtifact Malformed)"
proof -
  have day: "isoformat (2026, 7, 21) = ''2026-07-21''" by code_simp
  have ok: "\<forall>x\<in>set (b # replicate 30 (Fin False 2)). isFinite x \<longrightarrow>
      number_ok (example_format x) \<and> ParseFloat (example_format x) = Some x" if "b \<in> {NaN, Fin True (1 / 2)}" for b
    using that example_digits by (auto simp: example_format_def)
  show ?thesis
    using export_is_read [of "replicate 30 (Fin False 2)" NaN example_format "(2026, 7, 21)", OF _ ok]
      export_is_read [of "replicate 30 (Fin False 2)" "Fin True (1 / 2)" example_format "(2026, 7, 21)", OF _ ok]
    by (simp add: day del: isoformat.simps)
qed

end
