(* ===== verification/Raft_Transport.thy ===== *)
theory Raft_Transport
  imports Json_Encode Media_Type Raft_Node
begin

text \<open>
  Raft over HTTP (raft/httptransport): the client that posts a message as JSON to a peer and decodes the
  reply, and the handler that decodes a message, calls the node and encodes its reply. Go's interface
  \<open>RPCHandler\<close> is a record of functions on the state of a node. The network is a function from the URL and
  the body of a request to what comes back; \<open>wording\<close> and \<open>quote\<close> are the texts of the decoder's
  errors and the verb \<open>%q\<close>.
\<close>

section \<open>Messages as JSON\<close>

definition uint_json :: "'w::len word \<Rightarrow> json" where
  "uint_json w = JLit (LNumber (show_nat (unat w)))"

text \<open>
  Base64, as \<open>encoding/json\<close> writes a slice of bytes: six bits a character, padded to four characters.
  The decoder skips line ends and ignores the unused bits of the last character.
\<close>

definition b64_char :: "nat \<Rightarrow> char" where
  "b64_char n = ''ABCDEFGHIJKLMNOPQRSTUVWXYZabcdefghijklmnopqrstuvwxyz0123456789+/'' ! n"

definition b64_value :: "char \<Rightarrow> nat option" where
  "b64_value c =
     (if 65 \<le> code c \<and> code c \<le> 90 then Some (code c - 65)
      else if 97 \<le> code c \<and> code c \<le> 122 then Some (code c - 71)
      else if isDigit c then Some (code c + 4)
      else if c = CHR ''+'' then Some 62
      else if c = CHR ''/'' then Some 63
      else None)"

fun b64_encode :: "bytes \<Rightarrow> string" where
  "b64_encode [] = []"
| "b64_encode [a] = [b64_char (unat a div 4), b64_char (unat a mod 4 * 16), CHR ''='', CHR ''='']"
| "b64_encode [a, b] =
     [b64_char (unat a div 4), b64_char (unat a mod 4 * 16 + unat b div 16), b64_char (unat b mod 16 * 4), CHR ''='']"
| "b64_encode (a # b # c # r) =
     b64_char (unat a div 4) # b64_char (unat a mod 4 * 16 + unat b div 16) #
     b64_char (unat b mod 16 * 4 + unat c div 64) # b64_char (unat c mod 64) # b64_encode r"

fun b64_decode :: "string \<Rightarrow> bytes option" where
  "b64_decode [] = Some []"
| "b64_decode (p # q # x # y # r) =
     (case (b64_value p, b64_value q, b64_value x, b64_value y) of
        (Some i, Some j, Some k, Some l) \<Rightarrow>
          map_option (\<lambda>bs. of_nat (i * 4 + j div 16) # of_nat (j mod 16 * 16 + k div 4) # of_nat (k mod 4 * 64 + l) # bs)
            (b64_decode r)
      | (Some i, Some j, Some k, None) \<Rightarrow>
          if y = CHR ''='' \<and> r = [] then Some [of_nat (i * 4 + j div 16), of_nat (j mod 16 * 16 + k div 4)] else None
      | (Some i, Some j, None, _) \<Rightarrow>
          if x = CHR ''='' \<and> y = CHR ''='' \<and> r = [] then Some [of_nat (i * 4 + j div 16)] else None
      | _ \<Rightarrow> None)"
| "b64_decode _ = None"

definition isLineEnd :: "char \<Rightarrow> bool" where
  "isLineEnd c \<longleftrightarrow> c = CHR 0x0D \<or> c = CHR 0x0A"

text \<open>A nil slice is null; the model's lists do not tell it from an empty one.\<close>

definition bytes_json :: "bytes \<Rightarrow> json" where
  "bytes_json b = (if b = [] then JLit LNull else JLit (LString (b64_encode b)))"

definition entry_json :: "Entry \<Rightarrow> json" where
  "entry_json e = JObject
     [(''Index'', uint_json (Index e)), (''Term'', uint_json (Term e)), (''Command'', bytes_json (Command e))]"

definition entries_json :: "Entry list \<Rightarrow> json" where
  "entries_json es = (if es = [] then JLit LNull else JArray (map entry_json es))"

definition vote_args_json :: "RequestVoteArgs \<Rightarrow> json" where
  "vote_args_json a = JObject
     [(''Term'', uint_json (rvTerm a)), (''CandidateID'', JLit (LString (CandidateID a))),
      (''LastLogIndex'', uint_json (LastLogIndex a)), (''LastLogTerm'', uint_json (LastLogTerm a))]"

definition vote_reply_json :: "RequestVoteReply \<Rightarrow> json" where
  "vote_reply_json a = JObject
     [(''Term'', uint_json (rvrTerm a)), (''VoteGranted'', JLit (LBool (VoteGranted a)))]"

definition append_args_json :: "AppendEntriesArgs \<Rightarrow> json" where
  "append_args_json a = JObject
     [(''Term'', uint_json (aeTerm a)), (''LeaderID'', JLit (LString (LeaderID a))),
      (''PrevLogIndex'', uint_json (PrevLogIndex a)), (''PrevLogTerm'', uint_json (PrevLogTerm a)),
      (''Entries'', entries_json (Entries a)), (''LeaderCommit'', uint_json (LeaderCommit a))]"

definition append_reply_json :: "AppendEntriesReply \<Rightarrow> json" where
  "append_reply_json a = JObject
     [(''Term'', uint_json (aerTerm a)), (''Success'', JLit (LBool (Success a)))]"

section \<open>Decoding messages\<close>

definition zero_vote_args :: RequestVoteArgs where
  "zero_vote_args = \<lparr>rvTerm = 0, CandidateID = [], LastLogIndex = 0, LastLogTerm = 0\<rparr>"

definition zero_vote_reply :: RequestVoteReply where
  "zero_vote_reply = \<lparr>rvrTerm = 0, VoteGranted = False\<rparr>"

definition zero_append_reply :: AppendEntriesReply where
  "zero_append_reply = \<lparr>aerTerm = 0, Success = False\<rparr>"

definition decode_vote_args :: "RequestVoteArgs decoder" where
  "decode_vote_args = decode_struct False ''raft.RequestVoteArgs''
     [(''Term'', field rvTerm (\<lambda>x s. s\<lparr>rvTerm := x\<rparr>) decode_uint),
      (''CandidateID'', field CandidateID (\<lambda>x s. s\<lparr>CandidateID := x\<rparr>) decode_string),
      (''LastLogIndex'', field LastLogIndex (\<lambda>x s. s\<lparr>LastLogIndex := x\<rparr>) decode_uint),
      (''LastLogTerm'', field LastLogTerm (\<lambda>x s. s\<lparr>LastLogTerm := x\<rparr>) decode_uint)]"

definition decode_vote_reply :: "RequestVoteReply decoder" where
  "decode_vote_reply = decode_struct False ''raft.RequestVoteReply''
     [(''Term'', field rvrTerm (\<lambda>x s. s\<lparr>rvrTerm := x\<rparr>) decode_uint),
      (''VoteGranted'', field VoteGranted (\<lambda>x s. s\<lparr>VoteGranted := x\<rparr>) decode_bool)]"

definition decode_append_reply :: "AppendEntriesReply decoder" where
  "decode_append_reply = decode_struct False ''raft.AppendEntriesReply''
     [(''Term'', field aerTerm (\<lambda>x s. s\<lparr>aerTerm := x\<rparr>) decode_uint),
      (''Success'', field Success (\<lambda>x s. s\<lparr>Success := x\<rparr>) decode_bool)]"

text \<open>
  A slice of bytes is decoded from base64, or from an array of numbers as any other slice. While a
  message is decoded its slices remember their arrays, so the variable is a record of its own.
\<close>

definition decode_bytes :: "byte slice decoder" where
  "decode_bytes s v =
     (case v of
        JLit (LString t) \<Rightarrow>
          (case b64_decode (filter (\<lambda>c. \<not> isLineEnd c) t) of
             Some b \<Rightarrow> (\<lparr>elems = b, spare = []\<rparr>, None)
           | None \<Rightarrow> (s, Some CorruptBase64))
      | _ \<Rightarrow> decode_slice ''[]uint8'' decode_uint 0 s v)"

record entry_var =
  evIndex :: u64
  evTerm :: u64
  evCommand :: "byte slice"

definition zero_entry :: entry_var where
  "zero_entry = \<lparr>evIndex = 0, evTerm = 0, evCommand = nil_slice\<rparr>"

definition decode_entry :: "entry_var decoder" where
  "decode_entry = decode_struct False ''raft.Entry''
     [(''Index'', field evIndex (\<lambda>x s. s\<lparr>evIndex := x\<rparr>) decode_uint),
      (''Term'', field evTerm (\<lambda>x s. s\<lparr>evTerm := x\<rparr>) decode_uint),
      (''Command'', field evCommand (\<lambda>x s. s\<lparr>evCommand := x\<rparr>) decode_bytes)]"

record append_var =
  avTerm :: u64
  avLeaderID :: NodeID
  avPrevLogIndex :: u64
  avPrevLogTerm :: u64
  avEntries :: "entry_var slice"
  avLeaderCommit :: u64

definition zero_append :: append_var where
  "zero_append = \<lparr>avTerm = 0, avLeaderID = [], avPrevLogIndex = 0, avPrevLogTerm = 0, avEntries = nil_slice, avLeaderCommit = 0\<rparr>"

definition decode_append_args :: "append_var decoder" where
  "decode_append_args = decode_struct False ''raft.AppendEntriesArgs''
     [(''Term'', field avTerm (\<lambda>x s. s\<lparr>avTerm := x\<rparr>) decode_uint),
      (''LeaderID'', field avLeaderID (\<lambda>x s. s\<lparr>avLeaderID := x\<rparr>) decode_string),
      (''PrevLogIndex'', field avPrevLogIndex (\<lambda>x s. s\<lparr>avPrevLogIndex := x\<rparr>) decode_uint),
      (''PrevLogTerm'', field avPrevLogTerm (\<lambda>x s. s\<lparr>avPrevLogTerm := x\<rparr>) decode_uint),
      (''Entries'', field avEntries (\<lambda>x s. s\<lparr>avEntries := x\<rparr>) (decode_slice ''[]raft.Entry'' decode_entry zero_entry)),
      (''LeaderCommit'', field avLeaderCommit (\<lambda>x s. s\<lparr>avLeaderCommit := x\<rparr>) decode_uint)]"

definition entry_of :: "entry_var \<Rightarrow> Entry" where
  "entry_of e = \<lparr>Index = evIndex e, Term = evTerm e, Command = elems (evCommand e)\<rparr>"

definition append_args_of :: "append_var \<Rightarrow> AppendEntriesArgs" where
  "append_args_of a = \<lparr>aeTerm = avTerm a, LeaderID = avLeaderID a, PrevLogIndex = avPrevLogIndex a,
     PrevLogTerm = avPrevLogTerm a, Entries = map entry_of (elems (avEntries a)), LeaderCommit = avLeaderCommit a\<rparr>"

section \<open>The handler\<close>

definition RequestVotePath :: string where "RequestVotePath = ''/raft/v1/request-vote''"
definition AppendEntriesPath :: string where "AppendEntriesPath = ''/raft/v1/append-entries''"
definition maxBodyBytes :: nat where "maxBodyBytes = 16 * 2 ^ 20"

record 'n RPCHandler =
  onRequestVote :: "RequestVoteArgs \<Rightarrow> 'n \<Rightarrow> ('n \<times> (node_error + RequestVoteReply), 'n) outcome"
  onAppendEntries :: "AppendEntriesArgs \<Rightarrow> 'n \<Rightarrow> ('n \<times> (node_error + AppendEntriesReply), 'n) outcome"

text \<open>The node as such a handler (raft/transport.go).\<close>

definition Node_RPCHandler :: "'s saver \<Rightarrow> env \<Rightarrow> 's Node RPCHandler" where
  "Node_RPCHandler sv ev = \<lparr>onRequestVote = HandleRequestVote sv ev, onAppendEntries = HandleAppendEntries sv ev\<rparr>"

record rpc_request =
  rpcMethod :: string
  rpcPath :: string
  rpcBody :: stream

record rpc_response =
  rpcStatus :: nat
  rpcData :: string

definition http_error :: "string \<Rightarrow> nat \<Rightarrow> rpc_response" where
  "http_error message status = \<lparr>rpcStatus = status, rpcData = message @ [CHR 0x0A]\<rparr>"

fun node_error_text :: "node_error \<Rightarrow> string" where
  "node_error_text ErrNotLeader = ''raft: not the leader''"
| "node_error_text ErrStopped = ''raft: node is stopped''"
| "node_error_text ErrEmptyCommand = ''raft: empty command''"

text \<open>\<open>decode\<close>: the message, or the response that says why there is none.\<close>

definition decode :: "(string \<Rightarrow> decode_error \<Rightarrow> string) \<Rightarrow> stream \<Rightarrow> 'a decoder \<Rightarrow> 'a \<Rightarrow> rpc_response + 'a" where
  "decode wording body f v =
     (let body = MaxBytesReader maxBodyBytes body
      in case Decode f v body of
           (x, Some err) \<Rightarrow> Inl (http_error (''bad request: '' @ wording (delivered body) err) 400)
         | (x, None) \<Rightarrow> Inr x)"

definition respond :: "('r \<Rightarrow> json) \<Rightarrow> node_error + 'r \<Rightarrow> rpc_response" where
  "respond show result =
     (case result of
        Inl err \<Rightarrow>
          if err = ErrStopped then http_error (node_error_text err) 503 else http_error (node_error_text err) 500
      | Inr reply \<Rightarrow> \<lparr>rpcStatus = 200, rpcData = print_json (show reply) @ [CHR 0x0A]\<rparr>)"

definition Handler ::
  "(string \<Rightarrow> decode_error \<Rightarrow> string) \<Rightarrow> 'n RPCHandler \<Rightarrow> rpc_request \<Rightarrow> 'n \<Rightarrow> ('n \<times> rpc_response, 'n) outcome" where
  "Handler wording node r n =
     (if rpcPath r = RequestVotePath then
        if rpcMethod r \<noteq> ''POST'' then Ok (n, http_error ''Method Not Allowed'' 405)
        else (case decode wording (rpcBody r) decode_vote_args zero_vote_args of
                Inl resp \<Rightarrow> Ok (n, resp)
              | Inr args \<Rightarrow>
                  andThen (onRequestVote node args n) (\<lambda>(n, result). Ok (n, respond vote_reply_json result)))
      else if rpcPath r = AppendEntriesPath then
        if rpcMethod r \<noteq> ''POST'' then Ok (n, http_error ''Method Not Allowed'' 405)
        else (case decode wording (rpcBody r) decode_append_args zero_append of
                Inl resp \<Rightarrow> Ok (n, resp)
              | Inr args \<Rightarrow>
                  andThen (onAppendEntries node (append_args_of args) n)
                    (\<lambda>(n, result). Ok (n, respond append_reply_json result)))
      else Ok (n, http_error ''404 page not found'' 404))"

section \<open>The client\<close>

record Client =
  clientPeers :: "(NodeID \<times> string) list"

definition NewClient :: "(NodeID \<times> string) list \<Rightarrow> Client" where
  "NewClient addresses = \<lparr>clientPeers = addresses\<rparr>"

text \<open>
  What comes back for a request: the URL was refused, the exchange failed, or a response with its status,
  the text of its status and its body.
\<close>

datatype answer = BadURL string | NoAnswer string | Answer nat string stream

datatype call_error =
    UnknownNode NodeID
  | InvalidRequest string
  | Calling NodeID string
  | Returned NodeID string string
  | DecodingReply NodeID decode_error

definition Client_call ::
  "Client \<Rightarrow> (string \<Rightarrow> string \<Rightarrow> answer) \<Rightarrow> NodeID \<Rightarrow> string \<Rightarrow> json \<Rightarrow> 'r decoder \<Rightarrow> 'r \<Rightarrow> call_error + 'r" where
  "Client_call c net dest path args f reply =
     (case map_of (clientPeers c) dest of
        None \<Rightarrow> Inl (UnknownNode dest)
      | Some base \<Rightarrow>
          (case net (base @ path) (print_json args) of
             BadURL err \<Rightarrow> Inl (InvalidRequest err)
           | NoAnswer err \<Rightarrow> Inl (Calling dest err)
           | Answer status statusText body \<Rightarrow>
               if status \<noteq> 200 then Inl (Returned dest statusText (TrimSpace (take 512 (delivered body))))
               else (case Decode f reply body of
                       (x, Some err) \<Rightarrow> Inl (DecodingReply dest err)
                     | (x, None) \<Rightarrow> Inr x)))"

definition SendRequestVote ::
  "Client \<Rightarrow> (string \<Rightarrow> string \<Rightarrow> answer) \<Rightarrow> NodeID \<Rightarrow> RequestVoteArgs \<Rightarrow> call_error + RequestVoteReply" where
  "SendRequestVote c net dest args =
     Client_call c net dest RequestVotePath (vote_args_json args) decode_vote_reply zero_vote_reply"

definition SendAppendEntries ::
  "Client \<Rightarrow> (string \<Rightarrow> string \<Rightarrow> answer) \<Rightarrow> NodeID \<Rightarrow> AppendEntriesArgs \<Rightarrow> call_error + AppendEntriesReply" where
  "SendAppendEntries c net dest args =
     Client_call c net dest AppendEntriesPath (append_args_json args) decode_append_reply zero_append_reply"

text \<open>Go's interface \<open>Transport\<close>, and the client as one.\<close>

record Transport =
  transportRequestVote :: "NodeID \<Rightarrow> RequestVoteArgs \<Rightarrow> call_error + RequestVoteReply"
  transportAppendEntries :: "NodeID \<Rightarrow> AppendEntriesArgs \<Rightarrow> call_error + AppendEntriesReply"

definition Client_Transport :: "Client \<Rightarrow> (string \<Rightarrow> string \<Rightarrow> answer) \<Rightarrow> Transport" where
  "Client_Transport c net = \<lparr>transportRequestVote = SendRequestVote c net, transportAppendEntries = SendAppendEntries c net\<rparr>"

section \<open>Numbers\<close>

lemma digit_char: "n < 10 \<Longrightarrow> isDigit (char_of (48 + n)) \<and> code (char_of (48 + n)) = 48 + n"
  by (simp add: isDigit_def code_def)

lemma show_nat_digits: "list_all isDigit (show_nat n) \<and> show_nat n \<noteq> []"
proof (induction n rule: show_nat.induct)
  case (1 n)
  show ?case
    by (subst (1 2) show_nat.simps) (use 1 digit_char [of n] digit_char [of "n mod 10"] in auto)
qed

lemma nat_of_digits_snoc: "nat_of_digits (ds @ [c]) = nat_of_digits ds * 10 + (code c - 48)"
  by (simp add: nat_of_digits_def)

lemma nat_of_show_nat: "nat_of_digits (show_nat n) = n"
proof (induction n rule: show_nat.induct)
  case (1 n)
  show ?case
  proof (cases "n < 10")
    case True
    then show ?thesis using digit_char [of n] by (subst show_nat.simps) (simp add: nat_of_digits_def)
  next
    case False
    then show ?thesis
      using 1 digit_char [of "n mod 10"] by (subst show_nat.simps) (simp add: nat_of_digits_snoc)
  qed
qed

lemma show_nat_zero: "hd (show_nat n) = CHR ''0'' \<Longrightarrow> n = 0"
proof (induction n rule: show_nat.induct)
  case (1 n)
  show ?case
  proof (cases "n < 10")
    case True
    then have "show_nat n = [char_of (48 + n)]" by (subst show_nat.simps) simp
    then have "code (char_of (48 + n)) = code (CHR ''0'')" using "1.prems" by simp
    then show ?thesis using digit_char [OF True] by (simp add: code_def)
  next
    case False
    then have "hd (show_nat n) = hd (show_nat (n div 10))"
      using show_nat_digits [of "n div 10"] by (subst show_nat.simps) simp
    then show ?thesis using 1 False by simp
  qed
qed

lemma number_ok_digits:
  assumes "list_all isDigit t" "t \<noteq> []" "hd t \<noteq> CHR ''0'' \<or> length t = 1"
  shows "number_ok t"
proof -
  obtain c r where t: "t = c # r" using assms(2) by (cases t) auto
  have m: "c \<noteq> CHR ''-''" using assms(1) t by (auto simp: isDigit_def code_def)
  have w: "takeWhile isDigit t = t" "dropWhile isDigit t = []"
    using assms(1) by (simp_all add: takeWhile_eq_all_conv list_all_iff)
  have "scan_int t = Inr (t, [])"
    using assms t w by (auto simp: scan_int_def digits1_def)
  then show ?thesis
    using t m by (simp add: number_ok_def scan_number_def scan_frac_def scan_exp_def)
qed

lemma number_ok_show_nat: "number_ok (show_nat n)"
proof (cases "n = 0")
  case True
  have "show_nat 0 = ''0''" using char_of_code [of "CHR ''0''" 48] by (subst show_nat.simps) (simp add: code_def)
  then show ?thesis using True by (simp add: number_ok_def scan_number_def scan_int_def scan_frac_def scan_exp_def)
next
  case False
  then show ?thesis using show_nat_digits [of n] show_nat_zero [of n] by (intro number_ok_digits) auto
qed

lemma uint_printable [simp]: "printable (uint_json w)"
  by (simp add: uint_json_def number_ok_show_nat)

lemma decode_uint_json [simp]: "decode_uint x (uint_json (w :: 'w::len word)) = (w, None)"
proof -
  have "unat w < 2 ^ LENGTH('w)" by (rule unsigned_less)
  then have "ParseUint LENGTH('w) (show_nat (unat w)) = Some (unat w)"
    using show_nat_digits by (simp add: ParseUint_def nat_of_show_nat)
  then show ?thesis by (simp add: decode_uint_def uint_json_def)
qed

section \<open>Bytes\<close>

lemma b64_table: "n < 64 \<Longrightarrow> b64_value (b64_char n) = Some n \<and> code (b64_char n) < 128 \<and> \<not> isLineEnd (b64_char n)"
proof -
  let ?a = "''ABCDEFGHIJKLMNOPQRSTUVWXYZabcdefghijklmnopqrstuvwxyz0123456789+/''"
  assume n: "n < 64"
  have l: "length ?a = 64" by simp
  have u: "[0..<64] = 0 # 1 # [2..<64]" by (simp add: upt_rec [of 0] upt_rec [of "Suc 0"] numeral_2_eq_2)
  have v: "map b64_value ?a = map Some [0..<64]"
    unfolding u by (simp add: upt_rec_numeral b64_value_def code_def isDigit_def)
  have k: "list_all (\<lambda>c. code c < 128 \<and> \<not> isLineEnd c) ?a"
    by (simp add: code_def isLineEnd_def)
  have mem: "?a ! n \<in> set ?a" using n l by (intro nth_mem) simp
  have "b64_value (?a ! n) = map b64_value ?a ! n" using n l by (intro nth_map [symmetric]) simp
  also have "\<dots> = Some n" unfolding v using n by simp
  finally show ?thesis
    unfolding b64_char_def by (rule conjI [OF _ bspec [OF k [unfolded list_all_iff] mem]])
qed

lemma b64_pad: "b64_value (CHR ''='') = None"
  by code_simp

lemma byte_bound: "unat (a :: byte) < 256"
  proof -
  have "unat a < 2 ^ LENGTH(8)" by (rule unsigned_less)
  then show ?thesis by simp
qed

lemma b64_index:
  fixes a b c :: byte
  shows "unat a div 4 < 64" "unat a mod 4 * 16 < 64" "unat a mod 4 * 16 + unat b div 16 < 64" "unat b mod 16 * 4 < 64"
    "unat b mod 16 * 4 + unat c div 64 < 64" "unat c mod 64 < 64"
  using byte_bound [of a] byte_bound [of b] byte_bound [of c] by auto

lemma b64_roundtrip: "b64_decode (b64_encode b) = Some b"
proof (induction b rule: b64_encode.induct)
  case (2 a)
  have "unat a div 4 * 4 + unat a mod 4 * 16 div 16 = unat a" by simp
  then show ?case using b64_table [OF b64_index(1) [of a]] b64_table [OF b64_index(2) [of a]] b64_pad by simp
next
  case (3 a b)
  have "unat a div 4 * 4 + (unat a mod 4 * 16 + unat b div 16) div 16 = unat a"
    "(unat a mod 4 * 16 + unat b div 16) mod 16 * 16 + unat b mod 16 * 4 div 4 = unat b"
    using byte_bound [of b] by auto
  then show ?case
    using b64_table [OF b64_index(1) [of a]] b64_table [OF b64_index(3) [of a b]] b64_table [OF b64_index(4) [of b]] b64_pad
    by simp
next
  case (4 a b c r)
  have "unat a div 4 * 4 + (unat a mod 4 * 16 + unat b div 16) div 16 = unat a"
    "(unat a mod 4 * 16 + unat b div 16) mod 16 * 16 + (unat b mod 16 * 4 + unat c div 64) div 4 = unat b"
    "(unat b mod 16 * 4 + unat c div 64) mod 4 * 64 + unat c mod 64 = unat c"
    using byte_bound [of b] byte_bound [of c] by auto
  then show ?case
    using 4 b64_table [OF b64_index(1) [of a]] b64_table [OF b64_index(3) [of a b]] b64_table [OF b64_index(5) [of b c]]
      b64_table [OF b64_index(6) [of c]]
    by simp
qed simp

lemma b64_ascii: "list_all (\<lambda>c. code c < 128 \<and> \<not> isLineEnd c) (b64_encode b)"
proof (induction b rule: b64_encode.induct)
  case (4 a b c r)
  then show ?case
    using b64_table [OF b64_index(1) [of a]] b64_table [OF b64_index(3) [of a b]] b64_table [OF b64_index(5) [of b c]]
      b64_table [OF b64_index(6) [of c]] by simp
qed (use b64_table [OF b64_index(1)] b64_table [OF b64_index(2)] b64_table [OF b64_index(3)] b64_table [OF b64_index(4)] in
    \<open>simp_all add: isLineEnd_def code_def\<close>)

lemma utf8_ascii: "list_all (\<lambda>c. code c < 128) s \<Longrightarrow> utf8 s"
proof (induction s)
  case (Cons c s)
  then have "rune_length (c # s) = 1" by (simp add: rune_length_def)
  then show ?case using Cons by (simp add: utf8.simps [of "c # s"])
qed (simp add: utf8.simps)

lemma bytes_printable [simp]: "printable (bytes_json b)"
proof -
  have "list_all (\<lambda>c. code c < 128) (b64_encode b)" using b64_ascii by (simp add: list_all_iff)
  then show ?thesis by (simp add: bytes_json_def utf8_ascii)
qed

lemma decode_bytes_json: "decode_bytes nil_slice (bytes_json b) = (\<lparr>elems = b, spare = []\<rparr>, None)"
proof -
  have "filter (\<lambda>c. \<not> isLineEnd c) (b64_encode b) = b64_encode b"
    using b64_ascii [of b] by (simp add: list_all_iff filter_id_conv)
  then show ?thesis by (simp add: decode_bytes_def bytes_json_def b64_roundtrip decode_slice_def nil_slice_def)
qed

section \<open>Messages\<close>

definition entry_var_of :: "Entry \<Rightarrow> entry_var" where
  "entry_var_of e = \<lparr>evIndex = Index e, evTerm = Term e, evCommand = \<lparr>elems = Command e, spare = []\<rparr>\<rparr>"

lemma entry_of_var [simp]: "entry_of (entry_var_of e) = e"
  by (simp add: entry_of_def entry_var_of_def)

lemmas decode_defs = decode_struct_def field_of_def field_def first_def decode_string_def decode_bool_def

lemma decode_entry_json: "decode_entry zero_entry (entry_json e) = (entry_var_of e, None)"
  by (simp add: decode_entry_def entry_json_def zero_entry_def entry_var_of_def decode_defs decode_bytes_json)

lemma decode_fresh:
  assumes "\<And>x. f zero (g x) = (h x, None)"
  shows "decode_elems f zero [] (map g xs) = ((map h xs, []), None)"
  using assms by (induction xs) (simp_all add: first_def)

lemma decode_entries_json:
  "decode_slice ''[]raft.Entry'' decode_entry zero_entry nil_slice (entries_json es) =
     (\<lparr>elems = map entry_var_of es, spare = []\<rparr>, None)"
proof (cases es)
  case (Cons e es')
  then have "\<exists>v vs. map entry_json es = v # vs" by simp
  then show ?thesis
    using decode_fresh [of decode_entry zero_entry entry_json entry_var_of es, OF decode_entry_json] Cons
    by (auto simp: decode_slice_def entries_json_def nil_slice_def simp del: decode_elems.simps)
qed (simp add: decode_slice_def entries_json_def nil_slice_def)

lemma decode_vote_args_json: "decode_vote_args x (vote_args_json a) = (a, None)"
  by (cases a; cases x) (simp add: decode_vote_args_def vote_args_json_def decode_defs)

lemma decode_vote_reply_json: "decode_vote_reply x (vote_reply_json a) = (a, None)"
  by (cases a; cases x) (simp add: decode_vote_reply_def vote_reply_json_def decode_defs)

lemma decode_append_reply_json: "decode_append_reply x (append_reply_json a) = (a, None)"
  by (cases a; cases x) (simp add: decode_append_reply_def append_reply_json_def decode_defs)

lemma decode_append_args_json:
  "\<exists>x. decode_append_args zero_append (append_args_json a) = (x, None) \<and> append_args_of x = a"
  by (cases a)
    (simp add: decode_append_args_def append_args_json_def decode_defs zero_append_def decode_entries_json
      append_args_of_def comp_def)

lemma message_names [simp]:
  "utf8 ''Term''" "utf8 ''CandidateID''" "utf8 ''LastLogIndex''" "utf8 ''LastLogTerm''" "utf8 ''VoteGranted''"
  "utf8 ''LeaderID''" "utf8 ''PrevLogIndex''" "utf8 ''PrevLogTerm''" "utf8 ''Entries''" "utf8 ''LeaderCommit''"
  "utf8 ''Success''" "utf8 ''Index''" "utf8 ''Command''"
  by (rule utf8_ascii; simp add: code_def)+

lemma messages_printable:
  "utf8 (CandidateID a) \<Longrightarrow> printable (vote_args_json a)" "printable (vote_reply_json b)"
  "utf8 (LeaderID c) \<Longrightarrow> printable (append_args_json c)" "printable (append_reply_json d)"
  by (simp_all add: vote_args_json_def vote_reply_json_def append_args_json_def append_reply_json_def entries_json_def
      entry_json_def list_all_iff)

section \<open>Messages on the wire\<close>

text \<open>
  What a message type promises the two ends of an exchange: a message that can be carried is read back from its
  text, whatever follows the text and however the stream ends.
\<close>

definition receive :: "'v decoder \<Rightarrow> 'v \<Rightarrow> ('v \<Rightarrow> 'm) \<Rightarrow> stream \<Rightarrow> 'm option" where
  "receive f zero result s = (case Decode f zero s of (x, None) \<Rightarrow> Some (result x) | (x, Some e) \<Rightarrow> None)"

locale wire =
  fixes show_message :: "'m \<Rightarrow> json"
    and read_message :: "stream \<Rightarrow> 'm option"
    and carried :: "'m \<Rightarrow> bool"
  assumes read_show: "carried m \<Longrightarrow> read_message \<lparr>delivered = print_json (show_message m) @ r, complete = c\<rparr> = Some m"
begin

lemma unambiguous:
  assumes "carried a" "carried b" "print_json (show_message a) @ r = print_json (show_message b) @ r'"
  shows "a = b"
  using read_show [OF assms(1), of r True] read_show [OF assms(2), of r' True] assms(3) by simp

end

lemma read_object:
  assumes "printable (JObject ms)" "depth (JObject ms) \<le> maxNestingDepth"
  shows "read_value \<lparr>delivered = print_json (JObject ms) @ r, complete = c\<rparr> = Some (JObject ms)"
proof -
  have "parse_value (fuel (print_json (JObject ms) @ r)) (print_json (JObject ms) @ r) = Some (JObject ms, r)"
    by (rule parse_printed_object [OF assms(1)]) (simp add: fuel_def)
  then show ?thesis using assms(2) by (simp add: read_value_def)
qed

lemma uint_depth [simp]: "depth (uint_json w) = 0" "depth (bytes_json b) = 0"
  by (simp_all add: uint_json_def bytes_json_def)

lemma fold_max_le: "(\<And>v. v \<in> set vs \<Longrightarrow> depth v \<le> k) \<Longrightarrow> i \<le> k \<Longrightarrow> fold (\<lambda>v m. max (depth v) m) vs i \<le> k"
  by (induction vs arbitrary: i) simp_all

lemma entries_depth: "depth (entries_json es) \<le> 2"
proof -
  have "fold (\<lambda>v m. max (depth v) m) (map entry_json es) 0 \<le> 1"
    by (rule fold_max_le) (auto simp: entry_json_def)
  then show ?thesis by (simp add: entries_json_def)
qed

lemma receive_object:
  assumes "show_message m = JObject ms" "printable (show_message m)" "depth (show_message m) \<le> 3"
    "f zero (show_message m) = (x, None)" "result x = m"
  shows "receive f zero result \<lparr>delivered = print_json (show_message m) @ r, complete = c\<rparr> = Some m"
  using assms read_object [of ms r c] by (simp add: receive_def Decode_def maxNestingDepth_def)

interpretation vote_args: wire vote_args_json "receive decode_vote_args zero_vote_args (\<lambda>x. x)" "\<lambda>a. utf8 (CandidateID a)"
proof (unfold_locales, rule receive_object)
  fix a :: RequestVoteArgs
  assume u: "utf8 (CandidateID a)"
  show "printable (vote_args_json a)" using u by (rule messages_printable(1))
qed (simp_all add: vote_args_json_def decode_vote_args_json [unfolded vote_args_json_def])

interpretation vote_reply: wire vote_reply_json "receive decode_vote_reply zero_vote_reply (\<lambda>x. x)" "\<lambda>a. True"
proof (unfold_locales, rule receive_object)
  show "printable (vote_reply_json a)" for a by (rule messages_printable(2))
qed (simp_all add: vote_reply_json_def decode_vote_reply_json [unfolded vote_reply_json_def])

interpretation append_reply: wire append_reply_json "receive decode_append_reply zero_append_reply (\<lambda>x. x)" "\<lambda>a. True"
proof (unfold_locales, rule receive_object)
  show "printable (append_reply_json a)" for a by (rule messages_printable(4))
qed (simp_all add: append_reply_json_def decode_append_reply_json [unfolded append_reply_json_def])

interpretation append_args: wire append_args_json "receive decode_append_args zero_append append_args_of" "\<lambda>a. utf8 (LeaderID a)"
proof unfold_locales
  fix a :: AppendEntriesArgs and r c
  assume u: "utf8 (LeaderID a)"
  obtain x where x: "decode_append_args zero_append (append_args_json a) = (x, None)" "append_args_of x = a"
    using decode_append_args_json by blast
  have "depth (append_args_json a) \<le> 3" using entries_depth [of "Entries a"] by (simp add: append_args_json_def)
  then show "receive decode_append_args zero_append append_args_of \<lparr>delivered = print_json (append_args_json a) @ r, complete = c\<rparr> = Some a"
    using messages_printable(3) [OF u] x by (intro receive_object) (simp_all add: append_args_json_def)
qed

section \<open>An exchange\<close>

lemma decode_receive:
  assumes "receive f zero result body = Some m" "length (delivered body) \<le> maxBodyBytes"
  shows "\<exists>x. decode wording body f zero = Inr x \<and> result x = m"
  using assms by (auto simp: decode_def receive_def MaxBytesReader_def Let_def split: prod.splits option.splits)

definition post :: "string \<Rightarrow> string \<Rightarrow> rpc_request" where
  "post path body = \<lparr>rpcMethod = ''POST'', rpcPath = path, rpcBody = \<lparr>delivered = body, complete = True\<rparr>\<rparr>"

lemma Handler_vote:
  assumes "utf8 (CandidateID args)" "length (print_json (vote_args_json args)) \<le> maxBodyBytes"
  shows "Handler wording node (post RequestVotePath (print_json (vote_args_json args))) n =
    andThen (onRequestVote node args n) (\<lambda>(n, result). Ok (n, respond vote_reply_json result))"
proof -
  let ?b = "\<lparr>delivered = print_json (vote_args_json args), complete = True\<rparr>"
  have "receive decode_vote_args zero_vote_args (\<lambda>x. x) ?b = Some args"
    using vote_args.read_show [OF assms(1), of "[]" True] by simp
  then obtain x where "decode wording ?b decode_vote_args zero_vote_args = Inr x" "x = args"
    using assms(2) decode_receive [of _ _ _ ?b] by fastforce
  then show ?thesis by (simp add: Handler_def post_def)
qed

lemma Handler_append:
  assumes "utf8 (LeaderID args)" "length (print_json (append_args_json args)) \<le> maxBodyBytes"
  shows "Handler wording node (post AppendEntriesPath (print_json (append_args_json args))) n =
    andThen (onAppendEntries node args n) (\<lambda>(n, result). Ok (n, respond append_reply_json result))"
proof -
  let ?b = "\<lparr>delivered = print_json (append_args_json args), complete = True\<rparr>"
  have "receive decode_append_args zero_append append_args_of ?b = Some args"
    using append_args.read_show [OF assms(1), of "[]" True] by simp
  then obtain x where "decode wording ?b decode_append_args zero_append = Inr x" "append_args_of x = args"
    using assms(2) decode_receive [of _ _ _ ?b] by fastforce
  then show ?thesis by (simp add: Handler_def post_def RequestVotePath_def AppendEntriesPath_def)
qed

text \<open>
  A network that brings a request to the peer at \<open>base\<close>, whose node is in state \<open>n\<close>, and its answer back. When the
  handler panics \<open>net/http\<close> closes the connection, and the client sees the end of the stream.
\<close>

definition reach ::
  "(nat \<Rightarrow> string) \<Rightarrow> (string \<Rightarrow> decode_error \<Rightarrow> string) \<Rightarrow> 'n RPCHandler \<Rightarrow> string \<Rightarrow> 'n \<Rightarrow> string \<Rightarrow> string \<Rightarrow> answer" where
  "reach statusText wording node base n url body =
     (if take (length base) url = base then
        (case Handler wording node (post (drop (length base) url) body) n of
           Ok (_, resp) \<Rightarrow>
             Answer (rpcStatus resp) (statusText (rpcStatus resp)) \<lparr>delivered = rpcData resp, complete = True\<rparr>
         | Panic _ _ \<Rightarrow> NoAnswer ''EOF'')
      else NoAnswer ''no such host'')"

text \<open>What the caller makes of the answer of a node.\<close>

definition seen_by_caller ::
  "(nat \<Rightarrow> string) \<Rightarrow> NodeID \<Rightarrow> ('n \<times> (node_error + 'r), 'n) outcome \<Rightarrow> call_error + 'r" where
  "seen_by_caller statusText dest result =
     (case result of
        Panic _ _ \<Rightarrow> Inl (Calling dest ''EOF'')
      | Ok (_, Inr reply) \<Rightarrow> Inr reply
      | Ok (_, Inl err) \<Rightarrow>
          Inl (Returned dest (statusText (if err = ErrStopped then 503 else 500)) (node_error_text err)))"

lemma trimmed_error: "TrimSpace (take 512 (node_error_text err @ [CHR 0x0A])) = node_error_text err"
proof -
  have "TrimSpace (take 512 (node_error_text ErrNotLeader @ [CHR 0x0A])) = node_error_text ErrNotLeader"
    "TrimSpace (take 512 (node_error_text ErrStopped @ [CHR 0x0A])) = node_error_text ErrStopped"
    "TrimSpace (take 512 (node_error_text ErrEmptyCommand @ [CHR 0x0A])) = node_error_text ErrEmptyCommand"
    by code_simp+
  then show ?thesis by (cases err) simp_all
qed

lemma take_base: "take (length base) (base @ path) = base"
  by simp

lemma call_answer:
  assumes "map_of (clientPeers c) dest = Some base"
    and "Handler wording node (post path (print_json args)) n = andThen result (\<lambda>(n, r). Ok (n, respond show r))"
    and "\<And>m r c. receive f zero (\<lambda>x. x) \<lparr>delivered = print_json (show m) @ r, complete = c\<rparr> = Some m"
  shows "Client_call c (reach statusText wording node base n) dest path args f zero = seen_by_caller statusText dest result"
proof (cases result)
  case (Panic p m)
  then show ?thesis using assms(1,2) by (simp add: Client_call_def reach_def seen_by_caller_def)
next
  case (Ok a)
  obtain m r where a: "a = (m, r)" by (cases a)
  show ?thesis
  proof (cases r)
    case (Inl err)
    let ?status = "if err = ErrStopped then 503 else 500 :: nat"
    have "Handler wording node (post path (print_json args)) n = Ok (m, http_error (node_error_text err) ?status)"
      using assms(2) Ok a Inl by (simp add: respond_def)
    moreover have "?status \<noteq> 200" by simp
    ultimately show ?thesis
      using assms(1) Ok a Inl trimmed_error [of err]
      by (simp add: Client_call_def reach_def seen_by_caller_def http_error_def take_base del: take_append node_error_text.simps)
  next
    case (Inr reply)
    have "receive f zero (\<lambda>x. x) \<lparr>delivered = print_json (show reply) @ [CHR 0x0A], complete = True\<rparr> = Some reply"
      by (rule assms(3))
    then have "Decode f zero \<lparr>delivered = print_json (show reply) @ [CHR 0x0A], complete = True\<rparr> = (reply, None)"
      by (auto simp: receive_def split: prod.splits option.splits)
    then show ?thesis
      using assms(1,2) Ok a Inr by (simp add: Client_call_def reach_def seen_by_caller_def respond_def)
  qed
qed

lemma vote_exchange:
  assumes "map_of (clientPeers c) dest = Some base" "utf8 (CandidateID args)"
    "length (print_json (vote_args_json args)) \<le> maxBodyBytes"
  shows "SendRequestVote c (reach statusText wording node base n) dest args =
    seen_by_caller statusText dest (onRequestVote node args n)"
  unfolding SendRequestVote_def
  using assms(1) Handler_vote [OF assms(2,3)] vote_reply.read_show [OF TrueI] by (rule call_answer)

lemma append_exchange:
  assumes "map_of (clientPeers c) dest = Some base" "utf8 (LeaderID args)"
    "length (print_json (append_args_json args)) \<le> maxBodyBytes"
  shows "SendAppendEntries c (reach statusText wording node base n) dest args =
    seen_by_caller statusText dest (onAppendEntries node args n)"
  unfolding SendAppendEntries_def
  using assms(1) Handler_append [OF assms(2,3)] append_reply.read_show [OF TrueI] by (rule call_answer)

section \<open>Messages that are too long\<close>

lemma length_b64: "length (b64_encode b) = 4 * ((length b + 2) div 3)"
proof (induction b rule: b64_encode.induct)
  case (4 a b c r)
  have "(length (a # b # c # r) + 2) div 3 = (length r + 2 + 3) div 3" by simp
  also have "\<dots> = (length r + 2) div 3 + 1" by (rule div_add_self2) simp
  finally show ?case using 4 by simp
qed simp_all

lemma length_escape:
  assumes "list_all (\<lambda>c. code c < 128) s"
  shows "length s \<le> length (escape s)"
  using assms
proof (induction s)
  case (Cons c s)
  have "1 \<le> length (ascii_escape c)" by (simp add: ascii_escape_def)
  then show ?case using Cons by (simp add: escape.simps [of "c # s"])
qed simp

lemma length_join: "x \<in> set xs \<Longrightarrow> length x \<le> length (join xs)"
  by (induction xs rule: join.induct) auto

lemma length_object: "(k, v) \<in> set ms \<Longrightarrow> length (print_json v) < length (print_json (JObject ms))"
proof -
  assume "(k, v) \<in> set ms"
  then have "print_string k @ CHR '':'' # print_json v \<in> set (map (\<lambda>(k, v). print_string k @ CHR '':'' # print_json v) ms)"
    by force
  from length_join [OF this] show ?thesis by simp
qed

lemma length_array: "v \<in> set vs \<Longrightarrow> length (print_json v) < length (print_json (JArray vs))"
  using length_join [of "print_json v" "map print_json vs"] by simp

lemma length_append_args:
  assumes "e \<in> set (Entries args)"
  shows "length (b64_encode (Command e)) < length (print_json (append_args_json args))"
proof -
  have "list_all (\<lambda>c. code c < 128) (b64_encode (Command e))" using b64_ascii by (simp add: list_all_iff)
  then have "length (b64_encode (Command e)) \<le> length (print_json (bytes_json (Command e)))"
    using length_escape [of "b64_encode (Command e)"] by (auto simp: bytes_json_def print_string_def)
  also have "\<dots> < length (print_json (entry_json e))" unfolding entry_json_def by (rule length_object [of "''Command''"]) simp
  also have "\<dots> < length (print_json (entries_json (Entries args)))"
  proof -
    have "Entries args \<noteq> []" using assms by auto
    then show ?thesis using assms unfolding entries_json_def by (simp add: length_array del: print_json.simps)
  qed
  also have "\<dots> < length (print_json (append_args_json args))"
    unfolding append_args_json_def by (rule length_object [of "''Entries''"]) simp
  finally show ?thesis .
qed

lemma oversized_refused:
  assumes "utf8 (LeaderID args)" "maxBodyBytes < length (print_json (append_args_json args))"
  shows "\<exists>msg. Handler wording node (post AppendEntriesPath (print_json (append_args_json args))) n = Ok (n, http_error msg 400)"
proof -
  let ?t = "print_json (append_args_json args)"
  let ?s = "\<lparr>delivered = take maxBodyBytes ?t, complete = False\<rparr>"
  obtain ms where ms: "append_args_json args = JObject ms" by (simp add: append_args_json_def)
  have "read_value ?s = None"
    unfolding ms by (rule object_cut_short [of ms maxBodyBytes])
      (use messages_printable(3) [OF assms(1)] assms(2) ms in \<open>simp_all del: print_json.simps\<close>)
  then have "\<exists>msg. decode wording \<lparr>delivered = ?t, complete = True\<rparr> decode_append_args zero_append = Inl (http_error msg 400)"
    using assms(2) by (simp add: decode_def MaxBytesReader_def Decode_def Let_def) blast
  then show ?thesis by (auto simp: Handler_def post_def RequestVotePath_def AppendEntriesPath_def)
qed

section \<open>Properties\<close>

text \<open>
  C38. An RPC is the call of the peer's method: when the network brings the request to the peer and its answer back,
  the caller gets exactly the reply that the node gave to exactly the message that was sent, the node's error as
  an error of status 503 when it is stopped, and an error when the node panicked; and the state of the
  node afterwards is the one its method left. Identifiers are UTF-8 and a request has at most 16 MiB.
\<close>

theorem rpc_exchange:
  assumes "map_of (clientPeers c) dest = Some base"
    "utf8 (CandidateID va)" "length (print_json (vote_args_json va)) \<le> maxBodyBytes"
    "utf8 (LeaderID aa)" "length (print_json (append_args_json aa)) \<le> maxBodyBytes"
  shows "SendRequestVote c (reach statusText wording (Node_RPCHandler sv ev) base n) dest va =
      seen_by_caller statusText dest (HandleRequestVote sv ev va n) \<and>
    SendAppendEntries c (reach statusText wording (Node_RPCHandler sv ev) base n) dest aa =
      seen_by_caller statusText dest (HandleAppendEntries sv ev aa n) \<and>
    Handler wording (Node_RPCHandler sv ev) (post RequestVotePath (print_json (vote_args_json va))) n =
      andThen (HandleRequestVote sv ev va n) (\<lambda>(n, result). Ok (n, respond vote_reply_json result)) \<and>
    Handler wording (Node_RPCHandler sv ev) (post AppendEntriesPath (print_json (append_args_json aa))) n =
      andThen (HandleAppendEntries sv ev aa n) (\<lambda>(n, result). Ok (n, respond append_reply_json result))"
  using vote_exchange [OF assms(1-3), of statusText wording "Node_RPCHandler sv ev" n]
    append_exchange [OF assms(1,4,5), of statusText wording "Node_RPCHandler sv ev" n]
    Handler_vote [OF assms(2,3), of wording "Node_RPCHandler sv ev" n]
    Handler_append [OF assms(4,5), of wording "Node_RPCHandler sv ev" n]
  by (simp add: Node_RPCHandler_def)

definition example_client :: Client where
  "example_client = NewClient [(''n2'', ''http://raft-2:7000'')]"

definition example_vote :: RequestVoteArgs where
  "example_vote = \<lparr>rvTerm = 3, CandidateID = ''n1'', LastLogIndex = 7, LastLogTerm = 2\<rparr>"

definition example_append :: AppendEntriesArgs where
  "example_append = \<lparr>aeTerm = 3, LeaderID = ''n1'', PrevLogIndex = 0, PrevLogTerm = 0,
     Entries = [\<lparr>Index = 1, Term = 3, Command = [1, 255]\<rparr>], LeaderCommit = 0\<rparr>"

lemma example_messages:
  "map_of (clientPeers example_client) ''n2'' = Some ''http://raft-2:7000''"
  "utf8 (CandidateID example_vote)" "length (print_json (vote_args_json example_vote)) \<le> maxBodyBytes"
  "utf8 (LeaderID example_append)" "length (print_json (append_args_json example_append)) \<le> maxBodyBytes"
proof -
  show "map_of (clientPeers example_client) ''n2'' = Some ''http://raft-2:7000''"
    by (simp add: example_client_def NewClient_def)
  show "utf8 (CandidateID example_vote)" "utf8 (LeaderID example_append)" by code_simp+
  have "length (print_json (vote_args_json example_vote)) = 62" "length (print_json (append_args_json example_append)) = 126"
    by code_simp+
  then show "length (print_json (vote_args_json example_vote)) \<le> maxBodyBytes"
    "length (print_json (append_args_json example_append)) \<le> maxBodyBytes" by (simp_all add: maxBodyBytes_def)
qed

theorem rpc_exchange_witness:
  "\<forall>(sv :: unit saver) ev n.
     SendRequestVote example_client (reach (\<lambda>s. []) (\<lambda>b e. []) (Node_RPCHandler sv ev) ''http://raft-2:7000'' n) ''n2'' example_vote =
       seen_by_caller (\<lambda>s. []) ''n2'' (HandleRequestVote sv ev example_vote n)"
  using rpc_exchange [OF example_messages] by blast

text \<open>
  C40. An entry whose command has 12 MiB or more is never replicated: the request that carries it is over the limit
  of the body, so the follower answers 400 without seeing the message and keeps its state, and the leader's call
  fails, however often it is repeated.
\<close>

theorem oversized_entry_refused:
  assumes "map_of (clientPeers c) dest = Some base" "utf8 (LeaderID args)"
    "e \<in> set (Entries args)" "12 * 2 ^ 20 \<le> length (Command e)"
  shows "\<exists>msg. Handler wording (Node_RPCHandler sv ev) (post AppendEntriesPath (print_json (append_args_json args))) n =
      Ok (n, http_error msg 400) \<and>
    (\<exists>text. SendAppendEntries c (reach statusText wording (Node_RPCHandler sv ev) base n) dest args =
       Inl (Returned dest (statusText 400) text))"
proof -
  have "maxBodyBytes \<le> length (b64_encode (Command e))" using assms(4) unfolding length_b64 maxBodyBytes_def by simp
  then have "maxBodyBytes < length (print_json (append_args_json args))" using length_append_args [OF assms(3)] by simp
  then obtain msg where h: "Handler wording (Node_RPCHandler sv ev) (post AppendEntriesPath (print_json (append_args_json args))) n =
      Ok (n, http_error msg 400)" using oversized_refused [OF assms(2), of wording "Node_RPCHandler sv ev" n] by blast
  then show ?thesis
    using assms(1) by (simp add: SendAppendEntries_def Client_call_def reach_def take_base http_error_def)
qed

definition large_entry :: Entry where
  "large_entry = \<lparr>Index = 1, Term = 3, Command = replicate (12 * 2 ^ 20) 0\<rparr>"

theorem oversized_entry_refused_witness:
  "\<forall>(sv :: unit saver) ev n. \<exists>msg.
     Handler (\<lambda>b e. []) (Node_RPCHandler sv ev)
       (post AppendEntriesPath (print_json (append_args_json (example_append\<lparr>Entries := [large_entry]\<rparr>)))) n =
     Ok (n, http_error msg 400)"
proof -
  let ?args = "example_append\<lparr>Entries := [large_entry]\<rparr>"
  have "LeaderID ?args = LeaderID example_append" by simp
  then have u: "utf8 (LeaderID ?args)" using example_messages(4) by (simp only:)
  have e: "large_entry \<in> set (Entries ?args)" by simp
  have l: "12 * 2 ^ 20 \<le> length (Command large_entry)" by (simp only: large_entry_def Entry.select_convs length_replicate)
  show ?thesis using oversized_entry_refused [OF example_messages(1) u e l] by blast
qed

section \<open>A panic that is recovered\<close>

text \<open>The log with one more entry behind its last one.\<close>

lemma term_at_snoc:
  assumes "log_wf l" "unat (Index e) = unat (end_index l) + 1"
  shows "term_at l (Index e) = Ok (0, False)" "term_at (append_entries l [e]) (Index e) = Ok (Term e, True)"
    "term_at (append_entries l [e]) (end_index l) = term_at l (end_index l)"
proof -
  let ?l = "append_entries l [e]"
  have ne: "entries l \<noteq> []" "end_index (append_entries l [e]) = Index e"
    using assms(1) by (simp_all add: end_index_def append_entries_def)
  have lt: "end_index l < Index e" "first_index l \<le> end_index l"
    using assms first_index_le_end_index by (simp_all add: word_less_nat_alt)
  show "term_at l (Index e) = Ok (0, False)" using lt assms(1) by (simp add: term_at_wf term_of_def)
  have len: "unat (end_index l) = unat (first_index l) + (length (entries l) - 1)" using assms(1) by (rule unat_end_index)
  have offset: "offset ?l (Index e) = length (entries l)" "offset ?l (end_index l) = length (entries l) - 1"
    using lt len assms(2) ne(1)
    by (simp_all add: offset_def unat_sub word_le_nat_alt word_less_nat_alt le_diff_conv)
  have room: "int (length (entries l)) \<le> max_int" using assms(1) by (simp add: log_wf_def)
  have es: "entries ?l = entries l @ [e]" by (simp add: append_entries_def)
  have "term_at ?l (Index e) = Ok (Term (entries ?l ! offset ?l (Index e)), True)"
    by (rule term_at_inside) (use ne lt offset room in \<open>simp_all add: es\<close>)
  then show "term_at ?l (Index e) = Ok (Term e, True)" by (simp add: offset es)
  have "term_at ?l (end_index l) = Ok (Term (entries ?l ! offset ?l (end_index l)), True)"
    by (rule term_at_inside) (use ne lt offset room in \<open>simp_all add: es\<close>)
  moreover have "offset l (end_index l) = length (entries l) - 1"
    using offset(2) ne(1) by (simp add: offset_def)
  ultimately show "term_at ?l (end_index l) = term_at l (end_index l)"
    using ne(1) lt(2) assms(1) by (simp add: offset es nth_append term_at_wf term_of_def not_less)
qed

lemma append_after_panic:
  assumes "\<not> stopped n" "role n = Follower" "aeTerm args = currentTerm n"
    "ElectionTimeoutMin (cfg n) < ElectionTimeoutMax (cfg n)"
    "log_wf (log n)" "PrevLogIndex args = end_index (log n)" "agrees (log n) (PrevLogIndex args) (PrevLogTerm args)"
    "Entries args = [e]" "unat (Index e) = unat (end_index (log n)) + 1"
    "\<And>st s. sv st s = (s, Some err)"
  shows "\<exists>nd nd'. HandleAppendEntries sv ev args n = Panic PersistFailed nd \<and>
    HandleAppendEntries sv ev args nd = Ok (nd', Inr \<lparr>aerTerm = currentTerm n, Success = True\<rparr>) \<and>
    storage nd' = storage n \<and> last (entries (log nd')) = e"
proof -
  note t = term_at_snoc [OF assms(5,9)]
  have m: "matches (log n) (PrevLogIndex args) (PrevLogTerm args) = Ok True"
    "matches (append_entries (log n) [e]) (PrevLogIndex args) (PrevLogTerm args) = Ok True"
    using assms(5-7) t(3) matches_wf [of "log n"] by (simp_all add: matches_def)
  have r: "\<exists>d. resetElectionTimer ev k = Ok (k\<lparr>electionDeadline := d\<rparr>)" if "cfg k = cfg n" for k
    using assms(4) that by (simp add: resetElectionTimer_def Let_def) blast
  obtain d where d: "resetElectionTimer ev (n\<lparr>leaderID := LeaderID args\<rparr>) = Ok (n\<lparr>leaderID := LeaderID args, electionDeadline := d\<rparr>)"
    using r [of "n\<lparr>leaderID := LeaderID args\<rparr>"] by auto
  let ?nd = "n\<lparr>leaderID := LeaderID args, electionDeadline := d, log := append_entries (log n) [e]\<rparr>"
  have 1: "HandleAppendEntries sv ev args n = Panic PersistFailed ?nd"
    using assms t(1) m d by (simp add: HandleAppendEntries_def observeTerm_def persist_def)
  obtain d' where d': "resetElectionTimer ev (?nd\<lparr>leaderID := LeaderID args\<rparr>) = Ok (?nd\<lparr>leaderID := LeaderID args, electionDeadline := d'\<rparr>)"
    using r [of "?nd\<lparr>leaderID := LeaderID args\<rparr>"] by auto
  have "\<exists>nd'. HandleAppendEntries sv ev args ?nd = Ok (nd', Inr \<lparr>aerTerm = currentTerm n, Success = True\<rparr>) \<and>
      storage nd' = storage n \<and> log nd' = append_entries (log n) [e]"
    using assms t(2) m d' by (simp add: HandleAppendEntries_def observeTerm_def Let_def)
  then show ?thesis using 1 by (auto simp: append_entries_def)
qed

text \<open>
  C39. A follower whose disk refuses to save panics on a new entry, but it keeps the entry in memory. The cluster
  of the safety theorems ends the process there. Behind this handler \<open>net/http\<close> recovers the
  panic and the process goes on with that memory: when the leader repeats the request, the node finds the entry
  in its log, saves nothing and answers that it has it.
\<close>

theorem recovered_panic_acknowledges:
  assumes "\<not> stopped n" "role n = Follower" "aeTerm args = currentTerm n"
    "ElectionTimeoutMin (cfg n) < ElectionTimeoutMax (cfg n)"
    "log_wf (log n)" "PrevLogIndex args = end_index (log n)" "agrees (log n) (PrevLogIndex args) (PrevLogTerm args)"
    "Entries args = [e]" "unat (Index e) = unat (end_index (log n)) + 1"
    "\<And>st s. sv st s = (s, Some err)"
    "utf8 (LeaderID args)" "length (print_json (append_args_json args)) \<le> maxBodyBytes"
  shows "\<exists>nd nd'. Handler wording (Node_RPCHandler sv ev) (post AppendEntriesPath (print_json (append_args_json args))) n =
      Panic PersistFailed nd \<and>
    Handler wording (Node_RPCHandler sv ev) (post AppendEntriesPath (print_json (append_args_json args))) nd =
      Ok (nd', respond append_reply_json (Inr \<lparr>aerTerm = currentTerm n, Success = True\<rparr>)) \<and>
    storage nd' = storage n \<and> last (entries (log nd')) = e"
proof -
  obtain nd nd' where "HandleAppendEntries sv ev args n = Panic PersistFailed nd"
    "HandleAppendEntries sv ev args nd = Ok (nd', Inr \<lparr>aerTerm = currentTerm n, Success = True\<rparr>)"
    "storage nd' = storage n" "last (entries (log nd')) = e"
    using append_after_panic [of n args e sv err ev, OF assms(1-10)] by blast
  then show ?thesis
    using Handler_append [OF assms(11,12), of wording "Node_RPCHandler sv ev" n]
      Handler_append [OF assms(11,12), of wording "Node_RPCHandler sv ev" nd]
    by (intro exI [of _ nd] exI [of _ nd']) (simp add: Node_RPCHandler_def)
qed

definition example_follower :: "unit Node" where
  "example_follower =
     \<lparr>id = ''n2'', peers = [''n1'', ''n3''],
      cfg = \<lparr>cfgID = ''n2'', Peers = [''n1'', ''n2'', ''n3''], Transport = Some (), Storage = Some (), ApplyCh = Some (),
             ElectionTimeoutMin = 150, ElectionTimeoutMax = 300, HeartbeatInterval = 50, RPCTimeout = 100, MaxEntriesPerAppend = 0\<rparr>,
      storage = (), currentTerm = 3, votedFor = [], log = newRaftLog, commitIndex = 0, lastApplied = 0,
      nextIndex = Map.empty, matchIndex = Map.empty, role = Follower, leaderID = [], electionDeadline = 0,
      kickCh = None, started = True, stopped = False, votes = (\<lambda>_. 0), threads = []\<rparr>"

theorem recovered_panic_acknowledges_witness:
  "\<exists>nd nd'. Handler (\<lambda>b e. []) (Node_RPCHandler (\<lambda>st s. (s, Some ''disk full'')) \<lparr>now = 0, draw = 0\<rparr>)
        (post AppendEntriesPath (print_json (append_args_json example_append))) example_follower = Panic PersistFailed nd \<and>
     Handler (\<lambda>b e. []) (Node_RPCHandler (\<lambda>st s. (s, Some ''disk full'')) \<lparr>now = 0, draw = 0\<rparr>)
        (post AppendEntriesPath (print_json (append_args_json example_append))) nd =
       Ok (nd', respond append_reply_json (Inr \<lparr>aerTerm = 3, Success = True\<rparr>))"
proof -
  have wf: "log_wf newRaftLog" "end_index newRaftLog = 0" "agrees newRaftLog 0 0"
    by (simp_all add: log_wf_def newRaftLog_def sentinel_def first_index_def end_index_def agrees_def term_of_def offset_def)
  have "\<exists>nd nd'. Handler (\<lambda>b e. []) (Node_RPCHandler (\<lambda>st s. (s, Some ''disk full'')) \<lparr>now = 0, draw = 0\<rparr>)
        (post AppendEntriesPath (print_json (append_args_json example_append))) example_follower = Panic PersistFailed nd \<and>
     Handler (\<lambda>b e. []) (Node_RPCHandler (\<lambda>st s. (s, Some ''disk full'')) \<lparr>now = 0, draw = 0\<rparr>)
        (post AppendEntriesPath (print_json (append_args_json example_append))) nd =
       Ok (nd', respond append_reply_json (Inr \<lparr>aerTerm = currentTerm example_follower, Success = True\<rparr>)) \<and>
     storage nd' = storage example_follower \<and> last (entries (log nd')) = \<lparr>Index = 1, Term = 3, Command = [1, 255]\<rparr>"
    by (rule recovered_panic_acknowledges)
      (use wf example_messages(4,5) in \<open>simp_all add: example_follower_def example_append_def\<close>)
  then show ?thesis by (auto simp: example_follower_def)
qed

end
