(* ===== verification/Spec2Isabelle.thy ===== *)
theory Spec2Isabelle
  imports Raft_System Score_Server Model_Export Raft_Transport
begin

text \<open>
  A verification library for the fraud-scoring platform. The repository has two programs' worth of Go code
  that do not call each other yet: a Raft consensus library (src/raft, with its HTTP transport in
  src/raft/httptransport), and a scoring service (src/internal and src/cmd/score-server) that loads a logistic
  regression model and scores the features of a request. The library models all of it but the helpers of the
  tests, and of the Python script that trains the model the part that writes the artifact; the theory that holds the
  guarantees of each half is Raft_System and Score_Server.


  HOW THE PARTS INTERACT

  A Raft node keeps a log (log.go) and a term, vote, role and per-peer indexes under one mutex (node.go). Its
  goroutines (the election timer, one goroutine per outstanding RPC, the leader's loop, the applier) and the RPC
  handlers enter critical sections under that mutex (election.go, replication.go, apply.go, role.go). A critical
  section that changes the term, the vote or the log saves them (persist.go) before it releases the mutex, and
  panics when the save fails. The storage is the memory (persist.go) or one file that is replaced by a rename
  (filestorage.go). Messages (message.go) go through an interface (transport.go) that the HTTP transport implements.

  The server reads its settings (config.go) and the model artifact (model.go), builds the scoring service
  (scoring.go), which maps named features to the model's vector, and serves POST /v1/score and two probes (httpapi).
  A scoring body is read twice: once as a stream of tokens, to refuse duplicate and unknown names, and once into the
  request structure.


  WHICH THEORY MODELS WHAT

  Prelude: 64-bit words, Go's results with panics (outcome), lemmas on words, lists and majorities.

  Raft_Log (raft/log.go): the log as a slice with a sentinel. Lookups, entriesFrom with its limit, truncation,
  append, compaction. Each returns an outcome, and an index outside the slice is a panic, with positions as signed
  integers as in the code. Invariant log_wf: consecutive indexes that fit the machine's integers. The functions
  first_index, end_index, term_of, agrees and covered_by describe the content of such a log; log_reads and its
  relatives show that on a well-formed log the code's lookups return what these describe.

  Raft_Message (raft/message.go, the data of raft/persist.go): messages, errors, persistent state, and the
  interface Storage as the locale stable_storage with the laws that nodes rely on.

  Raft_Node (raft/node.go, role.go, election.go, replication.go, apply.go, the node's part of persist.go): the
  struct Node as a record and one definition per method. A goroutine that was started is an element of the list
  threads; a method that sends an RPC is split into the part before and the part after the call; the time and the
  random draw of a critical section are the argument env. A panic inside a called method ends the caller (within).
  Raft_Node_Props: nothing goes back in a critical section.

  Raft_Cluster: servers, messages and actions. An action is one critical section, one arriving message, a crash, a
  start, or something that happens to a disk. Messages may be lost, delayed, duplicated and reordered. The applier's
  send on the delivery channel needs room there, which the consumer makes by receiving (Receive), ever or never.
  section_panic relates a running process to the panics that a critical section of it can end with. perform is
  executable; creachable are the clusters that some sequence of actions reaches while no counter has overflowed
  (bounded: the terms below 2^64 - 1 and the logs shorter than the largest slice).

  Raft_Abstract: the specification. Raft over unbounded terms and whole logs, without messages, as the inductive
  relation astep, and its safety for every family of intersecting quorums (locale quorum_system).

  Raft_Refine, Raft_Sim, Raft_Safety: the refinement. The relation between a cluster and an abstract state, one
  simulation lemma per method, one per action, and what follows for the cluster. The locale raft_deployment states
  what is needed of a deployment: a storage that keeps its laws also when the host fails (hosted_storage), and
  configurations in which the members name each other.

  Raft_Delivery, Raft_Progress, Raft_Campaign: what each process delivers, and progress. The applier delivers all
  that is committed to a consumer that receives, and waits for one that does not; a leader in touch with a majority brings their logs up to its own and commits; a server with
  a log as good as those of a majority can be elected. Progress is stated as the existence of a run of bounded length
  of the ordinary actions, in which only a failed save can intervene.

  Gob (encodeGob and decodeGob of raft/persist.go): the bytes of encoding/gob for the saved state, with the limits
  of its decoder. The type numbers that a process assigns and the bytes of the type descriptions are the parameter
  gob_types; gob_ok says what the format documents about them, and process_types are those of a new process.

  Raft_Storage (raft/persist.go, raft/filestorage.go): MemoryStorage, and FileStorage on a directory whose contents and
  names reach the disk separately. Every system call may work, fail (a write after a part), or lose the power, as the
  list fates of the disk says; a power loss keeps any part of what was not synced. Both are interpreted as storages, the
  files on file systems that do not take a rename back after the sync of the directory has failed (lenient); on others
  failed_sync_reverts shows that a loaded state can be lost, a defect of the code.

  Raft_System: the deployed system, nodes on files. The locales are interpreted here and the guarantees of the cluster
  stated without them, for every configuration, every fault pattern and every sequence of actions, on lenient
  file systems. A concrete run of
  three servers shows that the hypotheses can hold.

  Raft_Transport (raft/httptransport, raft/transport.go): client and handler of the RPCs over HTTP, the JSON of
  the four messages with base64, the body limit. The locale wire states that a message survives its encoding and
  is interpreted for the four messages. The network is a function from a request to a response or an error.

  Float64: IEEE binary64 with rounding to nearest, over the rationals, with overflow, signed zeros, infinities and
  NaN; products and sums may be fused, as the Go specification allows.

  Fraud_Model (internal/model/model.go): the artifact, its validation, score and sigmoid. math.Exp is the parameter
  Exp; exp_ok says what is used of it: for a finite argument that is not positive it returns a float64 from 0 to 1.
  Model_File: Parse and Load on top of the JSON decoder; os.ReadFile is a parameter. Model_Export (training/train.py,
  the artifact): the names of the features, the dictionary, and json.dumps with its indentation, the text that Parse
  reads; the trained numbers are arguments and Python's repr of a float is a parameter.

  Scoring (internal/scoring): the service, readiness, the mapping of features to the vector and its errors. A Go map is
  an association list with distinct keys, and its iteration order is arbitrary. The quoting of the verb %q is the
  parameter quote.

  Json, Json_Structure, Json_Decode, Json_Encode: what the sources use of encoding/json. The scanner, the
  streaming decoder and validateJSONStructure (internal/httpapi/score.go) with a separate grammar to compare it
  with; decoding into structures, where the last duplicate wins, case is folded, null is skipped and the depth is at
  most 10000; encoding, with the escapes for HTML, and that decoding an encoded text gives the value back.
  Media_Type: mime.ParseMediaType and what it needs of package strings.

  Http_Api (internal/httpapi): the handlers, the routes, the texts of the responses. A body is what the client delivers
  before the body limit, an error or the end.

  Server_Config (internal/config): Load, on models of net.SplitHostPort and strconv.Atoi.

  Score_Server (cmd/score-server/main.go): start, serving, the two ways to stop, the exit status. The world (the
  environment, the files, the network, the event that ends the server) is a record of answers.


  WHAT IS SHOWN

  Consensus (Raft_System): one leader per term; no two deliveries differ at an index, across servers and restarts;
  delivered entries are on a majority of disks; committed entries are in the logs of later leaders; logs match; memory and
  disk agree outside critical sections; votes are durable; deliveries are in order; nothing but a failed save panics, in
  particular no lookup in the log leaves its slice; the cluster refines abstract Raft; elections succeed, leaders commit,
  committed entries are delivered to a consumer that receives.

  Log and storage: entriesFrom, truncation with append, and compaction against the content of the log; a save is
  atomic and durable under every fault, but for a failed sync of the directory; what was saved is loaded; what was encoded is decoded, but for logs so long that
  the decoder refuses them, which is a defect of the code.

  Scoring: a score is a probability, the sigmoid saturates, the feature mapping accepts exactly what it should, errors
  name the first offence, the order of a map does not matter; validation does not notice a feature that is listed twice,
  which is then counted twice.

  Interface: the token pass accepts exactly one grammar and ends on every body; POST /v1/score answers 200 exactly for
  valid requests, and never 500 on a valid model; the settings are read as documented; the file that the training
  script writes is read as the model it was made from, and refused when a number in it is not finite; a server that
  serves never fails a request by itself.

  Transport: an RPC delivers the message and the reply unchanged; a command of 12 MiB or more is never replicated; a
  handler that panics is recovered by net/http, and the node then acknowledges an entry that is not on its disk. The last
  contradicts the assumption of Raft_Cluster that a panic ends the process: the guarantees of Raft_System are those of a
  deployment in which it does.


  BOUNDS AND FUEL

  Indexes and terms are 64-bit words that wrap; the theorems on clusters assume only that no counter is at its limit, which
  a real cluster does not reach. The recursive-descent parts of the JSON model take fuel, twice the length of
  the text plus two; parse_value_fuel and structure_terminates show that this is always enough, so that running out
  is not an answer. All other loops are structural or have a termination proof.


  NOT MODELLED

  The helper of the tests (internal/testfixtures: golden vectors and a path); the training itself (the data, the scaler,
  the regression, the folding of the scaler into the weights), which is the work of Python libraries. The texts of log lines and of the errors that only reach the
  log; the server of net/http below the handlers (connections, time limits, redirects and HEAD); the cancellation of
  contexts, which in the cluster model is the failure of a call at any time; the scheduler and the memory model, of which
  the mutex leaves the order of critical sections, and that is arbitrary here; the order in which a Go
  select picks between ready channels, of which both choices are possible actions.
\<close>

end
